(* ===== verification/Prelude.thy ===== *)
theory Prelude
  imports Main "HOL-Library.Word" "HOL-Library.Signed_Division"
begin

text \<open>
  The prelude of the ProxyMax development: the machine integers of the C code, the
  results of library calls that can fail, and the list, option and map facts that
  several components share.

  The code is compiled for 64-bit Linux (\<^verbatim>\<open>Makefile\<close>, gcc): \<open>size_t\<close> and
  \<open>unsigned long\<close> have 64 bits and wrap, \<open>unsigned int\<close> has 32 bits and wraps,
  \<open>int\<close> has 32 bits and two's complement, \<open>char\<close> is signed.  A C \<open>int\<close>
  is an \<^typ>\<open>int\<close> here, brought back into range by \<open>wrap32\<close> after every
  operation of the code that can leave the range.
\<close>

named_theorems inv_intros \<open>preservation lemmas of component invariants\<close>
named_theorems step_simps \<open>equations that compute one step of an operation\<close>

type_synonym u8 = "8 word"
type_synonym uint = "32 word"
type_synonym size_t = "64 word"
type_synonym c_int = int
type_synonym time_t = int
type_synonym addr = nat

subsection \<open>C integers\<close>

definition wrap32 :: "int \<Rightarrow> c_int" where
  "wrap32 i = signed_take_bit 31 i"

definition in_c_int :: "int \<Rightarrow> bool" where
  "in_c_int i \<longleftrightarrow> - (2 ^ 31) \<le> i \<and> i < 2 ^ 31"

lemma wrap32_id: "in_c_int i \<Longrightarrow> wrap32 i = i"
  by (simp add: wrap32_def in_c_int_def signed_take_bit_int_eq_self_iff)

lemma wrap32_in_range: "in_c_int (wrap32 i)"
  using signed_take_bit_int_greater_eq_minus_exp [of 31 i] signed_take_bit_int_less_exp [of 31 i]
  by (simp add: wrap32_def in_c_int_def)

lemma wrap32_nonneg_id: "0 \<le> i \<Longrightarrow> i < 2 ^ 31 \<Longrightarrow> wrap32 i = i"
  by (rule wrap32_id) (simp add: in_c_int_def)

text \<open>The remainder of C's \<open>%\<close> has the sign of the dividend; on non-negative
  operands it is \<open>mod\<close>.\<close>

lemma smod_nonneg: "0 \<le> (a::int) \<Longrightarrow> 0 < b \<Longrightarrow> a smod b = a mod b"
  by (cases "a = 0") (simp_all add: signed_modulo_int_def)

lemma smod_neg: "(a::int) < 0 \<Longrightarrow> 0 < b \<Longrightarrow> a smod b \<le> 0"
  by (simp add: signed_modulo_int_def)

lemma smod_bound: "0 < (b::int) \<Longrightarrow> a smod b < b"
  using smod_neg [of a b] by (cases "0 \<le> a") (auto simp: smod_nonneg)

lemma unat_of_nat_size: "n < 2 ^ 64 \<Longrightarrow> unat (of_nat n :: size_t) = n"
  by (simp add: unat_of_nat take_bit_nat_eq_self)

subsection \<open>Lists without repetition, as the linked lists of the code are\<close>

lemma remove1_distinct_set: "distinct xs \<Longrightarrow> set (remove1 x xs) = set xs - {x}"
  by (rule set_remove1_eq)

lemma distinct_move_last:
  "distinct xs \<Longrightarrow> distinct (remove1 x xs @ [x])"
  by simp

lemma sum_list_remove1:
  fixes f :: "'a \<Rightarrow> 'b::ab_group_add"
  shows "x \<in> set xs \<Longrightarrow> sum_list (map f (remove1 x xs)) = sum_list (map f xs) - f x"
  by (induction xs) auto

lemma sum_list_fun_upd_in:
  fixes f :: "'a \<Rightarrow> 'b::ab_group_add"
  assumes "distinct xs" "x \<in> set xs"
  shows "sum_list (map (f(x := v)) xs) = sum_list (map f xs) - f x + v"
  using assms
proof (induction xs)
  case Nil
  then show ?case by simp
next
  case (Cons y ys)
  then show ?case
    by (cases "y = x") (simp_all del: fun_upd_apply add: map_fun_upd fun_upd_same fun_upd_other)
qed

subsection \<open>The first element that satisfies a test\<close>

lemma find_Some_in: "find P xs = Some x \<Longrightarrow> x \<in> set xs \<and> P x"
  by (induction xs) (auto split: if_splits)

lemma find_None_all: "find P xs = None \<longleftrightarrow> (\<forall>x\<in>set xs. \<not> P x)"
  by (induction xs) auto

lemma find_unique:
  assumes "x \<in> set xs" "P x" "\<And>y. y \<in> set xs \<Longrightarrow> P y \<Longrightarrow> y = x"
  shows "find P xs = Some x"
proof (cases "find P xs")
  case None
  with assms(1,2) show ?thesis by (auto simp: find_None_all)
next
  case (Some y)
  from find_Some_in [OF Some] assms(3) have "y = x" by blast
  with Some show ?thesis by simp
qed

end
