(* ===== verification/C_String.thy ===== *)
theory C_String
  imports Prelude
begin

text \<open>
  The part of the C library that ProxyMax uses on strings.  A C string is a
  \<^typ>\<open>string\<close> without a NUL character; a pointer into a string is the rest of the
  string from there, so \<open>strstr\<close> and \<open>strcasestr\<close> return that rest.  Where the code
  fills a fixed array, the array is a list of characters with its old contents, and
  reading it back as a string is \<open>cstr\<close>, which is \<^const>\<open>None\<close> when no
  terminator is found inside the array (the read that C leaves undefined).
\<close>

abbreviation NUL :: char where "NUL \<equiv> CHR 0x00"
abbreviation CR :: char where "CR \<equiv> CHR 0x0D"
abbreviation LF :: char where "LF \<equiv> CHR 0x0A"
abbreviation TAB :: char where "TAB \<equiv> CHR 0x09"
abbreviation CRLF :: string where "CRLF \<equiv> [CR, LF]"

definition c_string :: "string \<Rightarrow> bool" where
  "c_string s \<longleftrightarrow> NUL \<notin> set s"

subsection \<open>Characters\<close>

definition code :: "char \<Rightarrow> nat" where
  "code c = of_char c"

definition sext_char :: "char \<Rightarrow> uint" where
  "sext_char c = word_of_int (signed_take_bit 7 (of_char c))"

definition to_lower :: "char \<Rightarrow> char" where
  "to_lower c = (if 65 \<le> code c \<and> code c \<le> 90 then char_of (code c + 32) else c)"

definition is_space :: "char \<Rightarrow> bool" where
  "is_space c \<longleftrightarrow> code c = 32 \<or> (9 \<le> code c \<and> code c \<le> 13)"

definition is_digit :: "char \<Rightarrow> bool" where
  "is_digit c \<longleftrightarrow> 48 \<le> code c \<and> code c \<le> 57"

subsection \<open>Searching\<close>

fun starts_with :: "string \<Rightarrow> string \<Rightarrow> bool" where
  "starts_with [] s = True"
| "starts_with (a # n) [] = False"
| "starts_with (a # n) (c # s) = (a = c \<and> starts_with n s)"

fun strstr :: "string \<Rightarrow> string \<Rightarrow> string option" where
  "strstr [] n = (if n = [] then Some [] else None)"
| "strstr (c # s) n = (if starts_with n (c # s) then Some (c # s) else strstr s n)"

fun strcasestr :: "string \<Rightarrow> string \<Rightarrow> string option" where
  "strcasestr [] n = (if n = [] then Some [] else None)"
| "strcasestr (c # s) n =
     (if starts_with (map to_lower n) (map to_lower (c # s)) then Some (c # s)
      else strcasestr s n)"

text \<open>\<open>p = strchr(s, c)\<close> with the two strings the code then reads: the part before
  \<open>p\<close> (the code writes a NUL there) and the part after it.\<close>

definition strchr_split :: "char \<Rightarrow> string \<Rightarrow> (string \<times> string) option" where
  "strchr_split c s =
     (case dropWhile (\<lambda>x. x \<noteq> c) s of
        [] \<Rightarrow> None
      | _ # r \<Rightarrow> Some (takeWhile (\<lambda>x. x \<noteq> c) s, r))"

text \<open>The characters of \<open>s\<close> before the position \<open>r\<close>, a rest of \<open>s\<close>: the pointer
  difference \<open>r - s\<close> and the bytes it spans.\<close>

definition upto :: "string \<Rightarrow> string \<Rightarrow> string" where
  "upto s r = take (length s - length r) s"

subsection \<open>Numbers\<close>

definition digits_value :: "string \<Rightarrow> int" where
  "digits_value s = foldl (\<lambda>v c. 10 * v + (int (code c) - 48)) 0 s"

text \<open>\<open>atoi\<close> is glibc's \<open>(int) strtol(s, NULL, 10)\<close>: the value saturates at the range
  of \<open>long\<close> and is then cut to 32 bits.\<close>

definition atoi :: "string \<Rightarrow> c_int" where
  "atoi s =
     (let t = dropWhile is_space s;
          neg = (t \<noteq> [] \<and> hd t = CHR ''-'');
          u = (if t \<noteq> [] \<and> (hd t = CHR ''-'' \<or> hd t = CHR ''+'') then tl t else t);
          v = digits_value (takeWhile is_digit u);
          l = (if neg then max (- (2 ^ 63)) (- v) else min (2 ^ 63 - 1) v)
      in wrap32 l)"

fun show_nat :: "nat \<Rightarrow> string" where
  "show_nat n =
     (if n < 10 then [char_of (48 + n)] else show_nat (n div 10) @ [char_of (48 + n mod 10)])"

declare show_nat.simps [simp del]

lemma show_nat_small [step_simps]: "n < 10 \<Longrightarrow> show_nat n = [char_of (48 + n)]"
  by (simp add: show_nat.simps)

lemma show_nat_step [step_simps]:
  "10 \<le> n \<Longrightarrow> show_nat n = show_nat (n div 10) @ [char_of (48 + n mod 10)]"
  by (subst show_nat.simps) simp

subsection \<open>Fixed arrays\<close>

definition cstr :: "char list \<Rightarrow> string option" where
  "cstr b = (if NUL \<in> set b then Some (takeWhile (\<lambda>c. c \<noteq> NUL) b) else None)"

text \<open>\<open>strncpy(b, s, n)\<close>: at most \<open>n\<close> characters, padded with NULs, no terminator of
  its own; the bytes from \<open>n\<close> on keep what they held.\<close>

definition strncpy :: "char list \<Rightarrow> string \<Rightarrow> nat \<Rightarrow> char list" where
  "strncpy b s n = take n (s @ replicate n NUL) @ drop n b"

text \<open>\<open>strcpy(b, s)\<close> into an array of known size: \<^const>\<open>None\<close> is a write past its end.\<close>

definition strcpy :: "nat \<Rightarrow> string \<Rightarrow> string option" where
  "strcpy cap s = (if length s < cap then Some s else None)"

text \<open>Three \<open>%s\<close> conversions of \<open>sscanf\<close>, separated by white space.\<close>

definition scan_word :: "string \<Rightarrow> (string \<times> string) option" where
  "scan_word s =
     (let t = dropWhile is_space s; w = takeWhile (\<lambda>c. \<not> is_space c) t
      in if w = [] then None else Some (w, dropWhile (\<lambda>c. \<not> is_space c) t))"

definition sscanf_3s :: "string \<Rightarrow> (string \<times> string \<times> string) option" where
  "sscanf_3s s =
     (case scan_word s of None \<Rightarrow> None | Some (a, s1) \<Rightarrow>
      (case scan_word s1 of None \<Rightarrow> None | Some (b, s2) \<Rightarrow>
       (case scan_word s2 of None \<Rightarrow> None | Some (c, _) \<Rightarrow> Some (a, b, c))))"

text \<open>\<open>strcmp(b, s) == 0\<close> where \<open>b\<close> is an array: \<^const>\<open>None\<close> when the comparison runs past
  the end of the array.\<close>

fun array_eq :: "char list \<Rightarrow> string \<Rightarrow> bool option" where
  "array_eq [] s = None"
| "array_eq (c # b) [] = Some (c = NUL)"
| "array_eq (c # b) (d # s) = (if c = d then array_eq b s else Some False)"

subsection \<open>Facts about searching\<close>

lemma starts_with_iff: "starts_with n s \<longleftrightarrow> (\<exists>r. s = n @ r)"
  by (induction n s rule: starts_with.induct) auto

lemma starts_with_append [simp]: "starts_with n (n @ r)"
  by (auto simp: starts_with_iff)

lemma strstr_Some: "strstr s n = Some r \<Longrightarrow> \<exists>p q. s = p @ r \<and> r = n @ q"
proof (induction s)
  case Nil
  then show ?case by (auto split: if_splits)
next
  case (Cons c s)
  show ?case
  proof (cases "starts_with n (c # s)")
    case True
    with Cons.prems show ?thesis by (auto simp: starts_with_iff)
  next
    case False
    with Cons obtain p q where "s = p @ r" "r = n @ q" by auto
    then have "c # s = (c # p) @ r \<and> r = n @ q" by simp
    then show ?thesis by blast
  qed
qed

lemma strstr_None: "strstr s n = None \<longleftrightarrow> (\<nexists>p q. s = p @ n @ q)"
proof (induction s)
  case Nil
  then show ?case by auto
next
  case (Cons c s)
  have "(\<exists>p q. c # s = p @ n @ q) \<longleftrightarrow>
      starts_with n (c # s) \<or> (\<exists>p q. s = p @ n @ q)"
    by (auto simp: starts_with_iff Cons_eq_append_conv)
  with Cons.IH show ?case by simp
qed

lemma strcasestr_suffix: "strcasestr s n = Some r \<Longrightarrow> \<exists>p. s = p @ r"
proof (induction s)
  case Nil
  then show ?case by (auto split: if_splits)
next
  case (Cons c s)
  then show ?case
    by (auto split: if_splits)
qed

lemma strcasestr_c_string: "strcasestr s n = Some r \<Longrightarrow> c_string s \<Longrightarrow> c_string r"
  by (auto simp: c_string_def dest!: strcasestr_suffix)

lemma strchr_split_Some:
  "strchr_split c s = Some (a, b) \<longleftrightarrow> s = a @ c # b \<and> c \<notin> set a"
proof
  assume L: "strchr_split c s = Some (a, b)"
  then obtain d where d: "dropWhile (\<lambda>x. x \<noteq> c) s = d # b" and a: "a = takeWhile (\<lambda>x. x \<noteq> c) s"
    by (auto simp: strchr_split_def split: list.splits)
  from d have "d = c" by (auto simp: dropWhile_eq_Cons_conv)
  moreover have "s = a @ d # b"
    using takeWhile_dropWhile_id [of "\<lambda>x. x \<noteq> c" s] by (simp add: a d)
  moreover have "c \<notin> set a" using a by (auto dest: set_takeWhileD)
  ultimately show "s = a @ c # b \<and> c \<notin> set a" by simp
next
  assume R: "s = a @ c # b \<and> c \<notin> set a"
  then have "\<forall>x\<in>set a. x \<noteq> c" by auto
  with R show "strchr_split c s = Some (a, b)"
    by (simp add: strchr_split_def dropWhile_append takeWhile_append)
qed

lemma strchr_split_None: "strchr_split c s = None \<longleftrightarrow> c \<notin> set s"
proof (cases "dropWhile (\<lambda>x. x \<noteq> c) s")
  case Nil
  then have "c \<notin> set s" by (auto simp: dropWhile_eq_Nil_conv)
  moreover have "strchr_split c s = None" unfolding strchr_split_def Nil by simp
  ultimately show ?thesis by simp
next
  case (Cons d r)
  then have "d \<in> set s" and "d = c"
    by (metis list.set_intros(1) set_dropWhileD) (use Cons in \<open>simp add: dropWhile_eq_Cons_conv\<close>)
  with Cons show ?thesis by (simp add: strchr_split_def)
qed

lemma strchr_split_append:
  "c \<notin> set a \<Longrightarrow> strchr_split c (a @ c # b) = Some (a, b)"
  by (simp add: strchr_split_Some)

lemma upto_append [simp]: "upto (p @ r) r = p"
  by (simp add: upto_def)

subsection \<open>Facts about fixed arrays\<close>

lemma length_strncpy: "n \<le> length b \<Longrightarrow> length (strncpy b s n) = length b"
  by (simp add: strncpy_def)

lemma cstr_append_NUL: "c_string s \<Longrightarrow> cstr (s @ NUL # r) = Some s"
  by (auto simp: cstr_def c_string_def takeWhile_append)

lemma cstr_Some_c_string: "cstr b = Some s \<Longrightarrow> c_string s"
  by (auto simp: cstr_def c_string_def dest: set_takeWhileD split: if_splits)

lemma cstr_strncpy_short:
  assumes "c_string s" "length s < n"
  shows "cstr (strncpy b s n) = Some s"
proof -
  from assms(2) obtain k where n: "n = length s + Suc k"
    by (metis add_Suc_right less_iff_Suc_add)
  have "strncpy b s n = s @ NUL # (replicate k NUL @ drop n b)"
    by (simp add: strncpy_def n)
  with assms(1) show ?thesis by (simp add: cstr_append_NUL)
qed

lemma cstr_strncpy_long:
  assumes "c_string s" "n \<le> length s"
  shows "cstr (strncpy b s n) = map_option (\<lambda>t. take n s @ t) (cstr (drop n b))"
proof -
  have "\<forall>c\<in>set (take n s). c \<noteq> NUL"
    using assms(1) by (auto simp: c_string_def dest: in_set_takeD)
  with assms(2) show ?thesis
    by (auto simp: strncpy_def cstr_def takeWhile_append)
qed

lemma cstr_strncpy_terminated:
  assumes "c_string s" "n < length b" "b ! n = NUL"
  shows "cstr (strncpy b s n) = Some (take n s)"
proof (cases "length s < n")
  case True
  with assms(1) show ?thesis by (simp add: cstr_strncpy_short)
next
  case False
  have "drop n b = NUL # drop (Suc n) b"
    using assms(2,3) by (metis Cons_nth_drop_Suc)
  then have "cstr (drop n b) = Some []" by (simp add: cstr_def)
  with False assms(1) show ?thesis by (simp add: cstr_strncpy_long)
qed

lemma array_eq_cstr:
  assumes "cstr b = Some t" "c_string s"
  shows "array_eq b s = Some (t = s)"
  using assms
proof (induction b s arbitrary: t rule: array_eq.induct)
  case (3 c b d s)
  show ?case
  proof (cases "c = d")
    case True
    with 3 obtain t' where "cstr b = Some t'" "t = c # t'"
      by (auto simp: cstr_def c_string_def split: if_splits)
    with 3 True show ?thesis by (simp add: c_string_def)
  next
    case False
    with 3 show ?thesis by (auto simp: cstr_def c_string_def split: if_splits)
  qed
qed (auto simp: cstr_def split: if_splits)

text \<open>A fixed array whose last byte is NUL, filled with \<open>strncpy(b, v, sizeof(b) - 1)\<close>:
  the array stays terminated and reads back as the first \<open>sizeof(b) - 1\<close> characters.  The
  arrays of a structure that was cleared with \<open>memset\<close> are modelled by that string.\<close>

definition field_copy :: "nat \<Rightarrow> string \<Rightarrow> string" where
  "field_copy n v = take (n - 1) v"

lemma field_copy_sound:
  assumes "c_string v" "0 < n" "length b = n" "b ! (n - 1) = NUL"
  shows "cstr (strncpy b v (n - 1)) = Some (field_copy n v)"
    and "length (strncpy b v (n - 1)) = n" and "strncpy b v (n - 1) ! (n - 1) = NUL"
proof -
  show "cstr (strncpy b v (n - 1)) = Some (field_copy n v)"
    using assms by (simp add: field_copy_def cstr_strncpy_terminated)
  show "length (strncpy b v (n - 1)) = n" using assms by (simp add: length_strncpy)
  show "strncpy b v (n - 1) ! (n - 1) = NUL"
  proof -
    obtain x where x: "strncpy b v (n - 1) = x @ drop (n - 1) b" "length x = n - 1"
      by (simp add: strncpy_def)
    have "(x @ drop (n - 1) b) ! (n - 1) = drop (n - 1) b ! 0" using x(2) by (simp add: nth_append)
    with x(1) assms show ?thesis by simp
  qed
qed

lemma field_copy_short [simp]: "length v < n \<Longrightarrow> field_copy n v = v"
  by (simp add: field_copy_def)

lemma length_field_copy: "0 < n \<Longrightarrow> length (field_copy n v) < n"
  by (auto simp: field_copy_def)

lemma c_string_field_copy: "c_string v \<Longrightarrow> c_string (field_copy n v)"
  by (auto simp: c_string_def field_copy_def dest: in_set_takeD)

subsection \<open>Reading a file by lines\<close>

text \<open>\<open>fgets(line, n, fp)\<close> on the bytes \<open>s\<close> that the file still holds: what it stores, and
  what is left.\<close>

definition fgets :: "nat \<Rightarrow> string \<Rightarrow> (string \<times> string) option" where
  "fgets n s =
     (if s = [] then None
      else let l = takeWhile (\<lambda>c. c \<noteq> LF) s;
               k = min (n - 1) (if length l < length s then Suc (length l) else length l)
           in Some (take k s, drop k s))"

lemma fgets_shorter: "fgets n s = Some (l, r) \<Longrightarrow> 1 < n \<Longrightarrow> s = l @ r \<and> length r < length s"
  by (cases s) (auto simp: fgets_def Let_def split: if_splits)

lemma fgets_line:
  assumes "LF \<notin> set l" "length l + 2 \<le> n"
  shows "fgets n (l @ LF # r) = Some (l @ [LF], r)"
proof -
  have "takeWhile (\<lambda>c. c \<noteq> LF) (l @ LF # r) = l"
    using assms(1) by (induction l) auto
  with assms(2) show ?thesis by (simp add: fgets_def Let_def)
qed

end
