(* ===== verification/Cache.thy ===== *)
theory Cache
  imports C_String
begin

text \<open>
  The response cache of \<^verbatim>\<open>src/cache/cache.c\<close>: entries on the heap, linked at the same
  time into one bucket of a hash table and into the LRU queue.  The model keeps that
  sharing: \<open>heap\<close> maps the address of an entry to its fields, and \<open>buckets\<close> and \<open>lru\<close>
  are lists of addresses.  Every public operation runs under the cache's mutex, so it is
  one atomic step.  The result of an allocation and the clock are arguments.
\<close>

subsection \<open>State\<close>

record cache_entry =
  ce_key :: string
  ce_data :: "u8 list"
  ce_size :: size_t
  ce_expiry :: time_t

record cache_t =
  heap :: "addr \<rightharpoonup> cache_entry"
  buckets :: "uint \<Rightarrow> addr list"
  num_buckets :: size_t
  lru :: "addr list"
  total_size :: size_t
  max_size :: size_t
  hits :: c_int
  misses :: c_int

text \<open>What the allocator answers during one \<open>cache_put\<close>: the copy of the data on the
  update path, and on the insert path the entry, its key and its data.\<close>

record put_allocs =
  al_update :: bool
  al_entry :: "addr option"
  al_key :: bool
  al_data :: bool

definition entry :: "cache_t \<Rightarrow> addr \<Rightarrow> cache_entry" where
  "entry c a = the (heap c a)"

subsection \<open>Operations\<close>

definition hash_key :: "string \<Rightarrow> size_t \<Rightarrow> uint" where
  "hash_key key n =
     ucast ((ucast (foldl (\<lambda>h c. (push_bit 5 h + h) + sext_char c) (5381 :: uint) key) :: size_t)
            mod n)"

definition cache_init :: "bool \<Rightarrow> bool \<Rightarrow> size_t \<Rightarrow> c_int \<times> cache_t option" where
  "cache_init m_cache m_buckets size_mb =
     (if \<not> m_cache then (-1, None)
      else if \<not> m_buckets then (-1, None)
      else (0, Some \<lparr>heap = Map.empty, buckets = (\<lambda>_. []), num_buckets = 1024, lru = [],
                     total_size = 0, max_size = size_mb * 1024 * 1024, hits = 0, misses = 0\<rparr>))"

definition cache_entry_destroy :: "addr \<Rightarrow> cache_t \<Rightarrow> cache_t" where
  "cache_entry_destroy a c = c\<lparr>heap := (heap c)(a := None)\<rparr>"

text \<open>\<open>TAILQ_REMOVE\<close> followed by \<open>LIST_REMOVE\<close>: the entry leaves the LRU queue and the
  bucket it is linked into.\<close>

definition unlink :: "addr \<Rightarrow> cache_t \<Rightarrow> cache_t" where
  "unlink a c = c\<lparr>lru := remove1 a (lru c), buckets := (\<lambda>b. remove1 a (buckets c b))\<rparr>"

definition cache_evict_lru :: "cache_t \<Rightarrow> cache_t" where
  "cache_evict_lru c =
     (case lru c of
        [] \<Rightarrow> c
      | a # _ \<Rightarrow>
          let c1 = unlink a c;
              c2 = c1\<lparr>total_size := total_size c1 - ce_size (entry c1 a)\<rparr>
          in cache_entry_destroy a c2)"

definition bucket_find :: "cache_t \<Rightarrow> string \<Rightarrow> addr option" where
  "bucket_find c key =
     find (\<lambda>a. ce_key (entry c a) = key) (buckets c (hash_key key (num_buckets c)))"

definition lru_touch :: "addr \<Rightarrow> cache_t \<Rightarrow> cache_t" where
  "lru_touch a c = c\<lparr>lru := remove1 a (lru c) @ [a]\<rparr>"

definition expired :: "time_t \<Rightarrow> cache_entry \<Rightarrow> bool" where
  "expired now e \<longleftrightarrow> 0 < ce_expiry e \<and> ce_expiry e < now"

definition get_step ::
  "bool \<Rightarrow> time_t \<Rightarrow> cache_t \<Rightarrow> string \<Rightarrow> (u8 list \<times> size_t) option \<times> cache_t" where
  "get_step m_data now c key =
     (case bucket_find c key of
        Some a \<Rightarrow>
          (let e = entry c a in
           if expired now e then
             (let c1 = unlink a c;
                  c2 = c1\<lparr>total_size := total_size c1 - ce_size e\<rparr>;
                  c3 = cache_entry_destroy a c2
              in (None, c3\<lparr>misses := wrap32 (misses c3 + 1)\<rparr>))
           else
             (let c1 = lru_touch a c in
              if \<not> m_data then (None, c1)
              else (Some (take (unat (ce_size e)) (ce_data e), ce_size e),
                    c1\<lparr>hits := wrap32 (hits c1 + 1)\<rparr>)))
      | None \<Rightarrow> (None, c\<lparr>misses := wrap32 (misses c + 1)\<rparr>))"

definition cache_get ::
  "bool \<Rightarrow> time_t \<Rightarrow> cache_t option \<Rightarrow> string option
     \<Rightarrow> (u8 list \<times> size_t) option \<times> cache_t option" where
  "cache_get m_data now g key =
     (case (g, key) of
        (Some c, Some k) \<Rightarrow> (let (r, c') = get_step m_data now c k in (r, Some c'))
      | _ \<Rightarrow> (None, g))"

text \<open>The eviction loop of \<open>cache_put\<close>.  On an empty queue \<open>cache_evict_lru\<close> changes
  nothing, so a loop that still lacks room then never returns: that is \<^const>\<open>None\<close>.\<close>

partial_function (option) evict_loop :: "size_t \<Rightarrow> cache_t \<Rightarrow> cache_t option" where
  "evict_loop sz c =
     (if max_size c < total_size c + sz then evict_loop sz (cache_evict_lru c) else Some c)"

definition new_expiry :: "time_t \<Rightarrow> c_int \<Rightarrow> time_t" where
  "new_expiry now ttl = (if 0 < ttl then now + ttl else 0)"

definition put_update ::
  "time_t \<Rightarrow> cache_t \<Rightarrow> addr \<Rightarrow> u8 list \<Rightarrow> size_t \<Rightarrow> c_int \<Rightarrow> cache_t" where
  "put_update now c a data sz ttl =
     (let e = entry c a;
          c1 = c\<lparr>total_size := total_size c - ce_size e + sz\<rparr>;
          e1 = e\<lparr>ce_data := take (unat sz) data, ce_size := sz, ce_expiry := new_expiry now ttl\<rparr>;
          c2 = c1\<lparr>heap := (heap c1)(a \<mapsto> e1)\<rparr>
      in lru_touch a c2)"

definition put_insert ::
  "time_t \<Rightarrow> cache_t \<Rightarrow> addr \<Rightarrow> string \<Rightarrow> u8 list \<Rightarrow> size_t \<Rightarrow> c_int \<Rightarrow> cache_t" where
  "put_insert now c a key data sz ttl =
     (let e = \<lparr>ce_key = key, ce_data = take (unat sz) data, ce_size = sz,
               ce_expiry = new_expiry now ttl\<rparr>;
          b = hash_key key (num_buckets c)
      in c\<lparr>heap := (heap c)(a \<mapsto> e),
           buckets := (buckets c)(b := a # buckets c b),
           lru := lru c @ [a],
           total_size := total_size c + sz\<rparr>)"

text \<open>The body of \<open>cache_put\<close> under the mutex: \<^const>\<open>None\<close> when the eviction loop does
  not return, else the status (0 or -1) and the cache.\<close>

definition put_step ::
  "put_allocs \<Rightarrow> time_t \<Rightarrow> cache_t \<Rightarrow> string \<Rightarrow> u8 list \<Rightarrow> size_t \<Rightarrow> c_int
     \<Rightarrow> (c_int \<times> cache_t) option" where
  "put_step al now c key data sz ttl =
     (if max_size c div 2 < sz then Some (-1, c)
      else case bucket_find c key of
        Some a \<Rightarrow>
          if \<not> al_update al then Some (-1, c)
          else Some (0, put_update now c a data sz ttl)
      | None \<Rightarrow>
          case evict_loop sz c of
            None \<Rightarrow> None
          | Some c1 \<Rightarrow>
              (case al_entry al of
                 None \<Rightarrow> Some (-1, c1)
               | Some a \<Rightarrow>
                   if \<not> al_key al \<or> \<not> al_data al then Some (-1, c1)
                   else Some (0, put_insert now c1 a key data sz ttl)))"

definition cache_put ::
  "put_allocs \<Rightarrow> time_t \<Rightarrow> cache_t option \<Rightarrow> string option \<Rightarrow> u8 list option \<Rightarrow> size_t \<Rightarrow> c_int
     \<Rightarrow> (c_int \<times> cache_t option) option" where
  "cache_put al now g key data sz ttl =
     (case (g, key, data) of
        (Some c, Some k, Some d) \<Rightarrow>
          if sz = 0 then Some (-1, g)
          else map_option (\<lambda>(r, c'). (r, Some c')) (put_step al now c k d sz ttl)
      | _ \<Rightarrow> Some (-1, g))"

text \<open>\<open>cache_cleanup\<close> destroys the entries of the LRU queue one by one, then the cache;
  the result is what is left on the heap and the new value of \<open>g_cache\<close>.\<close>

fun destroy_all :: "addr list \<Rightarrow> cache_t \<Rightarrow> cache_t" where
  "destroy_all [] c = c"
| "destroy_all (a # as) c = destroy_all as (cache_entry_destroy a (c\<lparr>lru := as\<rparr>))"

definition cache_cleanup :: "cache_t option \<Rightarrow> (addr \<rightharpoonup> cache_entry) \<times> cache_t option" where
  "cache_cleanup g =
     (case g of None \<Rightarrow> (Map.empty, None)
      | Some c \<Rightarrow> (heap (destroy_all (lru c) c), None))"

subsection \<open>The invariant\<close>

text \<open>
  Well-formedness: the LRU queue lists exactly the live entries, once each; an entry is in
  the bucket its key hashes to and in no other; no two entries share a key; \<open>total_size\<close>
  is the sum of the sizes (on 64-bit words); every entry holds as many bytes as its size
  says, at least one and at most half the capacity.
\<close>

definition entry_ok :: "size_t \<Rightarrow> cache_entry \<Rightarrow> bool" where
  "entry_ok mx e \<longleftrightarrow>
     ce_size e \<noteq> 0 \<and> ce_size e \<le> mx div 2 \<and> length (ce_data e) = unat (ce_size e)"

definition linked_ok :: "cache_t \<Rightarrow> bool" where
  "linked_ok c \<longleftrightarrow>
     distinct (lru c) \<and> set (lru c) = dom (heap c) \<and>
     (\<forall>b. distinct (buckets c b)) \<and>
     (\<forall>a b. a \<in> set (buckets c b) \<longleftrightarrow>
        a \<in> dom (heap c) \<and> hash_key (ce_key (entry c a)) (num_buckets c) = b)"

definition cache_wf :: "cache_t \<Rightarrow> bool" where
  "cache_wf c \<longleftrightarrow>
     num_buckets c = 1024 \<and> linked_ok c \<and>
     inj_on (\<lambda>a. ce_key (entry c a)) (dom (heap c)) \<and>
     total_size c = sum_list (map (\<lambda>a. ce_size (entry c a)) (lru c)) \<and>
     (\<forall>a \<in> dom (heap c). entry_ok (max_size c) (entry c a))"

lemma hash_key_in_table: "hash_key k 1024 < 1024"
proof -
  have "unat (x mod 1024) < 1024" for x :: size_t
    by (simp add: unat_mod_distrib)
  then show ?thesis
    by (simp add: hash_key_def word_less_nat_alt unsigned_ucast_eq)
      (rule order.strict_trans1 [OF take_bit_nat_less_eq_self])
qed

lemma entry_upd [simp]:
  "entry (c\<lparr>heap := (heap c)(a \<mapsto> e)\<rparr>) = (entry c)(a := e)"
  by (auto simp: entry_def)

lemma entry_frame [simp]:
  "entry (c\<lparr>buckets := x\<rparr>) = entry c" "entry (c\<lparr>lru := y\<rparr>) = entry c"
  "entry (c\<lparr>total_size := z\<rparr>) = entry c" "entry (c\<lparr>hits := h\<rparr>) = entry c"
  "entry (c\<lparr>misses := m\<rparr>) = entry c"
  by (auto simp: entry_def)

lemma linked_frame [simp]:
  "linked_ok (c\<lparr>total_size := z\<rparr>) = linked_ok c" "linked_ok (c\<lparr>hits := h\<rparr>) = linked_ok c"
  "linked_ok (c\<lparr>misses := m\<rparr>) = linked_ok c"
  by (simp_all add: linked_ok_def)

lemma cache_wf_counters [simp]:
  "cache_wf (c\<lparr>hits := h\<rparr>) = cache_wf c" "cache_wf (c\<lparr>misses := h\<rparr>) = cache_wf c"
  by (simp_all add: cache_wf_def)

lemma bucket_find_Some:
  assumes "linked_ok c" "bucket_find c k = Some a"
  shows "a \<in> dom (heap c)" "ce_key (entry c a) = k"
  using find_Some_in [OF assms(2) [unfolded bucket_find_def]] assms(1)
  by (auto simp: linked_ok_def)

lemma bucket_find_live:
  assumes "cache_wf c" "a \<in> dom (heap c)" "ce_key (entry c a) = k"
  shows "bucket_find c k = Some a"
  unfolding bucket_find_def
proof (rule find_unique)
  show "a \<in> set (buckets c (hash_key k (num_buckets c)))"
    using assms by (simp add: cache_wf_def linked_ok_def)
  fix a' assume "a' \<in> set (buckets c (hash_key k (num_buckets c)))" "ce_key (entry c a') = k"
  with assms show "a' = a"
    by (auto simp: cache_wf_def linked_ok_def dest: inj_onD)
qed (fact assms(3))

lemma bucket_find_None:
  assumes "cache_wf c"
  shows "bucket_find c k = None \<longleftrightarrow> (\<forall>a\<in>dom (heap c). ce_key (entry c a) \<noteq> k)"
proof (cases "bucket_find c k")
  case None
  then show ?thesis using bucket_find_live [OF assms] by force
next
  case (Some a)
  with assms have "a \<in> dom (heap c)" "ce_key (entry c a) = k"
    by (auto simp: cache_wf_def dest: bucket_find_Some)
  with Some show ?thesis by auto
qed

subsection \<open>Removing an entry\<close>

definition remove_entry :: "addr \<Rightarrow> cache_t \<Rightarrow> cache_t" where
  "remove_entry a c =
     cache_entry_destroy a ((unlink a c)\<lparr>total_size := total_size c - ce_size (entry c a)\<rparr>)"

lemma remove_entry_simps [simp]:
  "lru (remove_entry a c) = remove1 a (lru c)"
  "buckets (remove_entry a c) b = remove1 a (buckets c b)"
  "heap (remove_entry a c) = (heap c)(a := None)"
  "total_size (remove_entry a c) = total_size c - ce_size (entry c a)"
  "max_size (remove_entry a c) = max_size c"
  "num_buckets (remove_entry a c) = num_buckets c"
  "hits (remove_entry a c) = hits c" "misses (remove_entry a c) = misses c"
  by (simp_all add: remove_entry_def unlink_def cache_entry_destroy_def)

lemma entry_remove [simp]: "a' \<noteq> a \<Longrightarrow> entry (remove_entry a c) a' = entry c a'"
  by (simp add: entry_def)

lemma evict_eq:
  "cache_evict_lru c = (case lru c of [] \<Rightarrow> c | a # _ \<Rightarrow> remove_entry a c)"
  by (simp add: cache_evict_lru_def remove_entry_def unlink_def Let_def entry_def split: list.split)

lemma linked_remove:
  assumes "linked_ok c" "a \<in> dom (heap c)"
  shows "linked_ok (remove_entry a c)"
proof -
  have "a' \<in> set (remove1 a (buckets c b)) \<longleftrightarrow>
      a' \<in> dom ((heap c)(a := None)) \<and>
      hash_key (ce_key (entry (remove_entry a c) a')) (num_buckets c) = b" for a' b
    using assms by (cases "a' = a") (auto simp: linked_ok_def)
  then show ?thesis
    using assms(1) unfolding linked_ok_def by auto
qed

lemma wf_remove [inv_intros]:
  assumes "cache_wf c" "a \<in> dom (heap c)"
  shows "cache_wf (remove_entry a c)"
proof -
  have lru: "distinct (lru c)" "a \<in> set (lru c)"
    using assms by (auto simp: cache_wf_def linked_ok_def)
  have sizes: "map (\<lambda>x. ce_size (entry (remove_entry a c) x)) (remove1 a (lru c))
      = map (\<lambda>x. ce_size (entry c x)) (remove1 a (lru c))"
    using lru(1) by (intro map_cong) auto
  have "total_size (remove_entry a c)
      = sum_list (map (\<lambda>x. ce_size (entry (remove_entry a c) x)) (lru (remove_entry a c)))"
    using assms(1) sum_list_remove1 [OF lru(2), of "\<lambda>x. ce_size (entry c x)"]
    by (simp only: sizes remove_entry_simps) (simp add: cache_wf_def)
  moreover have "inj_on (\<lambda>x. ce_key (entry (remove_entry a c) x)) (dom (heap c) - {a})"
    using assms(1) by (auto simp: cache_wf_def inj_on_def)
  ultimately show ?thesis
    using assms linked_remove [of c a] by (auto simp: cache_wf_def)
qed

lemma wf_evict [inv_intros]: "cache_wf c \<Longrightarrow> cache_wf (cache_evict_lru c)"
proof (cases "lru c")
  case Nil
  assume "cache_wf c"
  with Nil show ?thesis by (simp add: evict_eq)
next
  case (Cons a as)
  assume wf: "cache_wf c"
  then have "a \<in> dom (heap c)"
    using Cons by (metis cache_wf_def linked_ok_def list.set_intros(1))
  with wf Cons show ?thesis by (simp add: evict_eq wf_remove)
qed

subsection \<open>The eviction loop\<close>

lemma evict_frame [simp]:
  "max_size (cache_evict_lru c) = max_size c"
  "num_buckets (cache_evict_lru c) = num_buckets c"
  "hits (cache_evict_lru c) = hits c" "misses (cache_evict_lru c) = misses c"
  by (simp_all add: evict_eq split: list.split)

lemma lru_evict [simp]: "lru (cache_evict_lru c) = tl (lru c)"
  by (simp add: evict_eq split: list.split)

lemma wf_empty_total: "cache_wf c \<Longrightarrow> lru c = [] \<Longrightarrow> total_size c = 0"
  by (simp add: cache_wf_def)

text \<open>With room for the new entry in an empty cache the loop returns; it stops at the
  first state that has room.\<close>

lemma evict_loop_returns:
  assumes "cache_wf c" "sz \<le> max_size c"
  shows "\<exists>n. evict_loop sz c = Some ((cache_evict_lru ^^ n) c) \<and> n \<le> length (lru c) \<and>
      total_size ((cache_evict_lru ^^ n) c) + sz \<le> max_size c \<and>
      (\<forall>m<n. max_size c < total_size ((cache_evict_lru ^^ m) c) + sz)"
  using assms
proof (induction "length (lru c)" arbitrary: c)
  case 0
  then have "total_size c + sz \<le> max_size c" by (simp add: wf_empty_total)
  then show ?case
    by (intro exI [of _ 0]) (simp add: evict_loop.simps [of sz c] leD)
next
  case (Suc l)
  show ?case
  proof (cases "max_size c < total_size c + sz")
    case False
    then have "total_size c + sz \<le> max_size c" by simp
    then show ?thesis by (intro exI [of _ 0]) (simp add: evict_loop.simps [of sz c] leD)
  next
    case True
    let ?c = "cache_evict_lru c"
    from Suc.hyps(2) have "l = length (lru ?c)" by simp
    with Suc.hyps(1) [of ?c] Suc.prems obtain n where n:
      "evict_loop sz ?c = Some ((cache_evict_lru ^^ n) ?c)" "n \<le> length (lru ?c)"
      "total_size ((cache_evict_lru ^^ n) ?c) + sz \<le> max_size c"
      "\<forall>m<n. max_size c < total_size ((cache_evict_lru ^^ m) ?c) + sz"
      by (auto simp: wf_evict)
    have step: "(cache_evict_lru ^^ Suc m) c = (cache_evict_lru ^^ m) ?c" for m
      by (simp add: funpow_swap1)
    have "\<forall>m<Suc n. max_size c < total_size ((cache_evict_lru ^^ m) c) + sz"
    proof (intro allI impI)
      fix m assume "m < Suc n"
      with n(4) True show "max_size c < total_size ((cache_evict_lru ^^ m) c) + sz"
        by (cases m) (simp_all add: step del: funpow.simps)
    qed
    moreover have "evict_loop sz c = Some ((cache_evict_lru ^^ Suc n) c)"
      using True n(1) by (simp add: evict_loop.simps [of sz c] step del: funpow.simps)
    ultimately show ?thesis
      using n(2,3) Suc.hyps(2) by (intro exI [of _ "Suc n"]) (simp add: step del: funpow.simps)
  qed
qed

lemma wf_evict_power: "cache_wf c \<Longrightarrow> cache_wf ((cache_evict_lru ^^ n) c)"
  by (induction n) (simp_all add: wf_evict)

lemma evict_power_frame [simp]:
  "max_size ((cache_evict_lru ^^ n) c) = max_size c"
  "num_buckets ((cache_evict_lru ^^ n) c) = num_buckets c"
  by (induction n) simp_all

lemma heap_evict_subset: "heap (cache_evict_lru c) \<subseteq>\<^sub>m heap c"
  by (auto simp: evict_eq map_le_def split: list.split)

lemma heap_evict_power: "heap ((cache_evict_lru ^^ n) c) \<subseteq>\<^sub>m heap c"
  by (induction n) (auto intro: map_le_trans [OF heap_evict_subset])

lemma evict_loop_Some:
  assumes "cache_wf c" "sz \<le> max_size c" "evict_loop sz c = Some c'"
  shows "cache_wf c'" "max_size c' = max_size c" "total_size c' + sz \<le> max_size c"
    and "heap c' \<subseteq>\<^sub>m heap c"
proof -
  from evict_loop_returns [OF assms(1,2)] assms(3) obtain n where
    "c' = (cache_evict_lru ^^ n) c" "total_size c' + sz \<le> max_size c"
    by auto
  then show "cache_wf c'" "max_size c' = max_size c" "total_size c' + sz \<le> max_size c"
    and "heap c' \<subseteq>\<^sub>m heap c"
    using assms(1) by (simp_all add: wf_evict_power heap_evict_power)
qed

subsection \<open>The operations keep the invariant\<close>

lemma lru_touch_simps [simp]:
  "heap (lru_touch a c) = heap c" "buckets (lru_touch a c) = buckets c"
  "lru (lru_touch a c) = remove1 a (lru c) @ [a]" "total_size (lru_touch a c) = total_size c"
  "max_size (lru_touch a c) = max_size c" "num_buckets (lru_touch a c) = num_buckets c"
  "hits (lru_touch a c) = hits c" "misses (lru_touch a c) = misses c"
  "entry (lru_touch a c) = entry c"
  by (auto simp: lru_touch_def entry_def)

lemma sum_touch:
  fixes f :: "addr \<Rightarrow> size_t"
  shows "a \<in> set xs \<Longrightarrow> sum_list (map f (remove1 a xs @ [a])) = sum_list (map f xs)"
  by (simp add: sum_list_remove1)

lemma linked_touch: "linked_ok c \<Longrightarrow> a \<in> dom (heap c) \<Longrightarrow> linked_ok (lru_touch a c)"
  by (auto simp: linked_ok_def)

lemma wf_touch [inv_intros]:
  assumes "cache_wf c" "a \<in> dom (heap c)"
  shows "cache_wf (lru_touch a c)"
proof -
  from assms have "a \<in> set (lru c)" by (simp add: cache_wf_def linked_ok_def)
  then show ?thesis
    using assms linked_touch [of c a] sum_touch [of a "lru c" "\<lambda>x. ce_size (entry c x)"]
    by (simp add: cache_wf_def)
qed

lemma get_step_cases:
  "get_step m now c k =
     (case bucket_find c k of
        Some a \<Rightarrow>
          if expired now (entry c a)
          then (None, (remove_entry a c)\<lparr>misses := wrap32 (misses c + 1)\<rparr>)
          else if \<not> m then (None, lru_touch a c)
          else (Some (take (unat (ce_size (entry c a))) (ce_data (entry c a)), ce_size (entry c a)),
                (lru_touch a c)\<lparr>hits := wrap32 (hits c + 1)\<rparr>)
      | None \<Rightarrow> (None, c\<lparr>misses := wrap32 (misses c + 1)\<rparr>))"
  by (auto simp: get_step_def remove_entry_def unlink_def cache_entry_destroy_def Let_def
      split: option.split)

lemma wf_get [inv_intros]:
  assumes "cache_wf c"
  shows "cache_wf (snd (get_step m now c k))"
proof (cases "bucket_find c k")
  case None
  with assms show ?thesis by (simp add: get_step_cases)
next
  case (Some a)
  with assms have "a \<in> dom (heap c)" by (auto simp: cache_wf_def dest: bucket_find_Some)
  with assms Some show ?thesis by (simp add: get_step_cases wf_remove wf_touch)
qed

lemma put_update_simps [simp]:
  "lru (put_update now c a d sz ttl) = remove1 a (lru c) @ [a]"
  "buckets (put_update now c a d sz ttl) = buckets c"
  "total_size (put_update now c a d sz ttl) = total_size c - ce_size (entry c a) + sz"
  "max_size (put_update now c a d sz ttl) = max_size c"
  "num_buckets (put_update now c a d sz ttl) = num_buckets c"
  "entry (put_update now c a d sz ttl) = (entry c)(a := (entry c a)
      \<lparr>ce_data := take (unat sz) d, ce_size := sz, ce_expiry := new_expiry now ttl\<rparr>)"
  "heap (put_update now c a d sz ttl) = (heap c)(a \<mapsto> (entry c a)
      \<lparr>ce_data := take (unat sz) d, ce_size := sz, ce_expiry := new_expiry now ttl\<rparr>)"
  by (auto simp: put_update_def Let_def entry_def)

lemma dom_upd_in: "a \<in> dom h \<Longrightarrow> dom (h(a \<mapsto> e)) = dom h"
  by auto

lemma wf_put_update:
  assumes "cache_wf c" "a \<in> dom (heap c)" "sz \<noteq> 0" "sz \<le> max_size c div 2" "unat sz \<le> length d"
  shows "cache_wf (put_update now c a d sz ttl)"
proof -
  let ?c = "put_update now c a d sz ttl"
  let ?e = "(entry c a)\<lparr>ce_data := take (unat sz) d, ce_size := sz, ce_expiry := new_expiry now ttl\<rparr>"
  have lru: "distinct (lru c)" "a \<in> set (lru c)"
    using assms(1,2) by (auto simp: cache_wf_def linked_ok_def)
  have keys: "ce_key (entry ?c x) = ce_key (entry c x)" for x by simp
  have dom: "dom (heap ?c) = dom (heap c)"
    unfolding put_update_simps by (rule dom_upd_in [OF assms(2)])
  have "linked_ok ?c"
    using assms(1,2) unfolding linked_ok_def keys dom by (auto simp: cache_wf_def linked_ok_def)
  moreover have "inj_on (\<lambda>x. ce_key (entry ?c x)) (dom (heap ?c))"
    using assms(1) unfolding keys dom by (simp add: cache_wf_def)
  moreover have "total_size ?c = sum_list (map (\<lambda>x. ce_size (entry ?c x)) (lru ?c))"
  proof -
    let ?f = "\<lambda>x. ce_size (entry c x)"
    have f: "(\<lambda>x. ce_size (entry ?c x)) = ?f(a := sz)" by auto
    have "sum_list (map (?f(a := sz)) (remove1 a (lru c) @ [a])) = sum_list (map (?f(a := sz)) (lru c))"
      by (rule sum_touch [OF lru(2)])
    also have "\<dots> = sum_list (map ?f (lru c)) - ?f a + sz"
      by (rule sum_list_fun_upd_in [OF lru])
    finally show ?thesis
      using assms(1) unfolding f by (simp add: cache_wf_def del: fun_upd_apply)
  qed
  moreover have "entry_ok (max_size c) (entry ?c x)" if "x \<in> dom (heap c)" for x
    using that assms by (auto simp: cache_wf_def entry_ok_def)
  ultimately show ?thesis
    using assms(1) unfolding cache_wf_def dom by simp
qed

lemma put_insert_simps [simp]:
  "lru (put_insert now c a k d sz ttl) = lru c @ [a]"
  "buckets (put_insert now c a k d sz ttl) =
     (buckets c)(hash_key k (num_buckets c) := a # buckets c (hash_key k (num_buckets c)))"
  "total_size (put_insert now c a k d sz ttl) = total_size c + sz"
  "max_size (put_insert now c a k d sz ttl) = max_size c"
  "num_buckets (put_insert now c a k d sz ttl) = num_buckets c"
  "heap (put_insert now c a k d sz ttl) = (heap c)(a \<mapsto> \<lparr>ce_key = k,
      ce_data = take (unat sz) d, ce_size = sz, ce_expiry = new_expiry now ttl\<rparr>)"
  "entry (put_insert now c a k d sz ttl) = (entry c)(a := \<lparr>ce_key = k,
      ce_data = take (unat sz) d, ce_size = sz, ce_expiry = new_expiry now ttl\<rparr>)"
  by (auto simp: put_insert_def Let_def entry_def)

lemma wf_put_insert:
  assumes "cache_wf c" "heap c a = None" "\<forall>x\<in>dom (heap c). ce_key (entry c x) \<noteq> k"
    and "sz \<noteq> 0" "sz \<le> max_size c div 2" "unat sz \<le> length d"
  shows "cache_wf (put_insert now c a k d sz ttl)"
proof -
  let ?c = "put_insert now c a k d sz ttl"
  have fresh: "a \<notin> dom (heap c)" "a \<notin> set (lru c)" "\<And>b. a \<notin> set (buckets c b)"
    using assms(1,2) by (auto simp: cache_wf_def linked_ok_def)
  have "linked_ok ?c"
    using assms(1) fresh by (auto simp: linked_ok_def cache_wf_def)
  moreover have "inj_on (\<lambda>x. ce_key (entry ?c x)) (dom (heap ?c))"
    using assms(1,3) fresh(1) by (auto simp: cache_wf_def inj_on_def)
  moreover have "map (\<lambda>x. ce_size (entry ?c x)) (lru c) = map (\<lambda>x. ce_size (entry c x)) (lru c)"
    using fresh(2) by auto
  then have "sum_list (map (\<lambda>x. ce_size (entry ?c x)) (lru ?c)) = total_size c + sz"
    using assms(1) unfolding put_insert_simps(1) map_append sum_list.append
    by (simp only:) (simp add: cache_wf_def)
  moreover have "entry_ok (max_size c) (entry ?c x)" if "x \<in> dom (heap ?c)" for x
    using that assms by (auto simp: cache_wf_def entry_ok_def)
  ultimately show ?thesis
    using assms(1) unfolding cache_wf_def by simp
qed

text \<open>What the allocator promises: the address of a new entry is not in use.\<close>

definition fresh_in :: "put_allocs \<Rightarrow> cache_t \<Rightarrow> bool" where
  "fresh_in al c \<longleftrightarrow> (\<forall>a. al_entry al = Some a \<longrightarrow> heap c a = None)"

lemma half_le: "sz \<le> mx div 2 \<Longrightarrow> sz \<le> (mx::size_t)"
  by (metis div_le_dividend order_trans word_le_nat_alt unat_div_distrib)

lemma put_step_returns:
  assumes "cache_wf c"
  shows "\<exists>r c'. put_step al now c k d sz ttl = Some (r, c')"
proof (cases "max_size c div 2 < sz \<or> bucket_find c k \<noteq> None")
  case True
  then show ?thesis by (auto simp: put_step_def)
next
  case False
  then have "sz \<le> max_size c" by (simp add: half_le not_less)
  from evict_loop_returns [OF assms this] False show ?thesis
    by (auto simp: put_step_def split: option.split)
qed

lemma put_step_cases:
  assumes "cache_wf c" "fresh_in al c" "put_step al now c k d sz ttl = Some (r, c')"
  obtains (too_big) "max_size c div 2 < sz" "r = -1" "c' = c"
  | (update_fails) a where "sz \<le> max_size c div 2" "bucket_find c k = Some a" "r = -1" "c' = c"
      "\<not> al_update al"
  | (update) a where "sz \<le> max_size c div 2" "bucket_find c k = Some a" "r = 0"
      "c' = put_update now c a d sz ttl" "a \<in> dom (heap c)" "ce_key (entry c a) = k" "al_update al"
  | (insert_fails) "sz \<le> max_size c div 2" "bucket_find c k = None" "r = -1"
      "evict_loop sz c = Some c'" "\<not> (\<exists>a. al_entry al = Some a \<and> al_key al \<and> al_data al)"
  | (insert) a c1 where "sz \<le> max_size c div 2" "bucket_find c k = None" "r = 0"
      "evict_loop sz c = Some c1" "c' = put_insert now c1 a k d sz ttl" "heap c1 a = None"
      "\<forall>x\<in>dom (heap c1). ce_key (entry c1 x) \<noteq> k" "cache_wf c1" "max_size c1 = max_size c"
proof (cases "max_size c div 2 < sz")
  case True
  with assms(3) show thesis by (intro too_big) (auto simp: put_step_def)
next
  case False
  then have small: "sz \<le> max_size c div 2" by simp
  show thesis
  proof (cases "bucket_find c k")
    case (Some a)
    with assms(1) have "a \<in> dom (heap c)" "ce_key (entry c a) = k"
      by (auto simp: cache_wf_def dest: bucket_find_Some)
    with False small Some assms(3) show thesis
      by (cases "al_update al") (auto simp: put_step_def intro: update_fails update)
  next
    case None
    from assms(3) None False obtain c1 where c1: "evict_loop sz c = Some c1"
      by (auto simp: put_step_def split: option.splits)
    note e = evict_loop_Some [OF assms(1) half_le [OF small] c1]
    have keys: "\<forall>x\<in>dom (heap c1). ce_key (entry c1 x) \<noteq> k"
    proof
      fix x assume x: "x \<in> dom (heap c1)"
      with e(4) have "heap c x = heap c1 x" by (auto simp: map_le_def)
      with x have "x \<in> dom (heap c)" "entry c1 x = entry c x" by (auto simp: entry_def)
      with None show "ce_key (entry c1 x) \<noteq> k"
        by (simp add: bucket_find_None [OF assms(1)])
    qed
    show thesis
    proof (cases "\<exists>a. al_entry al = Some a \<and> al_key al \<and> al_data al")
      case True
      then obtain a where a: "al_entry al = Some a" "al_key al" "al_data al" by blast
      with assms(2) have "heap c a = None" by (simp add: fresh_in_def)
      with e(4) have "heap c1 a = None" by (metis domIff map_le_implies_dom_le subsetD)
      with a c1 None False small keys e(1,2) assms(3) show thesis
        by (intro insert [of c1 a]) (auto simp: put_step_def)
    next
      case nospace: False
      with c1 None False small assms(3) show thesis
        by (intro insert_fails) (auto simp: put_step_def split: option.splits if_splits)
    qed
  qed
qed

lemma wf_put [inv_intros]:
  assumes "cache_wf c" "fresh_in al c" "sz \<noteq> 0" "unat sz \<le> length d"
    and "put_step al now c k d sz ttl = Some (r, c')"
  shows "cache_wf c'"
  using assms(1,2,5)
proof (cases rule: put_step_cases)
  case (update a)
  with assms show ?thesis by (simp add: wf_put_update)
next
  case insert_fails
  with assms(1) show ?thesis by (metis evict_loop_Some(1) half_le)
next
  case (insert a c1)
  with assms show ?thesis by (simp add: wf_put_insert)
qed (use assms in simp_all)

lemma wf_init: "cache_init m1 m2 mb = (r, Some c) \<Longrightarrow> cache_wf c"
  by (auto simp: cache_init_def cache_wf_def linked_ok_def split: if_splits)

lemma destroy_all_heap: "heap (destroy_all as c) = (heap c) |` (- set as)"
proof (induction as arbitrary: c)
  case Nil
  then show ?case by simp
next
  case (Cons a as)
  then show ?case
    by (auto simp: cache_entry_destroy_def restrict_map_def fun_eq_iff)
qed

lemma cleanup_frees_all: "cache_wf c \<Longrightarrow> cache_cleanup (Some c) = (Map.empty, None)"
  by (auto simp: cache_cleanup_def destroy_all_heap cache_wf_def linked_ok_def restrict_map_def fun_eq_iff)

end
