(* ===== verification/Interfaces.thy ===== *)
theory Interfaces
  imports Prelude
begin

text \<open>
  The contracts between the components, as locales: what a client relies on, and the
  client's lemmas proved once from it.  Each is interpreted on the model's definitions in
  the theory of the component that provides it.
\<close>

subsection \<open>A key-value cache\<close>

text \<open>What an HTTP handler sees of the cache: lookups that hit or miss, and stores that
  are accepted or refused.\<close>

datatype ('k, 'v) cache_event = Served 'k 'v | Missed 'k | Stored 'k 'v | Refused 'k

inductive cache_trace ::
  "('t \<Rightarrow> 'c \<Rightarrow> 'k \<Rightarrow> 'v option \<times> 'c) \<Rightarrow> ('e \<Rightarrow> 'c \<Rightarrow> 'k \<Rightarrow> 'v \<Rightarrow> (bool \<times> 'c) option)
     \<Rightarrow> ('e \<Rightarrow> 'c \<Rightarrow> 'v \<Rightarrow> bool) \<Rightarrow> 'c \<Rightarrow> ('k, 'v) cache_event list \<Rightarrow> 'c \<Rightarrow> bool"
  for get put ok where
  nothing: "cache_trace get put ok c [] c"
| hit: "get t c k = (Some v, c1) \<Longrightarrow> cache_trace get put ok c1 es c2
    \<Longrightarrow> cache_trace get put ok c (Served k v # es) c2"
| miss: "get t c k = (None, c1) \<Longrightarrow> cache_trace get put ok c1 es c2
    \<Longrightarrow> cache_trace get put ok c (Missed k # es) c2"
| store: "ok e c v \<Longrightarrow> put e c k v = Some (True, c1) \<Longrightarrow> cache_trace get put ok c1 es c2
    \<Longrightarrow> cache_trace get put ok c (Stored k v # es) c2"
| refuse: "ok e c v \<Longrightarrow> put e c k v = Some (False, c1) \<Longrightarrow> cache_trace get put ok c1 es c2
    \<Longrightarrow> cache_trace get put ok c (Refused k # es) c2"

inductive_cases cache_trace_NilE: "cache_trace get put ok c [] c2"
inductive_cases cache_trace_ConsE: "cache_trace get put ok c (e # es) c2"

text \<open>A history is faithful to \<open>m\<close>, the values stored so far, when each value served is
  the one stored last under its key.\<close>

fun faithful :: "('k \<rightharpoonup> 'v) \<Rightarrow> ('k, 'v) cache_event list \<Rightarrow> bool" where
  "faithful m [] = True"
| "faithful m (Served k v # es) = (m k = Some v \<and> faithful m es)"
| "faithful m (Missed k # es) = faithful m es"
| "faithful m (Stored k v # es) = faithful (m(k \<mapsto> v)) es"
| "faithful m (Refused k # es) = faithful m es"

locale kv_cache =
  fixes get :: "'t \<Rightarrow> 'c \<Rightarrow> 'k \<Rightarrow> 'v option \<times> 'c"
    and put :: "'e \<Rightarrow> 'c \<Rightarrow> 'k \<Rightarrow> 'v \<Rightarrow> (bool \<times> 'c) option"
    and stored :: "'c \<Rightarrow> 'k \<rightharpoonup> 'v"
    and invar :: "'c \<Rightarrow> bool"
    and put_ok :: "'e \<Rightarrow> 'c \<Rightarrow> 'v \<Rightarrow> bool"
  assumes get_invar: "invar c \<Longrightarrow> invar (snd (get t c k))"
    and get_stored: "invar c \<Longrightarrow> fst (get t c k) = Some v \<Longrightarrow> stored c k = Some v"
    and get_keeps: "invar c \<Longrightarrow> stored (snd (get t c k)) \<subseteq>\<^sub>m stored c"
    and put_returns: "invar c \<Longrightarrow> put_ok e c v \<Longrightarrow> \<exists>r. put e c k v = Some r"
    and put_invar: "invar c \<Longrightarrow> put_ok e c v \<Longrightarrow> put e c k v = Some (b, c') \<Longrightarrow> invar c'"
    and put_stored: "invar c \<Longrightarrow> put_ok e c v \<Longrightarrow> put e c k v = Some (True, c') \<Longrightarrow>
      stored c' k = Some v \<and> stored c' \<subseteq>\<^sub>m (stored c)(k \<mapsto> v)"
    and put_refused: "invar c \<Longrightarrow> put_ok e c v \<Longrightarrow> put e c k v = Some (False, c') \<Longrightarrow>
      stored c' \<subseteq>\<^sub>m stored c"
begin

lemma get_after_put:
  assumes "invar c" "put_ok e c v" "put e c k v = Some (True, c')"
  shows "fst (get t c' k) = None \<or> fst (get t c' k) = Some v"
proof (cases "fst (get t c' k)")
  case (Some w)
  have "stored c' k = Some w" using put_invar [OF assms] Some by (rule get_stored)
  with put_stored [OF assms] Some show ?thesis by simp
qed simp

lemma trace_faithful:
  "cache_trace get put put_ok c es c' \<Longrightarrow> invar c \<Longrightarrow> stored c \<subseteq>\<^sub>m m \<Longrightarrow> faithful m es \<and> invar c'"
proof (induction arbitrary: m rule: cache_trace.induct)
  case (nothing c)
  then show ?case by simp
next
  case (hit t c k v c1 es c2)
  have "stored c k = Some v" using hit.prems(1) hit.hyps(1) by (intro get_stored [of c t]) simp_all
  then have "m k = Some v" using hit.prems(2) by (auto simp: map_le_def dom_def)
  moreover have "invar c1" "stored c1 \<subseteq>\<^sub>m m"
    using hit.hyps(1) get_invar [OF hit.prems(1), of t k] get_keeps [OF hit.prems(1), of t k]
      map_le_trans [OF _ hit.prems(2)] by simp_all
  ultimately show ?case using hit.IH by simp
next
  case (miss t c k c1 es c2)
  have "invar c1" "stored c1 \<subseteq>\<^sub>m m"
    using miss.hyps(1) get_invar [OF miss.prems(1), of t k] get_keeps [OF miss.prems(1), of t k]
      map_le_trans [OF _ miss.prems(2)] by simp_all
  then show ?case using miss.IH by simp
next
  case (store e c v k c1 es c2)
  have "invar c1" by (rule put_invar [OF store.prems(1) store.hyps(1,2)])
  moreover have "(stored c)(k \<mapsto> v) \<subseteq>\<^sub>m m(k \<mapsto> v)"
    using store.prems(2) by (auto simp: map_le_def)
  then have "stored c1 \<subseteq>\<^sub>m m(k \<mapsto> v)"
    using put_stored [OF store.prems(1) store.hyps(1,2)] map_le_trans by blast
  ultimately show ?case using store.IH by simp
next
  case (refuse e c v k c1 es c2)
  have "invar c1" by (rule put_invar [OF refuse.prems(1) refuse.hyps(1,2)])
  moreover have "stored c1 \<subseteq>\<^sub>m m"
    using put_refused [OF refuse.prems(1) refuse.hyps(1,2)] refuse.prems(2) by (rule map_le_trans)
  ultimately show ?case using refuse.IH by simp
qed

end

text \<open>A cache that also promises which entries it gives up: \<open>order\<close> lists the keys held,
  the first to go first; a use moves a key to the end, and making room never empties a cache
  that held something.\<close>

locale lru_cache = kv_cache get put stored invar put_ok
  for get :: "'t \<Rightarrow> 'c \<Rightarrow> 'k \<Rightarrow> 'v option \<times> 'c"
    and put :: "'e \<Rightarrow> 'c \<Rightarrow> 'k \<Rightarrow> 'v \<Rightarrow> (bool \<times> 'c) option"
    and stored invar put_ok +
  fixes order :: "'c \<Rightarrow> 'k list"
  assumes order_stored: "invar c \<Longrightarrow> set (order c) = dom (stored c)"
    and order_hit: "invar c \<Longrightarrow> fst (get t c k) = Some v \<Longrightarrow>
      order (snd (get t c k)) = remove1 k (order c) @ [k]"
    and order_replace: "invar c \<Longrightarrow> put_ok e c v \<Longrightarrow> put e c k v = Some (True, c') \<Longrightarrow>
      k \<in> set (order c) \<Longrightarrow> order c' = remove1 k (order c) @ [k]"
    and order_insert: "invar c \<Longrightarrow> put_ok e c v \<Longrightarrow> put e c k v = Some (True, c') \<Longrightarrow>
      k \<notin> set (order c) \<Longrightarrow> \<exists>n. order c' = drop n (order c) @ [k] \<and> (order c \<noteq> [] \<longrightarrow> n < length (order c))"
begin

lemma last_used_kept:
  assumes "invar c" "order c = ks @ [k]" "put_ok e c w" "put e c j w = Some (True, c')"
  shows "k \<in> set (order c')"
proof (cases "j \<in> set (order c)")
  case True
  with order_replace [OF assms(1,3,4)] assms(2) show ?thesis by (cases "k = j") auto
next
  case False
  then obtain n where n: "order c' = drop n (order c) @ [j]" "order c \<noteq> [] \<longrightarrow> n < length (order c)"
    using order_insert [OF assms(1,3,4)] by blast
  then have "n \<le> length ks" using assms(2) by simp
  with n(1) assms(2) show ?thesis by simp
qed

lemma hit_survives:
  assumes "invar c" "fst (get t c k) = Some v" "c1 = snd (get t c k)"
    and "put_ok e c1 w" "put e c1 j w = Some (True, c2)"
  shows "stored c2 k = Some (if j = k then w else v)"
proof -
  have inv: "invar c1" using get_invar [OF assms(1)] by (simp add: assms(3))
  have "k \<in> set (order c2)"
    using last_used_kept [OF inv _ assms(4,5)] order_hit [OF assms(1,2)] by (simp add: assms(3))
  then obtain x where x: "stored c2 k = Some x"
    using order_stored [OF put_invar [OF inv assms(4,5)]] by auto
  note put = put_stored [OF inv assms(4,5)]
  show ?thesis
  proof (cases "j = k")
    case True
    with put show ?thesis by simp
  next
    case False
    with put x have "stored c1 k = Some x" by (auto simp: map_le_def dom_def)
    then have "stored c k = Some x"
      using get_keeps [OF assms(1), of t k] by (auto simp: assms(3) map_le_def dom_def)
    with get_stored [OF assms(1,2)] x False show ?thesis by simp
  qed
qed

end

subsection \<open>A store of accounts\<close>

text \<open>What the request handlers rely on when they ask for a name and a password: an account
  is admitted exactly when it was enrolled.  \<open>ok\<close> are the accounts that the store can hold,
  \<open>asked\<close> the queries it can be asked, and an enrolment depends on the memory \<open>e\<close> it is
  given.\<close>

locale account_store =
  fixes enroll :: "'e \<Rightarrow> 'a \<Rightarrow> 's \<Rightarrow> 's"
    and admits :: "'s \<Rightarrow> 'a \<Rightarrow> bool"
    and ok :: "'a \<Rightarrow> bool"
    and asked :: "'a \<Rightarrow> bool"
    and invar :: "'s \<Rightarrow> bool"
  assumes enroll_invar: "invar s \<Longrightarrow> ok a \<Longrightarrow> invar (enroll e a s)"
    and enroll_admits: "invar s \<Longrightarrow> ok a \<Longrightarrow> asked b \<Longrightarrow> admits (enroll e a s) b \<longleftrightarrow> b = a \<or> admits s b"
begin

fun enroll_all :: "'e list \<Rightarrow> 'a list \<Rightarrow> 's \<Rightarrow> 's" where
  "enroll_all (e # es) (a # as) s = enroll_all es as (enroll e a s)"
| "enroll_all _ _ s = s"

lemma enroll_all_admits:
  "length es = length as \<Longrightarrow> invar s \<Longrightarrow> list_all ok as \<Longrightarrow> asked b \<Longrightarrow>
     invar (enroll_all es as s) \<and> (admits (enroll_all es as s) b \<longleftrightarrow> b \<in> set as \<or> admits s b)"
  by (induction es as s rule: enroll_all.induct) (auto simp: enroll_invar enroll_admits)

end

subsection \<open>A pool whose members are leased\<close>

text \<open>Clients lease a member and give it back; \<open>in_use\<close> is the count that the pool keeps of
  each member.\<close>

datatype 'r lease_event = Leased 'r | Turned_away | Returned 'r

inductive lease_trace ::
  "('e \<Rightarrow> 's \<Rightarrow> ('r option \<times> 's) option) \<Rightarrow> ('r \<Rightarrow> 's \<Rightarrow> 's) \<Rightarrow> 's \<Rightarrow> 'r lease_event list \<Rightarrow> 's \<Rightarrow> bool"
  for acquire release where
  idle: "lease_trace acquire release s [] s"
| leased: "acquire e s = Some (Some r, s1) \<Longrightarrow> lease_trace acquire release s1 es s2
    \<Longrightarrow> lease_trace acquire release s (Leased r # es) s2"
| turned_away: "acquire e s = Some (None, s1) \<Longrightarrow> lease_trace acquire release s1 es s2
    \<Longrightarrow> lease_trace acquire release s (Turned_away # es) s2"
| returned: "lease_trace acquire release (release r s) es s2
    \<Longrightarrow> lease_trace acquire release s (Returned r # es) s2"

text \<open>The leases outstanding after a history; \<^const>\<open>None\<close> when a client returns what nobody
  holds.\<close>

fun outstanding :: "'r lease_event list \<Rightarrow> ('r \<Rightarrow> nat) \<Rightarrow> ('r \<Rightarrow> nat) option" where
  "outstanding [] h = Some h"
| "outstanding (Leased r # es) h = outstanding es (h(r := Suc (h r)))"
| "outstanding (Turned_away # es) h = outstanding es h"
| "outstanding (Returned r # es) h = (if h r = 0 then None else outstanding es (h(r := h r - 1)))"

locale lease_pool =
  fixes acquire :: "'e \<Rightarrow> 's \<Rightarrow> ('r option \<times> 's) option"
    and release :: "'r \<Rightarrow> 's \<Rightarrow> 's"
    and in_use :: "'s \<Rightarrow> 'r \<Rightarrow> int"
    and invar :: "'s \<Rightarrow> bool"
    and cap :: int
  assumes acquire_invar: "invar s \<Longrightarrow> acquire e s = Some (x, s') \<Longrightarrow> invar s'"
    and release_invar: "invar s \<Longrightarrow> invar (release r s)"
    and acquire_some: "invar s \<Longrightarrow> acquire e s = Some (Some r, s') \<Longrightarrow> in_use s r < cap \<Longrightarrow>
      in_use s' = (in_use s)(r := in_use s r + 1)"
    and acquire_none: "invar s \<Longrightarrow> acquire e s = Some (None, s') \<Longrightarrow> in_use s' = in_use s"
    and release_some: "invar s \<Longrightarrow> 0 < in_use s r \<Longrightarrow> in_use (release r s) = (in_use s)(r := in_use s r - 1)"
begin

lemma lease_accounting:
  "lease_trace acquire release s es s' \<Longrightarrow> invar s \<Longrightarrow> in_use s = (\<lambda>r. int (h r)) \<Longrightarrow>
     outstanding es h = Some h' \<Longrightarrow> \<forall>r. int (h r + length es) \<le> cap \<Longrightarrow>
     invar s' \<and> in_use s' = (\<lambda>r. int (h' r))"
proof (induction arbitrary: h rule: lease_trace.induct)
  case (idle s)
  then show ?case by simp
next
  case (leased e s r s1 es s2)
  from leased.prems(4) have lt: "int (h r) < cap" by (auto dest: spec [of _ r])
  have use: "in_use s1 = (\<lambda>q. int ((h(r := Suc (h r))) q))"
    using acquire_some [OF leased.prems(1) leased.hyps(1)] lt leased.prems(2) by auto
  have bound: "\<forall>q. int ((h(r := Suc (h r))) q + length es) \<le> cap"
  proof
    fix q
    show "int ((h(r := Suc (h r))) q + length es) \<le> cap"
      using spec [OF leased.prems(4), of q] by auto
  qed
  show ?case
    by (rule leased.IH [of "h(r := Suc (h r))", OF acquire_invar [OF leased.prems(1) leased.hyps(1)] use _ bound])
      (use leased.prems(3) in \<open>simp add: fun_upd_def\<close>)
next
  case (turned_away e s s1 es s2)
  have "\<forall>q. int (h q + length es) \<le> cap"
  proof
    fix q
    show "int (h q + length es) \<le> cap" using spec [OF turned_away.prems(4), of q] by auto
  qed
  then show ?case
    using turned_away.IH [of h] turned_away.prems turned_away.hyps acquire_none acquire_invar by simp
next
  case (returned r s es s2)
  from returned.prems(3) have pos: "0 < h r" by (auto split: if_splits)
  then have use: "in_use (release r s) = (\<lambda>q. int ((h(r := h r - 1)) q))"
    using release_some [OF returned.prems(1), of r] returned.prems(2) by auto
  have bound: "\<forall>q. int ((h(r := h r - 1)) q + length es) \<le> cap"
  proof
    fix q
    show "int ((h(r := h r - 1)) q + length es) \<le> cap"
      using spec [OF returned.prems(4), of q] by auto
  qed
  show ?case
    by (rule returned.IH [of "h(r := h r - 1)", OF release_invar [OF returned.prems(1)] use _ bound])
      (use returned.prems(3) pos in \<open>simp add: fun_upd_def\<close>)
qed

end

subsection \<open>A first-in first-out queue\<close>

datatype 'a queue_event = Put 'a | Got 'a

text \<open>A history of insertions and removals; \<open>ok e q\<close> says that the memory \<open>e\<close> can be used for
  an insertion into \<open>q\<close>, and \<open>tidy\<close> are the changes the owner may make to memory that is not
  in the queue.\<close>

inductive queue_trace ::
  "('e \<Rightarrow> 'a \<Rightarrow> 'q \<Rightarrow> 'q) \<Rightarrow> ('q \<Rightarrow> ('a \<times> 'q) option) \<Rightarrow> ('e \<Rightarrow> 'q \<Rightarrow> bool) \<Rightarrow> ('q \<Rightarrow> 'q \<Rightarrow> bool)
     \<Rightarrow> 'q \<Rightarrow> 'a queue_event list \<Rightarrow> 'q \<Rightarrow> bool"
  for enq deq ok tidy where
  start: "queue_trace enq deq ok tidy q [] q"
| tidied: "queue_trace enq deq ok tidy q es q1 \<Longrightarrow> tidy q1 q2 \<Longrightarrow> queue_trace enq deq ok tidy q es q2"
| put: "queue_trace enq deq ok tidy q es q1 \<Longrightarrow> ok e q1 \<Longrightarrow> queue_trace enq deq ok tidy q (es @ [Put a]) (enq e a q1)"
| got: "queue_trace enq deq ok tidy q es q1 \<Longrightarrow> deq q1 = Some (a, q2) \<Longrightarrow> queue_trace enq deq ok tidy q (es @ [Got a]) q2"

definition puts :: "'a queue_event list \<Rightarrow> 'a list" where
  "puts es = concat (map (\<lambda>e. case e of Put a \<Rightarrow> [a] | Got a \<Rightarrow> []) es)"

definition gots :: "'a queue_event list \<Rightarrow> 'a list" where
  "gots es = concat (map (\<lambda>e. case e of Put a \<Rightarrow> [] | Got a \<Rightarrow> [a]) es)"

lemma puts_gots_simps [simp]:
  "puts [] = []" "puts (es @ [Put a]) = puts es @ [a]" "puts (es @ [Got a]) = puts es"
  "gots [] = []" "gots (es @ [Put a]) = gots es" "gots (es @ [Got a]) = gots es @ [a]"
  by (simp_all add: puts_def gots_def)

locale fifo_queue =
  fixes enq :: "'e \<Rightarrow> 'a \<Rightarrow> 'q \<Rightarrow> 'q"
    and deq :: "'q \<Rightarrow> ('a \<times> 'q) option"
    and ok :: "'e \<Rightarrow> 'q \<Rightarrow> bool"
    and tidy :: "'q \<Rightarrow> 'q \<Rightarrow> bool"
    and items :: "'q \<Rightarrow> 'a list"
    and invar :: "'q \<Rightarrow> bool"
  assumes enq_invar: "invar q \<Longrightarrow> ok e q \<Longrightarrow> invar (enq e a q)"
    and enq_items: "invar q \<Longrightarrow> ok e q \<Longrightarrow> items (enq e a q) = items q @ [a]"
    and tidy_same: "invar q \<Longrightarrow> tidy q q' \<Longrightarrow> invar q' \<and> items q' = items q"
    and deq_none: "invar q \<Longrightarrow> deq q = None \<longleftrightarrow> items q = []"
    and deq_some: "invar q \<Longrightarrow> deq q = Some (a, q') \<Longrightarrow> invar q' \<and> items q = a # items q'"
begin

lemma fifo:
  "queue_trace enq deq ok tidy q es q' \<Longrightarrow> invar q \<Longrightarrow> invar q' \<and> items q @ puts es = gots es @ items q'"
proof (induction rule: queue_trace.induct)
  case (start q)
  then show ?case by simp
next
  case (tidied q es q1 q2)
  then show ?case using tidy_same [of q1 q2] by simp
next
  case (put q es q1 e a)
  then show ?case using enq_items [of q1 e a] enq_invar [of q1 e a] by simp
next
  case (got q es q1 a q2)
  then show ?case using deq_some [of q1 a q2] by simp
qed

lemma never_refused:
  assumes "queue_trace enq deq ok tidy q es q'" "invar q" "items q = []" "deq q' = None"
  shows "puts es = gots es"
  using fifo [OF assms(1,2)] assms(3,4) deq_none [of q'] by simp

end

end
