(* ===== verification/Cache_LRU.thy ===== *)
theory Cache_LRU
  imports Cache Interfaces
begin

text \<open>
  What the cache promises, without pointers: a list of (key, data, expiry) items, least
  recently used first.  \<open>cache_abs\<close> reads that list off the heap, and the refinement
  lemmas show that \<open>get_step\<close> and \<open>put_step\<close> compute the list operations below on it.
\<close>

type_synonym item = "string \<times> u8 list \<times> time_t"

definition abs_entry :: "cache_entry \<Rightarrow> item" where
  "abs_entry e = (ce_key e, ce_data e, ce_expiry e)"

definition cache_abs :: "cache_t \<Rightarrow> item list" where
  "cache_abs c = map (\<lambda>a. abs_entry (entry c a)) (lru c)"

subsection \<open>The abstract cache\<close>

definition spec_lookup :: "string \<Rightarrow> item list \<Rightarrow> item option" where
  "spec_lookup k xs = find (\<lambda>i. fst i = k) xs"

definition spec_remove :: "string \<Rightarrow> item list \<Rightarrow> item list" where
  "spec_remove k xs = filter (\<lambda>i. fst i \<noteq> k) xs"

definition spec_used :: "item list \<Rightarrow> size_t" where
  "spec_used xs = sum_list (map (\<lambda>i. of_nat (length (fst (snd i)))) xs)"

fun spec_evict :: "size_t \<Rightarrow> size_t \<Rightarrow> item list \<Rightarrow> item list" where
  "spec_evict mx sz [] = []"
| "spec_evict mx sz (i # is) =
     (if mx < spec_used (i # is) + sz then spec_evict mx sz is else i # is)"

definition spec_get :: "time_t \<Rightarrow> string \<Rightarrow> item list \<Rightarrow> u8 list option \<times> item list" where
  "spec_get now k xs =
     (case spec_lookup k xs of
        None \<Rightarrow> (None, xs)
      | Some (k', d, x) \<Rightarrow>
          if 0 < x \<and> x < now then (None, spec_remove k xs)
          else (Some d, spec_remove k xs @ [(k', d, x)]))"

definition spec_put ::
  "size_t \<Rightarrow> time_t \<Rightarrow> string \<Rightarrow> u8 list \<Rightarrow> c_int \<Rightarrow> item list \<Rightarrow> c_int \<times> item list" where
  "spec_put mx now k d ttl xs =
     (let sz = of_nat (length d); i = (k, d, new_expiry now ttl)
      in if mx div 2 < sz then (-1, xs)
         else if spec_lookup k xs \<noteq> None then (0, spec_remove k xs @ [i])
         else (0, spec_evict mx sz xs @ [i]))"

subsection \<open>The abstraction function\<close>

lemma abs_entry_key [simp]: "fst (abs_entry e) = ce_key e"
  by (simp add: abs_entry_def)

lemma cache_abs_frame [simp]:
  "cache_abs (c\<lparr>hits := h\<rparr>) = cache_abs c" "cache_abs (c\<lparr>misses := h\<rparr>) = cache_abs c"
  by (simp_all add: cache_abs_def)

lemma wf_lru: "cache_wf c \<Longrightarrow> distinct (lru c) \<and> set (lru c) = dom (heap c)"
  by (simp add: cache_wf_def linked_ok_def)

lemma wf_key_inj:
  "cache_wf c \<Longrightarrow> a \<in> dom (heap c) \<Longrightarrow> b \<in> dom (heap c) \<Longrightarrow>
     ce_key (entry c a) = ce_key (entry c b) \<longleftrightarrow> a = b"
  by (auto simp: cache_wf_def dest: inj_onD)

lemma abs_lookup:
  assumes "cache_wf c"
  shows "spec_lookup k (cache_abs c) = map_option (\<lambda>a. abs_entry (entry c a)) (bucket_find c k)"
proof (cases "bucket_find c k")
  case None
  with assms have "spec_lookup k (cache_abs c) = None"
    by (auto simp: spec_lookup_def cache_abs_def find_None_all bucket_find_None [OF assms] wf_lru)
  with None show ?thesis by simp
next
  case (Some a)
  then have a: "a \<in> dom (heap c)" "ce_key (entry c a) = k"
    using assms by (auto simp: cache_wf_def dest: bucket_find_Some)
  have "spec_lookup k (cache_abs c) = Some (abs_entry (entry c a))"
    unfolding spec_lookup_def
  proof (rule find_unique)
    show "abs_entry (entry c a) \<in> set (cache_abs c)"
      using a assms by (simp add: cache_abs_def wf_lru)
    fix i assume "i \<in> set (cache_abs c)" "fst i = k"
    then show "i = abs_entry (entry c a)"
      using a assms by (auto simp: cache_abs_def wf_lru) (metis domI wf_key_inj)
  qed (simp add: a)
  with Some show ?thesis by simp
qed

lemma abs_remove:
  assumes "cache_wf c" "a \<in> dom (heap c)"
  shows "map (\<lambda>x. abs_entry (entry c x)) (remove1 a (lru c)) = spec_remove (ce_key (entry c a)) (cache_abs c)"
proof -
  have "x = a \<longleftrightarrow> ce_key (entry c x) = ce_key (entry c a)" if "x \<in> set (lru c)" for x
    using that assms wf_lru [OF assms(1)] wf_key_inj [OF assms(1)] by blast
  then have "filter (\<lambda>x. a \<noteq> x) (lru c) =
      filter (\<lambda>x. ce_key (entry c x) \<noteq> ce_key (entry c a)) (lru c)"
    by (intro filter_cong refl) metis
  then have "remove1 a (lru c) = filter (\<lambda>x. ce_key (entry c x) \<noteq> ce_key (entry c a)) (lru c)"
    using wf_lru [OF assms(1)] by (simp add: distinct_remove1_removeAll removeAll_filter_not_eq)
  then show ?thesis by (simp add: spec_remove_def cache_abs_def filter_map o_def)
qed

lemma abs_remove_entry:
  assumes "cache_wf c" "a \<in> dom (heap c)"
  shows "cache_abs (remove_entry a c) = spec_remove (ce_key (entry c a)) (cache_abs c)"
proof -
  have "map (\<lambda>x. abs_entry (entry (remove_entry a c) x)) (remove1 a (lru c))
      = map (\<lambda>x. abs_entry (entry c x)) (remove1 a (lru c))"
    using wf_lru [OF assms(1)] by (intro map_cong) auto
  with abs_remove [OF assms] show ?thesis by (simp add: cache_abs_def)
qed

lemma abs_touch:
  assumes "cache_wf c" "a \<in> dom (heap c)"
  shows "cache_abs (lru_touch a c) =
    spec_remove (ce_key (entry c a)) (cache_abs c) @ [abs_entry (entry c a)]"
  using abs_remove [OF assms] by (simp add: cache_abs_def)

lemma abs_used:
  assumes "cache_wf c"
  shows "spec_used (cache_abs c) = total_size c"
proof -
  have "map (\<lambda>a. of_nat (length (ce_data (entry c a)))) (lru c) = map (\<lambda>a. ce_size (entry c a)) (lru c)"
    using assms wf_lru [OF assms] by (auto simp: cache_wf_def entry_ok_def)
  then have "spec_used (cache_abs c) = sum_list (map (\<lambda>a. ce_size (entry c a)) (lru c))"
    unfolding spec_used_def cache_abs_def abs_entry_def map_map o_def fst_conv snd_conv
    by (rule arg_cong)
  then show ?thesis using assms by (simp add: cache_wf_def)
qed

lemma abs_evict: "cache_wf c \<Longrightarrow> cache_abs (cache_evict_lru c) = tl (cache_abs c)"
proof (cases "lru c")
  case Nil
  then show ?thesis by (simp add: evict_eq cache_abs_def)
next
  case (Cons a as)
  assume wf: "cache_wf c"
  then have "a \<notin> set as" using Cons wf_lru [OF wf] by simp
  then have "map (\<lambda>x. abs_entry (entry (remove_entry a c) x)) as = map (\<lambda>x. abs_entry (entry c x)) as"
    by (intro map_cong refl) (metis entry_remove)
  with Cons show ?thesis by (simp add: evict_eq cache_abs_def)
qed

lemma abs_evict_loop:
  assumes "cache_wf c" "evict_loop sz c = Some c'" "sz \<le> max_size c"
  shows "cache_abs c' = spec_evict (max_size c) sz (cache_abs c)"
  using assms
proof (induction "length (lru c)" arbitrary: c)
  case 0
  then have "total_size c + sz \<le> max_size c" by (simp add: wf_empty_total)
  with 0 show ?case by (simp add: evict_loop.simps [of sz c] leD cache_abs_def)
next
  case (Suc l)
  then obtain a as where lru: "lru c = a # as" by (metis length_Suc_conv)
  then obtain i "is" where abs: "cache_abs c = i # is" by (simp add: cache_abs_def)
  have used: "spec_used (i # is) = total_size c"
    using abs_used [OF Suc.prems(1)] abs by simp
  show ?case
  proof (cases "max_size c < total_size c + sz")
    case True
    with Suc.prems(2) have "evict_loop sz (cache_evict_lru c) = Some c'"
      by (simp add: evict_loop.simps [of sz c])
    then have "cache_abs c' = spec_evict (max_size c) sz (cache_abs (cache_evict_lru c))"
      using Suc.hyps(1) [of "cache_evict_lru c"] Suc.hyps(2) Suc.prems(1,3) by (simp add: wf_evict)
    also have "cache_abs (cache_evict_lru c) = is"
      using abs_evict [OF Suc.prems(1)] abs by simp
    finally show ?thesis using abs used True by simp
  next
    case False
    with Suc.prems(2) have "c' = c" by (simp add: evict_loop.simps [of sz c])
    with abs used False show ?thesis by simp
  qed
qed

lemma abs_put_update:
  assumes "cache_wf c" "a \<in> dom (heap c)"
  shows "cache_abs (put_update now c a d sz ttl) =
    spec_remove (ce_key (entry c a)) (cache_abs c) @
      [(ce_key (entry c a), take (unat sz) d, new_expiry now ttl)]"
proof -
  let ?f = "\<lambda>x. abs_entry (entry (put_update now c a d sz ttl) x)"
  have "map ?f (remove1 a (lru c)) = map (\<lambda>x. abs_entry (entry c x)) (remove1 a (lru c))"
    using wf_lru [OF assms(1)] by (intro map_cong) auto
  also have "\<dots> = spec_remove (ce_key (entry c a)) (cache_abs c)"
    by (rule abs_remove [OF assms])
  finally have "cache_abs (put_update now c a d sz ttl) =
      spec_remove (ce_key (entry c a)) (cache_abs c) @ [?f a]"
    by (simp only: cache_abs_def put_update_simps(1) map_append list.map)
  then show ?thesis by (simp add: abs_entry_def)
qed

lemma abs_put_insert:
  assumes "cache_wf c" "heap c a = None"
  shows "cache_abs (put_insert now c a k d sz ttl) =
    cache_abs c @ [(k, take (unat sz) d, new_expiry now ttl)]"
proof -
  have "a \<notin> set (lru c)" using assms wf_lru by auto
  then have "map (\<lambda>x. abs_entry (entry (put_insert now c a k d sz ttl) x)) (lru c) =
      map (\<lambda>x. abs_entry (entry c x)) (lru c)"
    by (intro map_cong) auto
  then show ?thesis unfolding cache_abs_def put_insert_simps(1) map_append
    by (simp add: abs_entry_def)
qed

subsection \<open>Refinement\<close>

lemma get_step_refines:
  assumes "cache_wf c"
  shows "(map_option fst (fst (get_step True now c k)), cache_abs (snd (get_step True now c k)))
      = spec_get now k (cache_abs c)"
proof (cases "bucket_find c k")
  case None
  then show ?thesis using abs_lookup [OF assms, of k] by (simp add: get_step_cases spec_get_def)
next
  case (Some a)
  then have a: "a \<in> dom (heap c)" "ce_key (entry c a) = k"
    using assms by (auto simp: cache_wf_def dest: bucket_find_Some)
  then have "take (unat (ce_size (entry c a))) (ce_data (entry c a)) = ce_data (entry c a)"
    using assms by (auto simp: cache_wf_def entry_ok_def)
  with a Some assms abs_lookup [OF assms, of k] show ?thesis
    by (simp add: get_step_cases spec_get_def expired_def abs_entry_def abs_remove_entry abs_touch)
qed

lemma put_step_refines:
  assumes "cache_wf c" "fresh_in al c" "al_update al" "\<exists>a. al_entry al = Some a" "al_key al" "al_data al"
    and "length d < 2 ^ 64"
    and "put_step al now c k d (of_nat (length d)) ttl = Some (r, c')"
  shows "(r, cache_abs c') = spec_put (max_size c) now k d ttl (cache_abs c)"
proof -
  have d: "take (unat (of_nat (length d) :: size_t)) d = d"
    using assms(7) by (simp add: unat_of_nat_size)
  show ?thesis
    using assms(1,2,8)
  proof (cases rule: put_step_cases)
    case (update a)
    with abs_lookup [OF assms(1), of k] d show ?thesis
      by (simp add: spec_put_def Let_def not_less abs_put_update [OF assms(1)])
  next
    case (update_fails a)
    with assms(3) show ?thesis by simp
  next
    case insert_fails
    with assms(4-6) show ?thesis by blast
  next
    case (insert a c1)
    with abs_lookup [OF assms(1), of k] d abs_evict_loop [OF assms(1) insert(4) half_le [OF insert(1)]]
    show ?thesis
      by (simp add: spec_put_def Let_def not_less abs_put_insert)
  qed (simp add: spec_put_def)
qed

subsection \<open>The cache provides the interface\<close>

definition kv_get :: "bool \<times> time_t \<Rightarrow> cache_t \<Rightarrow> string \<Rightarrow> u8 list option \<times> cache_t" where
  "kv_get t c k =
     (case cache_get (fst t) (snd t) (Some c) (Some k) of (r, g) \<Rightarrow> (map_option fst r, the g))"

definition kv_put ::
  "put_allocs \<times> time_t \<times> c_int \<Rightarrow> cache_t \<Rightarrow> string \<Rightarrow> u8 list \<Rightarrow> (bool \<times> cache_t) option" where
  "kv_put e c k v =
     map_option (\<lambda>p. (fst p = 0, the (snd p)))
       (cache_put (fst e) (fst (snd e)) (Some c) (Some k) (Some v) (of_nat (length v)) (snd (snd e)))"

definition kv_stored :: "cache_t \<Rightarrow> string \<Rightarrow> u8 list option" where
  "kv_stored c k = map_option (\<lambda>a. ce_data (entry c a)) (bucket_find c k)"

definition kv_put_ok :: "put_allocs \<times> time_t \<times> c_int \<Rightarrow> cache_t \<Rightarrow> u8 list \<Rightarrow> bool" where
  "kv_put_ok e c v \<longleftrightarrow> fresh_in (fst e) c \<and> v \<noteq> [] \<and> length v < 2 ^ 64"

definition kv_order :: "cache_t \<Rightarrow> string list" where
  "kv_order c = map fst (cache_abs c)"

lemma kv_get_step:
  "kv_get t c k = (map_option fst (fst (get_step (fst t) (snd t) c k)), snd (get_step (fst t) (snd t) c k))"
  by (simp add: kv_get_def cache_get_def split_beta)

lemma size_of_data:
  assumes "v \<noteq> []" "length v < 2 ^ 64"
  shows "(of_nat (length v) :: size_t) \<noteq> 0" "unat (of_nat (length v) :: size_t) = length v"
proof -
  show u: "unat (of_nat (length v) :: size_t) = length v" by (rule unat_of_nat_size [OF assms(2)])
  then show "(of_nat (length v) :: size_t) \<noteq> 0" using assms(1) by (metis length_0_conv unat_0)
qed

lemma kv_put_step:
  "kv_put_ok e c v \<Longrightarrow> kv_put e c k v =
     map_option (\<lambda>p. (fst p = 0, snd p))
       (put_step (fst e) (fst (snd e)) c k v (of_nat (length v)) (snd (snd e)))"
  using size_of_data [of v]
  by (auto simp: kv_put_def cache_put_def kv_put_ok_def option.map_comp o_def split_beta)

lemma kv_stored_Some:
  "cache_wf c \<Longrightarrow> kv_stored c k = Some v \<longleftrightarrow>
     (\<exists>a e. heap c a = Some e \<and> ce_key e = k \<and> ce_data e = v)"
proof -
  assume wf: "cache_wf c"
  have "bucket_find c k = Some a \<longleftrightarrow> a \<in> dom (heap c) \<and> ce_key (entry c a) = k" for a
    using wf bucket_find_live [OF wf] by (auto simp: cache_wf_def dest: bucket_find_Some)
  then show ?thesis by (auto simp: kv_stored_def entry_def dom_def) blast
qed

lemma kv_stored_mono:
  assumes "cache_wf c" "cache_wf c'" "heap c' \<subseteq>\<^sub>m heap c"
  shows "kv_stored c' \<subseteq>\<^sub>m kv_stored c"
  unfolding map_le_def
proof
  fix k assume "k \<in> dom (kv_stored c')"
  then obtain v where v: "kv_stored c' k = Some v" by auto
  with assms have "kv_stored c k = Some v"
    by (auto simp: kv_stored_Some map_le_def dom_def) metis
  with v show "kv_stored c' k = kv_stored c k" by simp
qed

lemma get_heap: "heap (snd (get_step m now c k)) \<subseteq>\<^sub>m heap c"
  by (auto simp: get_step_cases map_le_def split: option.split)

lemma put_stored_update:
  assumes "cache_wf c" "cache_wf c'" "h \<subseteq>\<^sub>m heap c" "heap c' = h(a \<mapsto> e)" "ce_key e = k" "ce_data e = v"
  shows "kv_stored c' k = Some v \<and> kv_stored c' \<subseteq>\<^sub>m (kv_stored c)(k \<mapsto> v)"
proof
  show k: "kv_stored c' k = Some v" using assms by (auto simp: kv_stored_Some)
  show "kv_stored c' \<subseteq>\<^sub>m (kv_stored c)(k \<mapsto> v)"
    unfolding map_le_def
  proof
    fix j assume "j \<in> dom (kv_stored c')"
    then obtain w where w: "kv_stored c' j = Some w" by auto
    then obtain x y where "heap c' x = Some y" "ce_key y = j" "ce_data y = w"
      using assms(2) by (auto simp: kv_stored_Some)
    then have "j \<noteq> k \<Longrightarrow> kv_stored c j = Some w"
      using assms(1,3,4,5) by (auto simp: kv_stored_Some map_le_def dom_def split: if_splits) metis
    with w k show "kv_stored c' j = ((kv_stored c)(k \<mapsto> v)) j" by auto
  qed
qed

lemma kv_put_cases:
  assumes "cache_wf c" "kv_put_ok e c v" "kv_put e c k v = Some (b, c')"
  shows "cache_wf c'"
    and "b \<Longrightarrow> kv_stored c' k = Some v \<and> kv_stored c' \<subseteq>\<^sub>m (kv_stored c)(k \<mapsto> v)"
    and "\<not> b \<Longrightarrow> kv_stored c' \<subseteq>\<^sub>m kv_stored c"
proof -
  note ok = assms(2) [unfolded kv_put_ok_def]
  note sz = size_of_data [of v]
  let ?sz = "of_nat (length v) :: size_t"
  from assms(3) obtain r where r: "b = (r = 0)"
    and put: "put_step (fst e) (fst (snd e)) c k v ?sz (snd (snd e)) = Some (r, c')"
    by (auto simp: kv_put_step [OF assms(2)])
  show wf': "cache_wf c'"
    using wf_put [OF assms(1) _ _ _ put] ok sz by simp
  show "b \<Longrightarrow> kv_stored c' k = Some v \<and> kv_stored c' \<subseteq>\<^sub>m (kv_stored c)(k \<mapsto> v)"
  proof (cases rule: put_step_cases [OF assms(1) _ put, case_names fresh big upd_fails update ins_fails ins])
    case (update a)
    then show ?thesis
      using put_stored_update [OF assms(1) wf' map_le_refl] ok sz by simp
  next
    case (ins a c1)
    have "heap c1 \<subseteq>\<^sub>m heap c"
      using evict_loop_Some(4) [OF assms(1) half_le [OF ins(1)] ins(4)] .
    then show ?thesis
      using put_stored_update [OF assms(1) wf'] ins(5) ok sz by simp
  qed (use r ok in simp_all)
  show "\<not> b \<Longrightarrow> kv_stored c' \<subseteq>\<^sub>m kv_stored c"
  proof (cases rule: put_step_cases [OF assms(1) _ put, case_names fresh big upd_fails update ins_fails ins])
    case ins_fails
    then show ?thesis
      using kv_stored_mono [OF assms(1) wf'] evict_loop_Some(4) [OF assms(1) half_le] by blast
  qed (use r ok in simp_all)
qed

lemma kv_order_keys: "set (kv_order c) = (\<lambda>a. ce_key (entry c a)) ` set (lru c)"
  by (auto simp: kv_order_def cache_abs_def)

lemma spec_remove_keys:
  "distinct (map fst xs) \<Longrightarrow> map fst (spec_remove k xs) = remove1 k (map fst xs)"
  by (induction xs) (auto simp: spec_remove_def remove1_idem)

lemma kv_order_distinct: "cache_wf c \<Longrightarrow> distinct (kv_order c)"
  by (simp add: kv_order_def cache_abs_def o_def distinct_map cache_wf_def linked_ok_def)

lemma kv_order_stored: "cache_wf c \<Longrightarrow> set (kv_order c) = dom (kv_stored c)"
  by (auto simp: kv_order_keys kv_stored_Some dom_def image_iff entry_def wf_lru)
    (blast | metis option.sel)+

text \<open>Two entries of at most half the capacity fit together, so eviction always leaves the
  most recently used item.\<close>

lemma halves_fit:
  fixes a b mx :: size_t
  assumes "a \<le> mx div 2" "b \<le> mx div 2"
  shows "a + b \<le> mx"
proof -
  have ab: "unat a \<le> unat mx div 2" "unat b \<le> unat mx div 2"
    using assms by (simp_all add: word_le_nat_alt unat_div_distrib)
  moreover have "unat mx < 2 ^ 64" using unsigned_less [of mx] by simp
  ultimately have "unat (a + b) = unat a + unat b"
    by (subst unat_add_lem [THEN iffD1]) auto
  with ab show ?thesis by (simp add: word_le_nat_alt)
qed

lemma spec_evict_drop:
  assumes "xs \<noteq> [] \<Longrightarrow> of_nat (length (fst (snd (last xs)))) \<le> mx div 2" "sz \<le> mx div 2"
  shows "\<exists>n. spec_evict mx sz xs = drop n xs \<and> (xs \<noteq> [] \<longrightarrow> n < length xs)"
  using assms(1)
proof (induction xs)
  case (Cons i xs)
  show ?case
  proof (cases "mx < spec_used (i # xs) + sz")
    case False
    then show ?thesis by (intro exI [of _ 0]) simp
  next
    case True
    have "xs \<noteq> []"
    proof
      assume "xs = []"
      with Cons.prems assms(2) have "spec_used (i # xs) + sz \<le> mx"
        by (simp add: spec_used_def halves_fit)
      with True show False by simp
    qed
    with Cons obtain n where "spec_evict mx sz xs = drop n xs" "n < length xs" by auto
    with True show ?thesis by (intro exI [of _ "Suc n"]) simp
  qed
qed simp

lemma kv_put_order:
  assumes wf: "cache_wf c" and ok: "kv_put_ok e c v" and put: "kv_put e c k v = Some (True, c')"
  shows "k \<in> set (kv_order c) \<Longrightarrow> kv_order c' = remove1 k (kv_order c) @ [k]"
    and "k \<notin> set (kv_order c) \<Longrightarrow>
      \<exists>n. kv_order c' = drop n (kv_order c) @ [k] \<and> (kv_order c \<noteq> [] \<longrightarrow> n < length (kv_order c))"
proof -
  from put have p: "put_step (fst e) (fst (snd e)) c k v (of_nat (length v)) (snd (snd e)) = Some (0, c')"
    by (auto simp: kv_put_step [OF ok])
  from ok have fr: "fresh_in (fst e) c" by (simp add: kv_put_ok_def)
  have key: "bucket_find c k = None \<longleftrightarrow> k \<notin> set (kv_order c)"
    using wf by (auto simp: bucket_find_None [OF wf] kv_order_keys wf_lru)
  show "kv_order c' = remove1 k (kv_order c) @ [k]" if "k \<in> set (kv_order c)"
  proof (cases rule: put_step_cases [OF wf fr p])
    case (3 a)
    then show ?thesis using kv_order_distinct [OF wf]
      by (simp add: kv_order_def abs_put_update [OF wf] spec_remove_keys)
  qed (use that key in simp_all)
  show "\<exists>n. kv_order c' = drop n (kv_order c) @ [k] \<and> (kv_order c \<noteq> [] \<longrightarrow> n < length (kv_order c))"
    if "k \<notin> set (kv_order c)"
  proof (cases rule: put_step_cases [OF wf fr p])
    case (5 a c1)
    have "of_nat (length (fst (snd (last (cache_abs c))))) \<le> max_size c div 2" if "cache_abs c \<noteq> []"
    proof -
      from that have "last (lru c) \<in> dom (heap c)"
        using wf_lru [OF wf] last_in_set [of "lru c"] by (auto simp: cache_abs_def)
      with that wf show ?thesis
        by (auto simp: cache_abs_def last_map abs_entry_def cache_wf_def entry_ok_def)
    qed
    from spec_evict_drop [OF this 5(1)] abs_evict_loop [OF wf 5(4) half_le [OF 5(1)]]
    obtain n where "cache_abs c1 = drop n (cache_abs c)" "cache_abs c \<noteq> [] \<longrightarrow> n < length (cache_abs c)"
      by auto
    with 5 show ?thesis
      by (intro exI [of _ n]) (simp add: kv_order_def abs_put_insert drop_map)
  qed (use that key in simp_all)
qed

interpretation lru_of_code: lru_cache kv_get kv_put kv_stored cache_wf kv_put_ok kv_order
proof unfold_locales
  fix c :: cache_t and t :: "bool \<times> time_t" and k j :: string and v w :: "u8 list"
  assume wf: "cache_wf c"
  show "cache_wf (snd (kv_get t c k))" using wf by (simp add: kv_get_step wf_get)
  show "kv_stored (snd (kv_get t c k)) \<subseteq>\<^sub>m kv_stored c"
    using wf by (simp add: kv_get_step kv_stored_mono wf_get get_heap)
  show "set (kv_order c) = dom (kv_stored c)" by (rule kv_order_stored [OF wf])
  {
    assume hit: "fst (kv_get t c k) = Some v"
    then obtain a where a: "bucket_find c k = Some a" "\<not> expired (snd t) (entry c a)" "fst t"
      "take (unat (ce_size (entry c a))) (ce_data (entry c a)) = v"
      by (auto simp: kv_get_step get_step_cases split: option.splits if_splits)
    then have live: "a \<in> dom (heap c)" "ce_key (entry c a) = k"
      using wf by (auto simp: cache_wf_def dest: bucket_find_Some)
    show "kv_stored c k = Some v"
      using a wf live(1) by (auto simp: kv_stored_def cache_wf_def entry_ok_def)
    have "kv_order (snd (kv_get t c k)) = map fst (cache_abs (lru_touch a c))"
      using a by (simp add: kv_get_step get_step_cases kv_order_def)
    also have "\<dots> = remove1 k (kv_order c) @ [k]"
      using abs_touch [OF wf live(1)] live(2) kv_order_distinct [OF wf]
      by (simp add: kv_order_def spec_remove_keys)
    finally show "kv_order (snd (kv_get t c k)) = remove1 k (kv_order c) @ [k]" .
  }
next
  fix c :: cache_t and e :: "put_allocs \<times> time_t \<times> c_int" and k :: string and v c'
  assume wf: "cache_wf c" and ok: "kv_put_ok e c v"
  show "\<exists>r. kv_put e c k v = Some r"
    using put_step_returns [OF wf, of "fst e" "fst (snd e)" k v "of_nat (length v)" "snd (snd e)"]
    by (auto simp: kv_put_step [OF ok])
  show "cache_wf c'" if "kv_put e c k v = Some (b, c')" for b
    using kv_put_cases(1) [OF wf ok that] .
  show "kv_stored c' \<subseteq>\<^sub>m kv_stored c" if "kv_put e c k v = Some (False, c')"
    using kv_put_cases(3) [OF wf ok that] by simp
  assume put: "kv_put e c k v = Some (True, c')"
  show "kv_stored c' k = Some v \<and> kv_stored c' \<subseteq>\<^sub>m (kv_stored c)(k \<mapsto> v)"
    using kv_put_cases(2) [OF wf ok put] by simp
  show "kv_order c' = remove1 k (kv_order c) @ [k]" if "k \<in> set (kv_order c)"
    by (rule kv_put_order(1) [OF wf ok put that])
  show "\<exists>n. kv_order c' = drop n (kv_order c) @ [k] \<and> (kv_order c \<noteq> [] \<longrightarrow> n < length (kv_order c))"
    if "k \<notin> set (kv_order c)"
    by (rule kv_put_order(2) [OF wf ok put that])
qed

subsection \<open>Concrete states\<close>

text \<open>A 1 MB cache after \<open>cache_init\<close>, and the same with one entry that lives 60 seconds.\<close>

definition demo_allocs :: "addr \<Rightarrow> put_allocs" where
  "demo_allocs a = \<lparr>al_update = True, al_entry = Some a, al_key = True, al_data = True\<rparr>"

definition demo_empty :: cache_t where
  "demo_empty = the (snd (cache_init True True 1))"

definition demo_cache :: cache_t where
  "demo_cache = put_insert 0 demo_empty 7 ''/a'' [1, 2] 2 60"

lemma demo_empty_simps [simp]:
  "heap demo_empty = Map.empty" "lru demo_empty = []" "max_size demo_empty = 1048576"
  "total_size demo_empty = 0" "num_buckets demo_empty = 1024"
  by (simp_all add: demo_empty_def cache_init_def)

lemma demo_empty_wf: "cache_wf demo_empty"
  by (rule wf_init [of True True 1 0]) (simp add: demo_empty_def cache_init_def)

lemma demo_cache_wf: "cache_wf demo_cache"
  unfolding demo_cache_def by (rule wf_put_insert [OF demo_empty_wf]) simp_all

lemma demo_cache_abs: "cache_abs demo_cache = [(''/a'', [1, 2], 60)]"
  by (simp add: demo_cache_def cache_abs_def abs_entry_def new_expiry_def)

lemma demo_cache_simps [simp]:
  "heap demo_cache = [7 \<mapsto> \<lparr>ce_key = ''/a'', ce_data = [1, 2], ce_size = 2, ce_expiry = 60\<rparr>]"
  "max_size demo_cache = 1048576" "total_size demo_cache = 2" "lru demo_cache = [7]"
  by (simp_all add: demo_cache_def new_expiry_def)

lemma kv_put_new:
  assumes "cache_wf c" "kv_put_ok (demo_allocs a, now, ttl) c v" "bucket_find c k = None"
    and "of_nat (length v) \<le> max_size c div 2" "total_size c + of_nat (length v) \<le> max_size c"
  shows "kv_put (demo_allocs a, now, ttl) c k v
    = Some (True, put_insert now c a k v (of_nat (length v)) ttl)"
  using assms(3-5) unfolding kv_put_step [OF assms(2)]
  by (simp add: put_step_def leD evict_loop.simps [of "of_nat (length v)" c] demo_allocs_def)

lemma kv_put_known:
  assumes "kv_put_ok (demo_allocs a, now, ttl) c v" "bucket_find c k = Some b"
    and "of_nat (length v) \<le> max_size c div 2"
  shows "kv_put (demo_allocs a, now, ttl) c k v
    = Some (True, put_update now c b v (of_nat (length v)) ttl)"
  using assms(2,3) unfolding kv_put_step [OF assms(1)]
  by (simp add: put_step_def leD demo_allocs_def)

subsection \<open>Properties\<close>

text \<open>C13: refinement of \<open>cache_get\<close>.  From a well-formed cache, a lookup returns what the
  abstract LRU list returns: the data of the live entry under the key, nothing when there is
  none or it has expired; the entry becomes the most recently used one (or is removed when
  expired), and the cache stays well formed.\<close>

theorem cache_get_refines:
  assumes "cache_wf c" "cache_get True now (Some c) (Some k) = (r, Some c')"
  shows "cache_wf c' \<and> (map_option fst r, cache_abs c') = spec_get now k (cache_abs c)"
  using assms get_step_refines [OF assms(1), of now k] wf_get [OF assms(1), of True now k]
  by (auto simp: cache_get_def split: prod.splits)

theorem cache_get_refines_witness:
  "\<exists>c'. cache_get True 30 (Some demo_cache) (Some ''/a'') = (Some ([1, 2], 2), Some c') \<and>
     (Some [1, 2], cache_abs c') = spec_get 30 ''/a'' (cache_abs demo_cache)"
proof -
  have "bucket_find demo_cache ''/a'' = Some 7"
    by (rule bucket_find_live [OF demo_cache_wf]) (simp_all add: entry_def dom_def)
  then obtain c' where g: "cache_get True 30 (Some demo_cache) (Some ''/a'') = (Some ([1, 2], 2), Some c')"
    by (simp add: cache_get_def get_step_cases expired_def entry_def)
  from cache_get_refines [OF demo_cache_wf g] g show ?thesis by auto
qed

text \<open>C14: refinement and termination of \<open>cache_put\<close>.  From a well-formed cache, with
  allocations that succeed, storing data always returns: it refuses data larger than half the
  capacity, replaces the entry of a known key, and for a new key drops least recently used
  entries exactly until the data fits; the cache stays well formed.\<close>

theorem cache_put_refines:
  assumes "cache_wf c" "fresh_in al c" "al_update al" "\<exists>a. al_entry al = Some a" "al_key al" "al_data al"
    and "d \<noteq> []" "length d < 2 ^ 64"
  shows "\<exists>r c'. cache_put al now (Some c) (Some k) (Some d) (of_nat (length d)) ttl = Some (r, Some c')
    \<and> cache_wf c' \<and> (r, cache_abs c') = spec_put (max_size c) now k d ttl (cache_abs c)"
proof -
  note sz = size_of_data [OF assms(7,8)]
  obtain r c' where put: "put_step al now c k d (of_nat (length d)) ttl = Some (r, c')"
    using put_step_returns [OF assms(1)] by blast
  moreover have "cache_wf c'" using wf_put [OF assms(1,2) _ _ put] sz by simp
  moreover note put_step_refines [OF assms(1-6,8) put]
  ultimately show ?thesis using sz by (simp add: cache_put_def)
qed

theorem cache_put_refines_witness:
  "\<exists>r c'. cache_put (demo_allocs 8) 5 (Some demo_cache) (Some ''/b'') (Some [9]) 1 0 = Some (r, Some c')
    \<and> r = 0 \<and> cache_abs c' = [(''/a'', [1, 2], 60), (''/b'', [9], 0)]"
proof -
  have "fresh_in (demo_allocs 8) demo_cache"
    by (simp add: fresh_in_def demo_allocs_def demo_cache_def)
  from cache_put_refines [OF demo_cache_wf this, of "[9]" 5 "''/b''" 0]
  show ?thesis
    by (auto simp: demo_allocs_def demo_cache_abs spec_put_def spec_lookup_def spec_used_def
        new_expiry_def Let_def)
qed

text \<open>C3: integrity.  In every history of lookups and stores of a cache that \<open>cache_init\<close>
  created, each value served for a key is the value stored last under that key, whatever the
  clock, the allocator and the evictions do, and the heap, the hash table and the LRU queue
  stay consistent.\<close>

theorem cache_serves_last_stored:
  assumes "cache_init m1 m2 mb = (r, Some c0)"
    and "cache_trace kv_get kv_put kv_put_ok c0 es c"
  shows "faithful Map.empty es \<and> cache_wf c"
proof -
  have "kv_stored c0 k = None" for k
    using assms(1) by (auto simp: kv_stored_def bucket_find_def cache_init_def split: if_splits)
  then have "kv_stored c0 \<subseteq>\<^sub>m Map.empty" by (auto simp: map_le_def dom_def)
  with lru_of_code.trace_faithful [OF assms(2) wf_init [OF assms(1)]] show ?thesis by blast
qed

theorem cache_serves_last_stored_witness:
  "\<exists>c. cache_trace kv_get kv_put kv_put_ok demo_empty [Stored ''/a'' [1, 2], Served ''/a'' [1, 2]] c
    \<and> cache_wf c"
proof -
  have init: "cache_init True True 1 = (0, Some demo_empty)"
    by (simp add: demo_empty_def cache_init_def)
  have none: "bucket_find demo_empty ''/a'' = None"
    by (simp add: bucket_find_None [OF demo_empty_wf])
  have ok: "kv_put_ok (demo_allocs 7, 0, 60) demo_empty [1, 2]"
    by (simp add: kv_put_ok_def fresh_in_def)
  have put: "kv_put (demo_allocs 7, 0, 60) demo_empty ''/a'' [1, 2] = Some (True, demo_cache)"
    unfolding kv_put_step [OF ok]
    by (simp add: put_step_def none evict_loop.simps [of 2 demo_empty] demo_allocs_def demo_cache_def)
  have "bucket_find demo_cache ''/a'' = Some 7"
    by (rule bucket_find_live [OF demo_cache_wf]) (simp_all add: entry_def dom_def)
  then have "fst (kv_get (True, 30) demo_cache ''/a'') = Some [1, 2]"
    by (simp add: kv_get_step get_step_cases expired_def entry_def)
  then obtain c where get: "kv_get (True, 30) demo_cache ''/a'' = (Some [1, 2], c)"
    by (metis prod.collapse)
  have "cache_trace kv_get kv_put kv_put_ok demo_empty [Stored ''/a'' [1, 2], Served ''/a'' [1, 2]] c"
    by (rule cache_trace.store [where ok = kv_put_ok and put = kv_put, OF ok put])
      (rule cache_trace.hit [where get = kv_get, OF get cache_trace.nothing])
  with cache_serves_last_stored [OF init this] show ?thesis by blast
qed

text \<open>Least recently used order.  An entry that was just served survives the next
  successful store: afterwards the cache still holds the served value (or the stored one, when
  the keys are equal), however much room the store had to make.\<close>

theorem cache_hit_survives_next_store:
  assumes "cache_wf c" "fst (kv_get t c k) = Some v" "c1 = snd (kv_get t c k)"
    and "kv_put_ok e c1 w" "kv_put e c1 j w = Some (True, c2)"
  shows "kv_stored c2 k = Some (if j = k then w else v)"
  using assms by (rule lru_of_code.hit_survives)

theorem cache_hit_survives_next_store_witness:
  "\<exists>c1 c2. c1 = snd (kv_get (True, 30) demo_cache ''/a'') \<and>
     kv_put (demo_allocs 8, 30, 60) c1 ''/b'' [3] = Some (True, c2) \<and> kv_stored c2 ''/a'' = Some [1, 2]"
proof -
  let ?c1 = "snd (kv_get (True, 30) demo_cache ''/a'')"
  let ?e = "(demo_allocs 8, 30 :: time_t, 60 :: c_int)"
  have "bucket_find demo_cache ''/a'' = Some 7"
    by (rule bucket_find_live [OF demo_cache_wf]) (simp_all add: entry_def dom_def)
  then have get: "kv_get (True, 30) demo_cache ''/a'' =
      (Some [1, 2], (lru_touch 7 demo_cache)\<lparr>hits := wrap32 (hits demo_cache + 1)\<rparr>)"
    by (simp add: kv_get_step get_step_cases expired_def entry_def)
  have wf: "cache_wf ?c1" using lru_of_code.get_invar [OF demo_cache_wf] .
  have ok: "kv_put_ok ?e ?c1 [3]"
    unfolding get by (simp add: kv_put_ok_def fresh_in_def demo_allocs_def)
  have none: "bucket_find ?c1 ''/b'' = None"
    unfolding bucket_find_None [OF wf] unfolding get by (simp add: entry_def)
  have put: "kv_put ?e ?c1 ''/b'' [3] = Some (True, put_insert 30 ?c1 8 ''/b'' [3] 1 60)"
    using kv_put_new [OF wf ok none] unfolding get by simp
  have "fst (kv_get (True, 30) demo_cache ''/a'') = Some [1, 2]" by (simp add: get)
  from cache_hit_survives_next_store [OF demo_cache_wf this refl ok put] put show ?thesis by auto
qed

text \<open>C38: the capacity.  A successful store of a new key leaves the cache within its
  capacity; a store that replaces the data of a known key makes no room: it only adjusts the
  size by the difference, and no entry goes.\<close>

theorem cache_put_capacity:
  assumes "cache_wf c" "fresh_in al c" "put_step al now c k d sz ttl = Some (0, c')"
  shows "if bucket_find c k = None then total_size c' \<le> max_size c'
    else total_size c' = total_size c - ce_size (entry c (the (bucket_find c k))) + sz
      \<and> set (lru c') = set (lru c)"
  using assms
proof (cases rule: put_step_cases)
  case (update a)
  then have "a \<in> set (lru c)" using wf_lru [OF assms(1)] by simp
  with update wf_lru [OF assms(1)] show ?thesis by auto
next
  case (insert a c1)
  have "total_size c1 + sz \<le> max_size c"
    by (rule evict_loop_Some(3) [OF assms(1) half_le [OF insert(1)] insert(4)])
  with insert show ?thesis by simp
qed simp_all

theorem cache_put_capacity_witness:
  "\<exists>c'. put_step (demo_allocs 8) 5 demo_cache ''/b'' [9] 1 0 = Some (0, c') \<and> total_size c' \<le> max_size c'"
proof -
  have none: "bucket_find demo_cache ''/b'' = None"
    by (simp add: bucket_find_None [OF demo_cache_wf] entry_def)
  have fresh: "fresh_in (demo_allocs 8) demo_cache"
    by (simp add: fresh_in_def demo_allocs_def)
  have put: "put_step (demo_allocs 8) 5 demo_cache ''/b'' [9] 1 0
      = Some (0, put_insert 5 demo_cache 8 ''/b'' [9] 1 0)"
    by (simp add: put_step_def none demo_allocs_def evict_loop.simps [of 1 demo_cache])
  from cache_put_capacity [OF demo_cache_wf fresh put] none put show ?thesis by simp
qed

definition half_mb :: "u8 list" where
  "half_mb = replicate 524288 0"

lemma length_half_mb [simp]: "length half_mb = 524288" "half_mb \<noteq> []"
proof -
  show "length half_mb = 524288" unfolding half_mb_def by (rule length_replicate)
  then show "half_mb \<noteq> []" by auto
qed

text \<open>The capacity is not a bound.  After three stores and one replacement, a cache that
  \<open>cache_init\<close> created with 1 MB holds more than 1 MB: the replacement path of \<open>cache_put\<close>
  never evicts.\<close>

theorem cache_replacement_overruns_capacity:
  "\<exists>c. cache_trace kv_get kv_put kv_put_ok demo_empty
      [Stored ''/a'' half_mb, Stored ''/b'' [0], Stored ''/c'' [0], Stored ''/b'' half_mb] c
    \<and> cache_wf c \<and> max_size c < total_size c"
proof -
  let ?c1 = "put_insert 0 demo_empty 2 ''/a'' half_mb 524288 60"
  let ?c2 = "put_insert 0 ?c1 3 ''/b'' [0] 1 60"
  let ?c3 = "put_insert 0 ?c2 4 ''/c'' [0] 1 60"
  let ?c4 = "put_update 0 ?c3 3 half_mb 524288 60"
  have wf1: "cache_wf ?c1" by (rule wf_put_insert [OF demo_empty_wf]) simp_all
  have wf2: "cache_wf ?c2" by (rule wf_put_insert [OF wf1]) (auto simp: dom_def)
  have wf3: "cache_wf ?c3" by (rule wf_put_insert [OF wf2]) (auto simp: dom_def)
  have b: "bucket_find ?c3 ''/b'' = Some 3"
    by (rule bucket_find_live [OF wf3]) (simp_all add: dom_def)
  have wf4: "cache_wf ?c4" by (rule wf_put_update [OF wf3]) (simp_all add: dom_def)
  have ok: "kv_put_ok (demo_allocs 2, 0, 60) demo_empty half_mb" "kv_put_ok (demo_allocs 3, 0, 60) ?c1 [0]"
    "kv_put_ok (demo_allocs 4, 0, 60) ?c2 [0]" "kv_put_ok (demo_allocs 5, 0, 60) ?c3 half_mb"
    by (simp_all add: kv_put_ok_def fresh_in_def demo_allocs_def)
  have none: "bucket_find demo_empty ''/a'' = None" "bucket_find ?c1 ''/b'' = None"
    "bucket_find ?c2 ''/c'' = None"
    by (simp_all add: bucket_find_None [OF demo_empty_wf] bucket_find_None [OF wf1]
        bucket_find_None [OF wf2])
  have p1: "kv_put (demo_allocs 2, 0, 60) demo_empty ''/a'' half_mb = Some (True, ?c1)"
    using kv_put_new [OF demo_empty_wf ok(1) none(1)] by simp
  have p2: "kv_put (demo_allocs 3, 0, 60) ?c1 ''/b'' [0] = Some (True, ?c2)"
    using kv_put_new [OF wf1 ok(2) none(2)] by simp
  have p3: "kv_put (demo_allocs 4, 0, 60) ?c2 ''/c'' [0] = Some (True, ?c3)"
    using kv_put_new [OF wf2 ok(3) none(3)] by simp
  have p4: "kv_put (demo_allocs 5, 0, 60) ?c3 ''/b'' half_mb = Some (True, ?c4)"
    using kv_put_known [OF ok(4) b] by simp
  note store = cache_trace.store [where get = kv_get and ok = kv_put_ok and put = kv_put]
  have "cache_trace kv_get kv_put kv_put_ok demo_empty
      [Stored ''/a'' half_mb, Stored ''/b'' [0], Stored ''/c'' [0], Stored ''/b'' half_mb] ?c4"
    by (rule store [OF ok(1) p1 store [OF ok(2) p2 store [OF ok(3) p3 store [OF ok(4) p4
            cache_trace.nothing]]]])
  with wf4 show ?thesis by (intro exI [of _ ?c4]) simp
qed

end
