(* ===== verification/Proxy_Types.thy ===== *)
theory Proxy_Types
  imports C_String
begin

text \<open>
  The shared types of \<^verbatim>\<open>include/proxy.h\<close>: the enumerations, the configuration
  (\<open>g_config\<close>) and the connection.  A character array of a structure that the code clears
  with \<open>memset\<close> and fills with \<open>strncpy\<close> is the string it holds; feature flags are C
  integers, tested against zero as the code does.
\<close>

datatype proxy_mode =
  PROXY_MODE_HTTP | PROXY_MODE_HTTPS | PROXY_MODE_SOCKS5 | PROXY_MODE_TCP | PROXY_MODE_REVERSE
  | PROXY_MODE_TRANSPARENT

datatype thread_model =
  THREAD_MODEL_PER_CONNECTION | THREAD_MODEL_POOL | THREAD_MODEL_EVENT_DRIVEN | THREAD_MODEL_HYBRID

datatype lb_algorithm =
  LB_ALGORITHM_ROUND_ROBIN | LB_ALGORITHM_LEAST_CONNECTIONS | LB_ALGORITHM_IP_HASH
  | LB_ALGORITHM_WEIGHTED_RR

datatype compression_type = COMPRESS_NONE | COMPRESS_GZIP | COMPRESS_DEFLATE

definition BUFFER_SIZE :: nat where "BUFFER_SIZE = 65536"
definition MAX_HOSTNAME :: nat where "MAX_HOSTNAME = 256"
definition MAX_PATH :: nat where "MAX_PATH = 4096"
definition INET_ADDRSTRLEN :: nat where "INET_ADDRSTRLEN = 16"

record proxy_config =
  port :: c_int
  bind_address :: string
  mode :: proxy_mode
  thread_model :: thread_model
  num_threads :: c_int
  max_connections :: c_int
  enable_caching :: c_int
  enable_ssl :: c_int
  enable_auth :: c_int
  enable_logging :: c_int
  enable_filtering :: c_int
  enable_compression :: c_int
  enable_rate_limiting :: c_int
  ssl_cert_file :: string
  ssl_key_file :: string
  cache_size_mb :: size_t
  cache_ttl_seconds :: c_int
  auth_file :: string
  backend_host :: string
  backend_port :: c_int
  num_backends :: c_int
  backend_hosts :: "string list"
  backend_ports :: "c_int list"
  backend_weights :: "c_int list option"
  lb_algorithm :: lb_algorithm
  rate_limit_requests :: c_int
  rate_limit_bandwidth_kbps :: c_int
  whitelist_ips :: "string list"
  blacklist_ips :: "string list"
  whitelist_count :: c_int
  blacklist_count :: c_int
  log_file :: string
  log_level :: c_int

text \<open>File descriptors are C integers, negative when there is none.\<close>

record connection =
  client_fd :: c_int
  remote_fd :: c_int
  created_at :: time_t
  bytes_sent :: size_t
  bytes_received :: size_t
  client_ip :: string
  authenticated :: c_int

end
