(* ===== verification/Config.thy ===== *)
theory Config
  imports Proxy_Types
begin

text \<open>
  Configuration, \<^verbatim>\<open>src/utils/config.c\<close>: the defaults and the reader of
  \<open>key=value\<close> files.  A file is the string of its bytes, \<^const>\<open>None\<close> when it cannot be
  opened; \<open>fgets\<close> cuts it into pieces of at most 1023 bytes.
\<close>

definition BIND_ADDRESS_SIZE :: nat where "BIND_ADDRESS_SIZE = 64"
definition LINE_SIZE :: nat where "LINE_SIZE = 1024"

definition config_set_defaults :: proxy_config where
  "config_set_defaults =
     \<lparr>port = 8080, bind_address = ''0.0.0.0'',
      mode = PROXY_MODE_HTTP, thread_model = THREAD_MODEL_POOL,
      num_threads = 10, max_connections = 1000,
      enable_caching = 0, enable_ssl = 0, enable_auth = 0, enable_logging = 1,
      enable_filtering = 0, enable_compression = 0, enable_rate_limiting = 0,
      ssl_cert_file = ''certs/server.crt'', ssl_key_file = ''certs/server.key'',
      cache_size_mb = 100, cache_ttl_seconds = 3600,
      auth_file = ''config/users.txt'',
      backend_host = ''localhost'', backend_port = 80, num_backends = 0,
      backend_hosts = [], backend_ports = [], backend_weights = None,
      lb_algorithm = LB_ALGORITHM_ROUND_ROBIN,
      rate_limit_requests = 100, rate_limit_bandwidth_kbps = 10240,
      whitelist_ips = [], blacklist_ips = [], whitelist_count = 0, blacklist_count = 0,
      log_file = ''proxy.log'', log_level = 1\<rparr>"

subsection \<open>One setting\<close>

definition set_mode :: "string \<Rightarrow> proxy_config \<Rightarrow> proxy_config" where
  "set_mode value cfg =
     (if value = ''http'' then cfg\<lparr>mode := PROXY_MODE_HTTP\<rparr>
      else if value = ''https'' then cfg\<lparr>mode := PROXY_MODE_HTTPS\<rparr>
      else if value = ''socks5'' then cfg\<lparr>mode := PROXY_MODE_SOCKS5\<rparr>
      else if value = ''tcp'' then cfg\<lparr>mode := PROXY_MODE_TCP\<rparr>
      else if value = ''reverse'' then cfg\<lparr>mode := PROXY_MODE_REVERSE\<rparr>
      else cfg)"

definition set_thread_model :: "string \<Rightarrow> proxy_config \<Rightarrow> proxy_config" where
  "set_thread_model value cfg =
     (if value = ''pool'' then cfg\<lparr>thread_model := THREAD_MODEL_POOL\<rparr>
      else if value = ''event'' then cfg\<lparr>thread_model := THREAD_MODEL_EVENT_DRIVEN\<rparr>
      else if value = ''hybrid'' then cfg\<lparr>thread_model := THREAD_MODEL_HYBRID\<rparr>
      else if value = ''perconn'' then cfg\<lparr>thread_model := THREAD_MODEL_PER_CONNECTION\<rparr>
      else cfg)"

definition config_set :: "string \<Rightarrow> string \<Rightarrow> proxy_config \<Rightarrow> proxy_config" where
  "config_set key value cfg =
     (if key = ''port'' then cfg\<lparr>port := atoi value\<rparr>
      else if key = ''bind_address'' then cfg\<lparr>bind_address := field_copy BIND_ADDRESS_SIZE value\<rparr>
      else if key = ''mode'' then set_mode value cfg
      else if key = ''num_threads'' then cfg\<lparr>num_threads := atoi value\<rparr>
      else if key = ''thread_model'' then set_thread_model value cfg
      else if key = ''enable_caching'' then cfg\<lparr>enable_caching := atoi value\<rparr>
      else if key = ''enable_ssl'' then cfg\<lparr>enable_ssl := atoi value\<rparr>
      else if key = ''enable_auth'' then cfg\<lparr>enable_auth := atoi value\<rparr>
      else if key = ''enable_logging'' then cfg\<lparr>enable_logging := atoi value\<rparr>
      else if key = ''enable_filtering'' then cfg\<lparr>enable_filtering := atoi value\<rparr>
      else if key = ''enable_compression'' then cfg\<lparr>enable_compression := atoi value\<rparr>
      else if key = ''enable_rate_limiting'' then cfg\<lparr>enable_rate_limiting := atoi value\<rparr>
      else if key = ''cache_size_mb'' then cfg\<lparr>cache_size_mb := word_of_int (atoi value)\<rparr>
      else if key = ''ssl_cert'' then cfg\<lparr>ssl_cert_file := field_copy MAX_PATH value\<rparr>
      else if key = ''ssl_key'' then cfg\<lparr>ssl_key_file := field_copy MAX_PATH value\<rparr>
      else if key = ''backend_host'' then cfg\<lparr>backend_host := field_copy MAX_HOSTNAME value\<rparr>
      else if key = ''backend_port'' then cfg\<lparr>backend_port := atoi value\<rparr>
      else if key = ''log_file'' then cfg\<lparr>log_file := field_copy MAX_PATH value\<rparr>
      else cfg)"

subsection \<open>One line, one file\<close>

definition is_blank :: "char \<Rightarrow> bool" where
  "is_blank c \<longleftrightarrow> c = CHR '' '' \<or> c = TAB"

text \<open>The body of the loop on the bytes that \<open>fgets\<close> stored.\<close>

definition config_line :: "string \<Rightarrow> proxy_config \<Rightarrow> proxy_config" where
  "config_line buf cfg =
     (let line = takeWhile (\<lambda>c. c \<noteq> LF \<and> c \<noteq> NUL) buf
      in if line = [] \<or> hd line = CHR ''#'' then cfg
         else case strchr_split (CHR ''='') line of
           None \<Rightarrow> cfg
         | Some (key, value) \<Rightarrow>
             config_set (dropWhile is_blank key) (dropWhile is_blank value) cfg)"

function config_loop :: "string \<Rightarrow> proxy_config \<Rightarrow> proxy_config" where
  "config_loop s cfg =
     (case fgets LINE_SIZE s of
        None \<Rightarrow> cfg
      | Some (line, rest) \<Rightarrow> config_loop rest (config_line line cfg))"
  by pat_completeness auto
termination
  by (relation "measure (\<lambda>(s, cfg). length s)") (auto dest!: fgets_shorter simp: LINE_SIZE_def)

declare config_loop.simps [simp del]

definition config_load :: "string option \<Rightarrow> proxy_config \<Rightarrow> c_int \<times> proxy_config" where
  "config_load config_file cfg =
     (case config_file of None \<Rightarrow> (-1, cfg) | Some text \<Rightarrow> (0, config_loop text cfg))"

subsection \<open>Lines of a file\<close>

lemma config_loop_Nil [simp]: "config_loop [] cfg = cfg"
  by (simp add: config_loop.simps [of "[]"] fgets_def)


text \<open>An invariant that every setting keeps holds after the whole file.\<close>

lemma config_loop_induct:
  assumes "P cfg" "\<And>key value c. P c \<Longrightarrow> c_string value \<Longrightarrow> P (config_set key value c)"
  shows "P (config_loop s cfg)"
  using assms(1)
proof (induction s cfg rule: config_loop.induct)
  case (1 s cfg)
  have line: "P (config_line buf c)" if "P c" for buf c
  proof -
    have "c_string v" if "strchr_split (CHR ''='') (takeWhile (\<lambda>c. c \<noteq> LF \<and> c \<noteq> NUL) buf) = Some (k, v)" for k v
    proof -
      have "takeWhile (\<lambda>c. c \<noteq> LF \<and> c \<noteq> NUL) buf = k @ CHR ''='' # v"
        using that by (simp add: strchr_split_Some)
      then have "set v \<subseteq> set (takeWhile (\<lambda>c. c \<noteq> LF \<and> c \<noteq> NUL) buf)" by auto
      then show ?thesis by (auto simp: c_string_def dest: set_takeWhileD)
    qed
    moreover have "c_string (dropWhile is_blank v)" if "c_string v" for v
      using that by (auto simp: c_string_def dest: set_dropWhileD)
    ultimately show ?thesis
      using that assms(2) by (auto simp: config_line_def Let_def split: option.split)
  qed
  show ?case
  proof (cases "fgets LINE_SIZE s")
    case None
    with 1 show ?thesis by (simp add: config_loop.simps [of s])
  next
    case (Some lr)
    then obtain l r where "fgets LINE_SIZE s = Some (l, r)" by (cases lr) auto
    with 1 line show ?thesis by (simp add: config_loop.simps [of s])
  qed
qed

lemma config_load_induct:
  assumes "P cfg" "\<And>key value c. P c \<Longrightarrow> c_string value \<Longrightarrow> P (config_set key value c)"
  shows "P (snd (config_load file cfg))"
  using assms(1) config_loop_induct [of P cfg, OF assms] by (simp add: config_load_def split: option.split)

text \<open>The arrays stay terminated inside their bounds, and numbers in the range of their
  type.\<close>

definition config_wf :: "proxy_config \<Rightarrow> bool" where
  "config_wf cfg \<longleftrightarrow>
     length (bind_address cfg) < BIND_ADDRESS_SIZE \<and> c_string (bind_address cfg) \<and>
     length (ssl_cert_file cfg) < MAX_PATH \<and> c_string (ssl_cert_file cfg) \<and>
     length (ssl_key_file cfg) < MAX_PATH \<and> c_string (ssl_key_file cfg) \<and>
     length (auth_file cfg) < MAX_PATH \<and> c_string (auth_file cfg) \<and>
     length (backend_host cfg) < MAX_HOSTNAME \<and> c_string (backend_host cfg) \<and>
     length (log_file cfg) < MAX_PATH \<and> c_string (log_file cfg) \<and>
     in_c_int (port cfg) \<and> in_c_int (num_threads cfg) \<and> in_c_int (backend_port cfg)"

lemma atoi_in_range: "in_c_int (atoi s)"
  by (simp add: atoi_def Let_def wrap32_in_range)

lemma config_wf_defaults: "config_wf config_set_defaults"
  by (simp add: config_wf_def config_set_defaults_def BIND_ADDRESS_SIZE_def MAX_PATH_def
      MAX_HOSTNAME_def c_string_def in_c_int_def)

lemma config_wf_set [inv_intros]:
  assumes "config_wf cfg" "c_string value"
  shows "config_wf (config_set key value cfg)"
proof -
  have "config_wf (set_mode value cfg)" "config_wf (set_thread_model value cfg)"
    using assms(1) by (simp_all add: config_wf_def set_mode_def set_thread_model_def)
  moreover have "length (field_copy BIND_ADDRESS_SIZE value) < BIND_ADDRESS_SIZE"
    "length (field_copy MAX_PATH value) < MAX_PATH"
    "length (field_copy MAX_HOSTNAME value) < MAX_HOSTNAME"
    by (simp_all add: length_field_copy BIND_ADDRESS_SIZE_def MAX_PATH_def MAX_HOSTNAME_def)
  ultimately show ?thesis
    using assms unfolding config_set_def
    by (auto simp: config_wf_def atoi_in_range c_string_field_copy)
qed

lemma config_wf_load [inv_intros]: "config_wf cfg \<Longrightarrow> config_wf (snd (config_load file cfg))"
  by (rule config_load_induct) (simp_all add: config_wf_set)

subsection \<open>Properties\<close>








text \<open>No file can overflow a field: whatever bytes the file holds, a well-formed
  configuration stays well-formed (terminated arrays, numbers in range).\<close>

theorem config_load_wf:
  assumes "config_wf cfg"
  shows "config_wf (snd (config_load file cfg))"
  using assms by (rule config_wf_load)

theorem config_load_wf_witness: "config_wf (snd (config_load (Some ''port=80'') config_set_defaults))"
  by (rule config_load_wf [OF config_wf_defaults])

text \<open>Settings the reader does not know.  Whatever the file says, it leaves the
  connection limit, the cache lifetime, the credential file, the balancing algorithm and the
  backend list, the rate limits, the address lists and the log level as they were, although
  the shipped configuration files and the README set them.\<close>

theorem config_load_ignores:
  "max_connections (snd (config_load file cfg)) = max_connections cfg \<and>
   cache_ttl_seconds (snd (config_load file cfg)) = cache_ttl_seconds cfg \<and>
   auth_file (snd (config_load file cfg)) = auth_file cfg \<and>
   lb_algorithm (snd (config_load file cfg)) = lb_algorithm cfg \<and>
   num_backends (snd (config_load file cfg)) = num_backends cfg \<and>
   rate_limit_requests (snd (config_load file cfg)) = rate_limit_requests cfg \<and>
   rate_limit_bandwidth_kbps (snd (config_load file cfg)) = rate_limit_bandwidth_kbps cfg \<and>
   whitelist_count (snd (config_load file cfg)) = whitelist_count cfg \<and>
   blacklist_count (snd (config_load file cfg)) = blacklist_count cfg \<and>
   log_level (snd (config_load file cfg)) = log_level cfg"
  by (rule config_load_induct [of "\<lambda>c. max_connections c = max_connections cfg \<and>
      cache_ttl_seconds c = cache_ttl_seconds cfg \<and> auth_file c = auth_file cfg \<and>
      lb_algorithm c = lb_algorithm cfg \<and> num_backends c = num_backends cfg \<and>
      rate_limit_requests c = rate_limit_requests cfg \<and>
      rate_limit_bandwidth_kbps c = rate_limit_bandwidth_kbps cfg \<and>
      whitelist_count c = whitelist_count cfg \<and> blacklist_count c = blacklist_count cfg \<and>
      log_level c = log_level cfg"])
    (simp_all add: config_set_def set_mode_def set_thread_model_def)

end
