(* ===== verification/Url_Filter.thy ===== *)
theory Url_Filter
  imports Config
begin

text \<open>
  URL and IP filtering, \<^verbatim>\<open>src/filter/filter.c\<close>: the wildcard matcher with its single
  backtracking point, the pattern lists in their 256-byte nodes, and the two checks.
\<close>

subsection \<open>The matcher\<close>

text \<open>The loop of \<open>pattern_match\<close>: \<open>p\<close> and \<open>s\<close> are the rests of the pattern and the
  string, \<open>star\<close> the rest after the last star seen with the string position \<open>ss\<close> from
  which it was last tried.\<close>

function match_loop :: "string \<Rightarrow> string \<Rightarrow> (string \<times> string) option \<Rightarrow> bool" where
  "match_loop p [] star = (dropWhile (\<lambda>c. c = CHR ''*'') p = [])"
| "match_loop p (c # s) star =
     (if p \<noteq> [] \<and> hd p = CHR ''*'' then match_loop (tl p) (c # s) (Some (tl p, c # s))
      else if p \<noteq> [] \<and> (hd p = c \<or> hd p = CHR ''?'') then match_loop (tl p) s star
      else case star of
        Some (p1, ss) \<Rightarrow> match_loop p1 (tl ss) (Some (p1, tl ss))
      | None \<Rightarrow> False)"
  by pat_completeness auto
termination
  by (relation "measures [\<lambda>(p, s, star). max (length s) (case star of None \<Rightarrow> 0 | Some (_, ss) \<Rightarrow> length ss),
      \<lambda>(p, s, star). length p]")
    (auto simp: max_def split: option.splits)

declare match_loop.simps(2) [simp del]

lemma match_loop_step [step_simps]:
  "match_loop (CHR ''*'' # p) (c # s) star = match_loop p (c # s) (Some (p, c # s))"
  "x \<noteq> CHR ''*'' \<Longrightarrow> x = c \<or> x = CHR ''?'' \<Longrightarrow> match_loop (x # p) (c # s) star = match_loop p s star"
  "p = [] \<or> hd p \<noteq> CHR ''*'' \<Longrightarrow> p = [] \<or> hd p \<noteq> c \<and> hd p \<noteq> CHR ''?'' \<Longrightarrow>
     match_loop p (c # s) star =
       (case star of Some (p1, ss) \<Rightarrow> match_loop p1 (tl ss) (Some (p1, tl ss)) | None \<Rightarrow> False)"
  by (auto simp: match_loop.simps(2) [of "_ # _"] match_loop.simps(2) [of p c s star])

definition pattern_match :: "string \<Rightarrow> string \<Rightarrow> bool" where
  "pattern_match pattern str = match_loop pattern str None"

subsection \<open>What a pattern means\<close>

text \<open>A star stands for any sequence, a question mark for any character, every other
  character for itself.\<close>

inductive wild :: "string \<Rightarrow> string \<Rightarrow> bool" where
  wild_end: "wild [] []"
| wild_star: "wild p s \<Longrightarrow> wild (CHR ''*'' # p) (t @ s)"
| wild_char: "x \<noteq> CHR ''*'' \<Longrightarrow> x = c \<or> x = CHR ''?'' \<Longrightarrow> wild p s \<Longrightarrow> wild (x # p) (c # s)"

inductive_cases wild_NilE: "wild [] s"
inductive_cases wild_ConsE: "wild (x # p) s"
inductive_simps wild_Nil [simp]: "wild [] s"

definition one :: "char \<Rightarrow> char \<Rightarrow> bool" where
  "one x c \<longleftrightarrow> x \<noteq> CHR ''*'' \<and> (x = c \<or> x = CHR ''?'')"

lemma wild_star_Nil: "wild (CHR ''*'' # p) [] \<longleftrightarrow> wild p []"
  using wild_star [of p "[]" "[]"] by (auto elim: wild_ConsE)

lemma wild_star_Cons: "wild (CHR ''*'' # p) (c # s) \<longleftrightarrow> wild p (c # s) \<or> wild (CHR ''*'' # p) s"
proof
  assume "wild (CHR ''*'' # p) (c # s)"
  then obtain t s' where s: "c # s = t @ s'" "wild p s'" by (auto elim: wild_ConsE)
  then show "wild p (c # s) \<or> wild (CHR ''*'' # p) s"
    by (cases t) (auto intro: wild_star)
next
  assume "wild p (c # s) \<or> wild (CHR ''*'' # p) s"
  then show "wild (CHR ''*'' # p) (c # s)"
  proof
    assume "wild p (c # s)"
    from wild_star [OF this, of "[]"] show ?thesis by simp
  next
    assume "wild (CHR ''*'' # p) s"
    then obtain t s' where "s = t @ s'" "wild p s'" by (auto elim: wild_ConsE)
    with wild_star [of p s' "c # t"] show ?thesis by simp
  qed
qed

lemma wild_star_append: "wild (CHR ''*'' # p) s \<Longrightarrow> wild (CHR ''*'' # p) (t @ s)"
  by (induction t) (simp_all add: wild_star_Cons)

lemma wild_one: "x \<noteq> CHR ''*'' \<Longrightarrow> wild (x # p) s \<longleftrightarrow> (\<exists>c s'. s = c # s' \<and> one x c \<and> wild p s')"
  by (auto elim!: wild_ConsE intro: wild_char simp: one_def)

lemma wild_seg:
  "list_all (\<lambda>x. x \<noteq> CHR ''*'') seg \<Longrightarrow> wild (seg @ p) s \<Longrightarrow>
     \<exists>s1 s2. s = s1 @ s2 \<and> length s1 = length seg \<and> wild p s2"
proof (induction seg arbitrary: s)
  case Nil
  then show ?case by auto
next
  case (Cons x seg)
  then obtain c s' where s: "s = c # s'" "wild (seg @ p) s'" by (auto simp: wild_one)
  moreover obtain s1 s2 where "s' = s1 @ s2" "length s1 = length seg" "wild p s2"
    using Cons.IH [OF _ s(2)] Cons.prems(1) by auto
  ultimately have "s = (c # s1) @ s2 \<and> length (c # s1) = length (x # seg) \<and> wild p s2" by simp
  then show ?case by blast
qed
lemma wild_empty: "wild p [] \<longleftrightarrow> dropWhile (\<lambda>c. c = CHR ''*'') p = []"
proof (induction p)
  case (Cons x p)
  then show ?case
    by (cases "x = CHR ''*''") (simp_all add: wild_star_Nil wild_one)
qed simp

subsection \<open>The matcher is right\<close>

text \<open>Between the last star and the current position the loop has matched a segment without
  stars.  Then giving up every earlier choice of the star loses nothing: the result is a
  match from here, or a match of the star further on.\<close>

definition retry :: "string \<Rightarrow> string \<Rightarrow> bool" where
  "retry p1 ss \<longleftrightarrow> ss \<noteq> [] \<and> wild (CHR ''*'' # p1) (tl ss)"

lemma retry_suffix:
  assumes "retry (seg @ p) (mid @ s)" "list_all2 one seg mid"
  shows "\<exists>t1 t2. length (t1 @ t2) < length (mid @ s) \<and> wild p t2 \<and> length t1 \<ge> length mid \<and>
    (\<exists>u. mid @ s = u @ t1 @ t2 \<and> u \<noteq> [])"
proof -
  from assms(1) obtain c rest where cr: "mid @ s = c # rest" "wild (CHR ''*'' # seg @ p) rest"
    unfolding retry_def by (cases "mid @ s") (simp_all del: append_is_Nil_conv)
  then obtain u v where uv: "rest = u @ v" "wild (seg @ p) v" by (auto elim: wild_ConsE)
  have "list_all (\<lambda>x. x \<noteq> CHR ''*'') seg"
    using assms(2) by (auto simp: list_all_iff list_all2_conv_all_nth one_def in_set_conv_nth)
  from wild_seg [OF this uv(2)] obtain t1 t2 where
    t: "v = t1 @ t2" "length t1 = length seg" "wild p t2" by blast
  from assms(2) have "length seg = length mid" by (rule list_all2_lengthD)
  with t cr(1) uv(1) show ?thesis
    by (intro exI [of _ t1] exI [of _ t2]) (auto intro!: exI [of _ "c # u"])
qed

lemma suffix_of_tail:
  assumes "mid @ s = u @ t1 @ t2" "length t1 \<ge> length mid"
  shows "\<exists>w. s = w @ t2"
proof -
  have "length mid \<le> length (u @ t1)" using assms(2) by simp
  then have "s = drop (length mid) (u @ t1) @ t2"
    using arg_cong [OF assms(1), of "drop (length mid)"] by simp
  then show ?thesis by blast
qed

lemma match_loop_star:
  "list_all2 one seg mid \<Longrightarrow> p1 = seg @ p \<Longrightarrow> ss = mid @ s \<Longrightarrow>
     match_loop p s (Some (p1, ss)) \<longleftrightarrow> wild p s \<or> retry p1 ss"
proof (induction p s "Some (p1, ss)" arbitrary: p1 ss seg mid rule: match_loop.induct)
  case (1 p)
  have "wild p []" if r: "retry p1 ss"
    using retry_suffix [of seg p mid "[]"] r 1 by (auto simp: retry_def)
  then show ?case by (auto simp: wild_empty)
next
  case (2 p c s)
  show ?case
  proof (cases "p \<noteq> [] \<and> hd p = CHR ''*''")
    case True
    then obtain p' where p: "p = CHR ''*'' # p'" by (cases p) auto
    have "match_loop p (c # s) (Some (p1, ss)) \<longleftrightarrow> wild p' (c # s) \<or> retry p' (c # s)"
      using 2(1) [OF True, of "[]" "[]"] p by (simp add: match_loop_step(1))
    also have "\<dots> \<longleftrightarrow> wild p (c # s)" by (simp add: p wild_star_Cons retry_def)
    finally have loop: "match_loop p (c # s) (Some (p1, ss)) \<longleftrightarrow> wild p (c # s)" .
    have "wild p (c # s)" if "retry p1 ss"
    proof -
      from retry_suffix [of seg p mid "c # s"] that 2(4-6) obtain t1 t2 u where
        "wild p t2" "length t1 \<ge> length mid" "mid @ c # s = u @ t1 @ t2" by auto
      with suffix_of_tail [of mid "c # s" u t1 t2] p show ?thesis
        by (auto intro: wild_star_append)
    qed
    with loop show ?thesis by blast
  next
    case nostar: False
    show ?thesis
    proof (cases "p \<noteq> [] \<and> (hd p = c \<or> hd p = CHR ''?'')")
      case True
      then obtain x p' where p: "p = x # p'" "one x c"
        using nostar by (cases p) (auto simp: one_def)
      then have "match_loop p (c # s) (Some (p1, ss)) \<longleftrightarrow> wild p' s \<or> retry p1 ss"
        using 2(2) [OF nostar True, of "seg @ [x]" "mid @ [c]"] 2(4-6)
        by (simp add: list_all2_appendI match_loop_step(2) one_def)
      then show ?thesis using p by (simp add: wild_one one_def)
    next
      case False
      have no: "\<not> wild p (c # s)"
        using False nostar by (cases p) (auto simp: wild_one one_def)
      have "match_loop p (c # s) (Some (p1, ss)) \<longleftrightarrow> match_loop p1 (tl ss) (Some (p1, tl ss))"
        using nostar False match_loop_step(3) [of p c s "Some (p1, ss)"] by auto
      also have "\<dots> \<longleftrightarrow> wild p1 (tl ss) \<or> retry p1 (tl ss)"
        using 2(3) [OF nostar False refl refl, of "[]" "[]"] by simp
      also have "\<dots> \<longleftrightarrow> wild (CHR ''*'' # p1) (tl ss)"
        by (cases "tl ss") (simp_all add: retry_def wild_star_Nil wild_star_Cons)
      also have "\<dots> \<longleftrightarrow> retry p1 ss" using 2(6) by (simp add: retry_def)
      finally show ?thesis using no by blast
    qed
  qed
qed

lemma match_loop_start: "match_loop p s None \<longleftrightarrow> wild p s"
proof (induction p s "None :: (string \<times> string) option" rule: match_loop.induct)
  case (1 p)
  show ?case by (simp add: wild_empty)
next
  case (2 p c s)
  show ?case
  proof (cases p)
    case Nil
    then show ?thesis by (simp add: match_loop_step(3))
  next
    case (Cons x p')
    show ?thesis
    proof (cases "x = CHR ''*''")
      case True
      have "match_loop p' (c # s) (Some (p', c # s)) \<longleftrightarrow> wild p' (c # s) \<or> retry p' (c # s)"
        by (rule match_loop_star [of "[]" "[]"]) simp_all
      with Cons True show ?thesis by (simp add: retry_def wild_star_Cons match_loop_step(1))
    next
      case nostar: False
      show ?thesis
      proof (cases "one x c")
        case True
        then have "match_loop p' s None \<longleftrightarrow> wild p' s" using 2 Cons nostar by (auto simp: one_def)
        with Cons True show ?thesis by (simp add: match_loop_step(2) wild_one one_def)
      next
        case False
        with Cons nostar show ?thesis by (simp add: match_loop_step(3) wild_one one_def)
      qed
    qed
  qed
qed

subsection \<open>Pattern lists\<close>

text \<open>A node is its 256-byte array; a list has the newest node first.  \<open>malloc\<close> answers
  \<^const>\<open>None\<close> or the bytes it found there: the array is not cleared.\<close>

type_synonym pattern_node = "char list"

definition PATTERN_SIZE :: nat where "PATTERN_SIZE = 256"

record filter_state =
  url_blacklist :: "pattern_node list"
  url_whitelist :: "pattern_node list"
  ip_blacklist :: "pattern_node list"
  ip_whitelist :: "pattern_node list"

definition filter_none :: filter_state where
  "filter_none = \<lparr>url_blacklist = [], url_whitelist = [], ip_blacklist = [], ip_whitelist = []\<rparr>"

definition add_pattern :: "char list option \<Rightarrow> pattern_node list \<Rightarrow> string \<Rightarrow> pattern_node list" where
  "add_pattern m list pattern =
     (case m of None \<Rightarrow> list | Some junk \<Rightarrow> strncpy junk pattern (PATTERN_SIZE - 1) # list)"

text \<open>Reading a node that holds no terminator runs past the array: \<^const>\<open>None\<close>.\<close>

fun check_pattern_list :: "pattern_node list \<Rightarrow> string \<Rightarrow> bool option" where
  "check_pattern_list [] str = Some False"
| "check_pattern_list (node # nodes) str =
     (case cstr node of
        None \<Rightarrow> None
      | Some pattern \<Rightarrow>
          if pattern_match pattern str then Some True else check_pattern_list nodes str)"

text \<open>The \<open>k\<close>-th call of \<open>malloc\<close> answers \<open>m k\<close>.\<close>

fun add_all :: "(nat \<Rightarrow> char list option) \<Rightarrow> nat \<Rightarrow> string list \<Rightarrow> pattern_node list \<Rightarrow> pattern_node list" where
  "add_all m k [] list = list"
| "add_all m k (p # ps) list = add_all m (Suc k) ps (add_pattern (m k) list p)"

definition default_patterns :: "string list" where
  "default_patterns = [''*malware*'', ''*phishing*'', ''*tracking*'', ''*.ads.*'']"

definition filter_init :: "(nat \<Rightarrow> char list option) \<Rightarrow> proxy_config \<Rightarrow> filter_state \<Rightarrow> c_int \<times> filter_state" where
  "filter_init m cfg st =
     (let bs = take (nat (blacklist_count cfg)) (blacklist_ips cfg);
          ws = take (nat (whitelist_count cfg)) (whitelist_ips cfg)
      in (0, st\<lparr>url_blacklist := add_all m 0 default_patterns (url_blacklist st),
                ip_blacklist := add_all m 4 bs (ip_blacklist st),
                ip_whitelist := add_all m (4 + length bs) ws (ip_whitelist st)\<rparr>))"

definition filter_check_url :: "filter_state \<Rightarrow> string option \<Rightarrow> c_int option" where
  "filter_check_url st url =
     (case url of None \<Rightarrow> Some (-1) | Some u \<Rightarrow>
       (case (if url_whitelist st \<noteq> [] then check_pattern_list (url_whitelist st) u else Some False) of
          None \<Rightarrow> None
        | Some True \<Rightarrow> Some 0
        | Some False \<Rightarrow>
            (case (if url_blacklist st \<noteq> [] then check_pattern_list (url_blacklist st) u else Some False) of
               None \<Rightarrow> None
             | Some True \<Rightarrow> Some (-1)
             | Some False \<Rightarrow> Some 0)))"

definition filter_check_ip :: "filter_state \<Rightarrow> string option \<Rightarrow> c_int option" where
  "filter_check_ip st ip =
     (case ip of None \<Rightarrow> Some (-1) | Some i \<Rightarrow>
       (if ip_whitelist st \<noteq> [] then
          (case check_pattern_list (ip_whitelist st) i of
             None \<Rightarrow> None | Some ok \<Rightarrow> if \<not> ok then Some (-1) else Some 0)
        else
          (case (if ip_blacklist st \<noteq> [] then check_pattern_list (ip_blacklist st) i else Some False) of
             None \<Rightarrow> None
           | Some True \<Rightarrow> Some (-1)
           | Some False \<Rightarrow> Some 0)))"

definition filter_cleanup :: "filter_state \<Rightarrow> filter_state" where
  "filter_cleanup st = st\<lparr>url_blacklist := [], url_whitelist := [], ip_blacklist := [], ip_whitelist := []\<rparr>"

subsection \<open>The lists hold the patterns they were given\<close>

text \<open>\<open>patterns nodes\<close> are the patterns of a list whose arrays are all terminated.\<close>

definition patterns :: "pattern_node list \<Rightarrow> string list option" where
  "patterns nodes = those (map cstr nodes)"

lemma patterns_simps [simp]:
  "patterns [] = Some []"
  "patterns (n # ns) = (case cstr n of None \<Rightarrow> None | Some p \<Rightarrow> map_option ((#) p) (patterns ns))"
  by (simp_all add: patterns_def split: option.split)

lemma check_patterns:
  "patterns nodes = Some ps \<Longrightarrow> check_pattern_list nodes str = Some (\<exists>p\<in>set ps. wild p str)"
  by (induction nodes arbitrary: ps) (auto simp: pattern_match_def match_loop_start split: option.splits)

lemma patterns_add:
  assumes "c_string p" "length p < PATTERN_SIZE - 1" "patterns list = Some ps"
  shows "patterns (add_pattern (Some junk) list p) = Some (p # ps)"
  using assms by (simp add: add_pattern_def cstr_strncpy_short)

lemma patterns_add_all:
  assumes "\<forall>p\<in>set ps. c_string p \<and> length p < PATTERN_SIZE - 1" "\<forall>k. m k \<noteq> None"
    and "patterns list = Some qs"
  shows "patterns (add_all m k ps list) = Some (rev ps @ qs)"
  using assms(1,3)
proof (induction ps arbitrary: k list qs)
  case (Cons p ps)
  obtain junk where "m k = Some junk" using assms(2) by blast
  with Cons.prems have "patterns (add_pattern (m k) list p) = Some (p # qs)"
    by (simp add: patterns_add)
  with Cons show ?case by simp
qed simp

lemma wild_contains:
  assumes "list_all (\<lambda>x. x \<noteq> CHR ''*'' \<and> x \<noteq> CHR ''?'') w"
  shows "wild (CHR ''*'' # w @ ''*'') s \<longleftrightarrow> (\<exists>u v. s = u @ w @ v)"
proof -
  have word: "wild (w @ p) t \<longleftrightarrow> (\<exists>r. t = w @ r \<and> wild p r)" for p t
    using assms by (induction w arbitrary: t) (auto simp: wild_one one_def)
  have any: "wild ''*'' r" for r using wild_star [OF wild_end, of r] by simp
  have "wild (CHR ''*'' # w @ ''*'') s \<longleftrightarrow> (\<exists>u t. s = u @ t \<and> wild (w @ ''*'') t)"
  proof
    assume "wild (CHR ''*'' # w @ ''*'') s"
    then show "\<exists>u t. s = u @ t \<and> wild (w @ ''*'') t"
      by (rule wild_ConsE) auto
  next
    assume "\<exists>u t. s = u @ t \<and> wild (w @ ''*'') t"
    then show "wild (CHR ''*'' # w @ ''*'') s" using wild_star by blast
  qed
  then show ?thesis by (auto simp: word any)
qed

subsection \<open>Properties\<close>

text \<open>C11: the matcher decides the meaning of wildcard patterns.  The loop of
  \<open>pattern_match\<close>, which remembers only the last star, accepts exactly the strings that
  the pattern denotes.\<close>

theorem pattern_match_correct: "pattern_match pattern str \<longleftrightarrow> wild pattern str"
  by (simp add: pattern_match_def match_loop_start)

subsection \<open>What initialisation leaves\<close>

lemma filter_init_lists:
  assumes "\<forall>k. m k \<noteq> None" "filter_init m cfg filter_none = (r, st)"
    and "\<forall>p\<in>set (take (nat (blacklist_count cfg)) (blacklist_ips cfg) @
      take (nat (whitelist_count cfg)) (whitelist_ips cfg)). c_string p \<and> length p < PATTERN_SIZE - 1"
  shows "r = 0" "patterns (url_whitelist st) = Some []"
    and "patterns (ip_blacklist st) = Some (rev (take (nat (blacklist_count cfg)) (blacklist_ips cfg)))"
    and "patterns (ip_whitelist st) = Some (rev (take (nat (whitelist_count cfg)) (whitelist_ips cfg)))"
proof -
  note st = assms(2) [unfolded filter_init_def filter_none_def Let_def, simplified]
  from st show "r = 0" by simp
  from st show "patterns (url_whitelist st) = Some []" by auto
  have "patterns (add_all m k ps []) = Some (rev ps @ [])"
    if "\<forall>p\<in>set ps. c_string p \<and> length p < PATTERN_SIZE - 1" for k ps
    using patterns_add_all [OF that assms(1), of "[]" "[]"] by simp
  with st assms(3)
  show "patterns (ip_blacklist st) = Some (rev (take (nat (blacklist_count cfg)) (blacklist_ips cfg)))"
    and "patterns (ip_whitelist st) = Some (rev (take (nat (whitelist_count cfg)) (whitelist_ips cfg)))"
    by auto
qed

lemma filter_init_urls:
  assumes "\<forall>k. m k \<noteq> None" "filter_init m cfg filter_none = (r, st)"
  shows "url_whitelist st = []" "patterns (url_blacklist st) = Some (rev default_patterns)"
proof -
  note st = assms(2) [unfolded filter_init_def filter_none_def Let_def, simplified]
  from st show "url_whitelist st = []" by auto
  have "patterns (add_all m 0 default_patterns []) = Some (rev default_patterns @ [])"
    by (rule patterns_add_all [OF _ assms(1)])
      (simp_all add: default_patterns_def PATTERN_SIZE_def c_string_def)
  with st show "patterns (url_blacklist st) = Some (rev default_patterns)" by auto
qed

lemma check_list_if:
  "patterns nodes = Some ps \<Longrightarrow>
     (if nodes \<noteq> [] then check_pattern_list nodes s else Some False) = Some (\<exists>p\<in>set ps. wild p s)"
  using check_patterns [of nodes ps s] by auto

lemma filter_check_words:
  assumes "\<forall>k. m k \<noteq> None" "filter_init m cfg filter_none = (r, st)"
  shows "filter_check_url st (Some url) =
    Some (if \<exists>w\<in>{''malware'', ''phishing'', ''tracking'', ''.ads.''}. \<exists>u v. url = u @ w @ v then -1 else 0)"
proof -
  note urls = filter_init_urls [OF assms]
  have "filter_check_url st (Some url) =
      Some (if \<exists>p\<in>set default_patterns. wild p url then -1 else 0)"
    using check_list_if [OF urls(2), of url] urls(1) by (simp add: filter_check_url_def)
  also have "(\<exists>p\<in>set default_patterns. wild p url) \<longleftrightarrow>
      (\<exists>w\<in>{''malware'', ''phishing'', ''tracking'', ''.ads.''}. \<exists>u v. url = u @ w @ v)"
    using wild_contains [of "''malware''" url] wild_contains [of "''phishing''" url]
      wild_contains [of "''tracking''" url] wild_contains [of "''.ads.''" url]
    by (simp add: default_patterns_def)
  finally show ?thesis .
qed

text \<open>C12: what is blocked.  After \<open>filter_init\<close> on an empty filter, with allocations that
  succeed, a URL is refused exactly when one of the four built-in words occurs in it.\<close>

theorem filter_blocks_exactly:
  assumes "\<forall>k. m k \<noteq> None" "filter_init m cfg filter_none = (r, st)"
  shows "filter_check_url st (Some url) =
    Some (if \<exists>w\<in>{''malware'', ''phishing'', ''tracking'', ''.ads.''}. \<exists>u v. url = u @ w @ v then -1 else 0)"
  using assms by (rule filter_check_words)

theorem filter_blocks_exactly_witness:
  "filter_check_url (snd (filter_init (\<lambda>_. Some (replicate 256 NUL)) config_set_defaults filter_none))
     (Some ''http://x.ads.com/'') = Some (-1)"
proof -
  have "''http://x.ads.com/'' = ''http://x'' @ ''.ads.'' @ ''com/''" by simp
  then have "\<exists>w\<in>{''malware'', ''phishing'', ''tracking'', ''.ads.''}. \<exists>u v. ''http://x.ads.com/'' = u @ w @ v"
    by blast
  then show ?thesis
    using filter_blocks_exactly [of "\<lambda>_. Some (replicate 256 NUL)" config_set_defaults,
        OF _ surjective_pairing, of "''http://x.ads.com/''"]
    by (simp only: if_True option.distinct not_False_eq_True simp_thms)
qed

text \<open>The address policy.  A whitelist, when there is one, decides alone: an address
  is admitted exactly when it matches one of its patterns, whatever the blacklist says;
  without a whitelist it is refused exactly when it matches the blacklist.\<close>

theorem filter_ip_policy:
  assumes "\<forall>k. m k \<noteq> None" "filter_init m cfg filter_none = (r, st)"
    and "bs = take (nat (blacklist_count cfg)) (blacklist_ips cfg)"
    and "ws = take (nat (whitelist_count cfg)) (whitelist_ips cfg)"
    and "\<forall>p\<in>set (bs @ ws). c_string p \<and> length p < PATTERN_SIZE - 1"
  shows "filter_check_ip st (Some ip) =
    Some (if ws \<noteq> [] then (if \<exists>p\<in>set ws. wild p ip then 0 else -1)
          else (if \<exists>p\<in>set bs. wild p ip then -1 else 0))"
proof -
  note init = filter_init_lists [OF assms(1,2), folded assms(3,4), OF assms(5)]
  have "ip_whitelist st \<noteq> [] \<longleftrightarrow> ws \<noteq> []"
    using init(4) by (cases "ip_whitelist st") (auto split: option.splits)
  with check_patterns [OF init(4), of ip] check_list_if [OF init(3), of ip]
  show ?thesis by (simp add: filter_check_ip_def)
qed

theorem filter_ip_policy_witness:
  "filter_check_ip (snd (filter_init (\<lambda>_. Some (replicate 256 NUL))
       (config_set_defaults\<lparr>whitelist_ips := [''10.*''], whitelist_count := 1,
          blacklist_ips := [''10.0.0.7''], blacklist_count := 1\<rparr>) filter_none))
     (Some ''10.0.0.7'') = Some 0"
proof -
  have "wild ''*'' ''0.0.7''" using wild_star [OF wild_end, of "''0.0.7''"] by simp
  then have "wild ''10.*'' ''10.0.0.7''" by (simp add: wild_one one_def)
  then show ?thesis
    using filter_ip_policy [of "\<lambda>_. Some (replicate 256 NUL)"
        "config_set_defaults\<lparr>whitelist_ips := [''10.*''], whitelist_count := 1,
          blacklist_ips := [''10.0.0.7''], blacklist_count := 1\<rparr>",
        OF _ surjective_pairing refl refl, of "''10.0.0.7''"]
    by (simp add: c_string_def PATTERN_SIZE_def)
qed

text \<open>A pattern of 255 characters or more is cut without a terminator: the node it
  makes can be read as a string only if it was shorter than the array's last byte, or
  \<open>malloc\<close> happened to leave a zero there.\<close>

theorem add_pattern_terminated:
  assumes "c_string p" "length junk = PATTERN_SIZE" "add_pattern (Some junk) [] p = [node]"
  shows "cstr node \<noteq> None \<longleftrightarrow> length p < PATTERN_SIZE - 1 \<or> junk ! 255 = NUL"
proof (cases "length p < PATTERN_SIZE - 1")
  case True
  with assms show ?thesis by (auto simp: add_pattern_def cstr_strncpy_short)
next
  case False
  have "drop 255 junk = [junk ! 255]"
    using assms(2) by (simp add: PATTERN_SIZE_def Cons_nth_drop_Suc [symmetric])
  then have "cstr (drop 255 junk) \<noteq> None \<longleftrightarrow> junk ! 255 = NUL" by (simp add: cstr_def)
  with False assms show ?thesis
    by (auto simp: add_pattern_def cstr_strncpy_long PATTERN_SIZE_def)
qed

theorem add_pattern_terminated_witness:
  "cstr (hd (add_pattern (Some (replicate 256 (CHR ''x''))) [] (replicate 300 (CHR ''a'')))) = None"
  using add_pattern_terminated [of "replicate 300 (CHR ''a'')" "replicate 256 (CHR ''x'')"
      "hd (add_pattern (Some (replicate 256 (CHR ''x''))) [] (replicate 300 (CHR ''a'')))"]
  by (simp add: c_string_def PATTERN_SIZE_def add_pattern_def)

end
