(* ===== verification/Base64.thy ===== *)
theory Base64
  imports C_String
begin

unbundle bit_operations_syntax

text \<open>
  The base64 decoder of \<^verbatim>\<open>src/auth/auth.c\<close>, the encoding of RFC 4648, and the facts
  that relate them: what was encoded is decoded, and the output stays inside its buffer.
\<close>

subsection \<open>The decoder\<close>

definition base64_decode_table :: "u8 list" where
  "base64_decode_table =
     [64, 64, 64, 64, 64, 64, 64, 64, 64, 64, 64, 64, 64, 64, 64, 64,
      64, 64, 64, 64, 64, 64, 64, 64, 64, 64, 64, 64, 64, 64, 64, 64,
      64, 64, 64, 64, 64, 64, 64, 64, 64, 64, 64, 62, 64, 64, 64, 63,
      52, 53, 54, 55, 56, 57, 58, 59, 60, 61, 64, 64, 64, 64, 64, 64,
      64,  0,  1,  2,  3,  4,  5,  6,  7,  8,  9, 10, 11, 12, 13, 14,
      15, 16, 17, 18, 19, 20, 21, 22, 23, 24, 25, 64, 64, 64, 64, 64,
      64, 26, 27, 28, 29, 30, 31, 32, 33, 34, 35, 36, 37, 38, 39, 40,
      41, 42, 43, 44, 45, 46, 47, 48, 49, 50, 51, 64, 64, 64, 64, 64,
      64, 64, 64, 64, 64, 64, 64, 64, 64, 64, 64, 64, 64, 64, 64, 64,
      64, 64, 64, 64, 64, 64, 64, 64, 64, 64, 64, 64, 64, 64, 64, 64,
      64, 64, 64, 64, 64, 64, 64, 64, 64, 64, 64, 64, 64, 64, 64, 64,
      64, 64, 64, 64, 64, 64, 64, 64, 64, 64, 64, 64, 64, 64, 64, 64,
      64, 64, 64, 64, 64, 64, 64, 64, 64, 64, 64, 64, 64, 64, 64, 64,
      64, 64, 64, 64, 64, 64, 64, 64, 64, 64, 64, 64, 64, 64, 64, 64,
      64, 64, 64, 64, 64, 64, 64, 64, 64, 64, 64, 64, 64, 64, 64, 64,
      64, 64, 64, 64, 64, 64, 64, 64, 64, 64, 64, 64, 64, 64, 64, 64]"

text \<open>The loop of \<open>base64_decode\<close> with the groups collected in \<open>buf\<close> and the bytes written
  to \<open>output\<close>; \<^const>\<open>None\<close> is the return of -1.\<close>

fun base64_loop :: "nat \<Rightarrow> string \<Rightarrow> u8 list \<Rightarrow> u8 list \<Rightarrow> (u8 list \<times> u8 list) option" where
  "base64_loop output_size [] buf out = Some (buf, out)"
| "base64_loop output_size (ch # input) buf out =
     (if ch = CHR ''='' then Some (buf, out)
      else let c = base64_decode_table ! code ch in
        if c = 64 then base64_loop output_size input buf out
        else let buf = buf @ [c] in
          if length buf = 4 then
            (if length out + 3 \<ge> output_size then None
             else base64_loop output_size input []
               (out @ [push_bit 2 (buf ! 0) OR drop_bit 4 (buf ! 1),
                       push_bit 4 (buf ! 1) OR drop_bit 2 (buf ! 2),
                       push_bit 6 (buf ! 2) OR (buf ! 3)]))
          else base64_loop output_size input buf out)"

text \<open>What follows the loop: the last, incomplete group.\<close>

definition base64_flush :: "nat \<Rightarrow> (u8 list \<times> u8 list) option \<Rightarrow> u8 list option" where
  "base64_flush output_size r =
     (case r of None \<Rightarrow> None
      | Some (buf, out) \<Rightarrow>
          if length buf > 0 \<and> length out + length buf \<ge> output_size then None
          else Some (out
            @ (if length buf \<ge> 2 then [push_bit 2 (buf ! 0) OR drop_bit 4 (buf ! 1)] else [])
            @ (if length buf \<ge> 3 then [push_bit 4 (buf ! 1) OR drop_bit 2 (buf ! 2)] else [])))"

text \<open>The decoder: the bytes before the terminator it writes.\<close>

definition base64_decode :: "string \<Rightarrow> nat \<Rightarrow> u8 list option" where
  "base64_decode input output_size = base64_flush output_size (base64_loop output_size input [] [])"

subsection \<open>The standard encoding and the decoder's bounds\<close>

text \<open>The encoding of RFC 4648, with padding.\<close>

definition base64_alphabet :: string where
  "base64_alphabet = ''ABCDEFGHIJKLMNOPQRSTUVWXYZabcdefghijklmnopqrstuvwxyz0123456789+/''"

definition b64 :: "u8 \<Rightarrow> char" where
  "b64 w = base64_alphabet ! unat w"

fun base64_encode :: "u8 list \<Rightarrow> string" where
  "base64_encode [] = []"
| "base64_encode [a] = [b64 (drop_bit 2 a), b64 (push_bit 4 (take_bit 2 a)), CHR ''='', CHR ''='']"
| "base64_encode [a, b] =
     [b64 (drop_bit 2 a), b64 (push_bit 4 (take_bit 2 a) OR drop_bit 4 b), b64 (push_bit 2 (take_bit 4 b)), CHR ''='']"
| "base64_encode (a # b # c # r) =
     [b64 (drop_bit 2 a), b64 (push_bit 4 (take_bit 2 a) OR drop_bit 4 b),
      b64 (push_bit 2 (take_bit 4 b) OR drop_bit 6 c), b64 (take_bit 6 c)] @ base64_encode r"

lemma table_entries:
  "list_all (\<lambda>n. base64_decode_table ! code (base64_alphabet ! n) = of_nat n \<and>
     base64_alphabet ! n \<noteq> CHR ''='' \<and> \<not> is_space (base64_alphabet ! n)) [0..<64]"
  by (simp add: base64_decode_table_def base64_alphabet_def code_def is_space_def upt_rec)

lemma b64_table:
  assumes "w < (64::u8)"
  shows "base64_decode_table ! code (b64 w) = w" "b64 w \<noteq> CHR ''=''" "\<not> is_space (b64 w)"
proof -
  have "unat w \<in> set [0..<64]" using assms by (simp add: word_less_nat_alt)
  with table_entries have "base64_decode_table ! code (b64 w) = of_nat (unat w) \<and>
      b64 w \<noteq> CHR ''='' \<and> \<not> is_space (b64 w)"
    unfolding list_all_iff b64_def by blast
  then show "base64_decode_table ! code (b64 w) = w" "b64 w \<noteq> CHR ''=''" "\<not> is_space (b64 w)"
    by simp_all
qed

lemma sextet_bounds:
  fixes a b :: u8
  shows "drop_bit 2 a < 64" "push_bit 4 (take_bit 2 a) < 64" "push_bit 4 (take_bit 2 a) OR drop_bit 4 b < 64"
    "push_bit 2 (take_bit 4 a) < 64" "push_bit 2 (take_bit 4 a) OR drop_bit 6 b < 64" "take_bit 6 a < 64"
proof -
  have six: "w < 64" if "\<And>n. 6 \<le> n \<Longrightarrow> \<not> bit w n" for w :: u8
  proof -
    have "take_bit 6 w = w"
      using that by (intro bit_word_eqI) (metis bit_take_bit_iff not_less)
    then have "unat w = take_bit 6 (unat w)" by (metis unsigned_take_bit_eq)
    then have "unat w < 64" using take_bit_nat_less_exp [of 6 "unat w"] by simp
    then show ?thesis by (simp add: word_less_nat_alt)
  qed
  show "drop_bit 2 a < 64" "push_bit 4 (take_bit 2 a) < 64" "push_bit 4 (take_bit 2 a) OR drop_bit 4 b < 64"
    "push_bit 2 (take_bit 4 a) < 64" "push_bit 2 (take_bit 4 a) OR drop_bit 6 b < 64" "take_bit 6 a < 64"
    by (rule six, auto simp: bit_simps simp del: add_2_eq_Suc add_2_eq_Suc' dest!: bit_imp_le_length)+
qed

lemma sextet_join:
  fixes a b c :: u8
  shows "push_bit 2 (drop_bit 2 a) OR drop_bit 4 (push_bit 4 (take_bit 2 a)) = a"
    and "push_bit 4 (drop_bit 4 b) OR drop_bit 2 (push_bit 2 (take_bit 4 b)) = b"
    and "push_bit 6 (drop_bit 6 c) OR take_bit 6 c = c"
    and "push_bit 2 (drop_bit 2 a) OR drop_bit 4 (push_bit 4 (take_bit 2 a) OR drop_bit 4 b) = a"
    and "push_bit 4 (push_bit 4 (take_bit 2 a) OR drop_bit 4 b) OR drop_bit 2 (push_bit 2 (take_bit 4 b)) = b"
    and "push_bit 4 (push_bit 4 (take_bit 2 a) OR drop_bit 4 b) OR drop_bit 2 (push_bit 2 (take_bit 4 b) OR drop_bit 6 c) = b"
    and "push_bit 6 (push_bit 2 (take_bit 4 b) OR drop_bit 6 c) OR (take_bit 6 c) = c"
proof -
  show "push_bit 2 (drop_bit 2 a) OR drop_bit 4 (push_bit 4 (take_bit 2 a)) = a"
  proof (rule bit_word_eqI)
    fix n assume "n < LENGTH(8)"
    then show "bit (push_bit 2 (drop_bit 2 a) OR drop_bit 4 (push_bit 4 (take_bit 2 a))) n = bit a n"
      by (cases "n < 2") (auto simp: bit_simps simp del: add_2_eq_Suc add_2_eq_Suc')
  qed
  show "push_bit 4 (drop_bit 4 b) OR drop_bit 2 (push_bit 2 (take_bit 4 b)) = b"
  proof (rule bit_word_eqI)
    fix n assume "n < LENGTH(8)"
    then show "bit (push_bit 4 (drop_bit 4 b) OR drop_bit 2 (push_bit 2 (take_bit 4 b))) n = bit b n"
      by (cases "n < 4") (auto simp: bit_simps simp del: add_2_eq_Suc add_2_eq_Suc')
  qed
  show "push_bit 6 (drop_bit 6 c) OR take_bit 6 c = c"
  proof (rule bit_word_eqI)
    fix n assume "n < LENGTH(8)"
    then show "bit (push_bit 6 (drop_bit 6 c) OR take_bit 6 c) n = bit c n"
      by (cases "n < 6") (auto simp: bit_simps)
  qed
  show "push_bit 2 (drop_bit 2 a) OR drop_bit 4 (push_bit 4 (take_bit 2 a) OR drop_bit 4 b) = a"
  proof (rule bit_word_eqI)
    fix n assume n: "n < LENGTH(8)"
    have "\<not> bit b (4 + (4 + n))" by (auto dest!: bit_imp_le_length)
    with n show "bit (push_bit 2 (drop_bit 2 a) OR drop_bit 4 (push_bit 4 (take_bit 2 a) OR drop_bit 4 b)) n = bit a n"
      by (cases "n < 2") (auto simp: bit_simps simp del: add_2_eq_Suc add_2_eq_Suc' dest!: bit_imp_le_length)
  qed
  show "push_bit 4 (push_bit 4 (take_bit 2 a) OR drop_bit 4 b) OR drop_bit 2 (push_bit 2 (take_bit 4 b)) = b"
  proof (rule bit_word_eqI)
    fix n assume "n < LENGTH(8)"
    then show "bit (push_bit 4 (push_bit 4 (take_bit 2 a) OR drop_bit 4 b) OR drop_bit 2 (push_bit 2 (take_bit 4 b))) n = bit b n"
      by (cases "n < 4") (auto simp: bit_simps simp del: add_2_eq_Suc add_2_eq_Suc' dest!: bit_imp_le_length)
  qed
  show "push_bit 4 (push_bit 4 (take_bit 2 a) OR drop_bit 4 b) OR drop_bit 2 (push_bit 2 (take_bit 4 b) OR drop_bit 6 c) = b"
  proof (rule bit_word_eqI)
    fix n assume "n < LENGTH(8)"
    then show "bit (push_bit 4 (push_bit 4 (take_bit 2 a) OR drop_bit 4 b) OR drop_bit 2 (push_bit 2 (take_bit 4 b) OR drop_bit 6 c)) n = bit b n"
      by (cases "n < 4") (auto simp: bit_simps simp del: add_2_eq_Suc add_2_eq_Suc' dest!: bit_imp_le_length)
  qed
  show "push_bit 6 (push_bit 2 (take_bit 4 b) OR drop_bit 6 c) OR (take_bit 6 c) = c"
  proof (rule bit_word_eqI)
    fix n assume "n < LENGTH(8)"
    then show "bit (push_bit 6 (push_bit 2 (take_bit 4 b) OR drop_bit 6 c) OR (take_bit 6 c)) n = bit c n"
      by (cases "n < 6") (auto simp: bit_simps simp del: add_2_eq_Suc add_2_eq_Suc' dest!: bit_imp_le_length)
  qed
qed

declare base64_loop.simps(2) [simp del]

lemma base64_char:
  "w < 64 \<Longrightarrow> length buf < 3 \<Longrightarrow> base64_loop sz (b64 w # s) buf out = base64_loop sz s (buf @ [w]) out"
  "w < 64 \<Longrightarrow> length out + 3 < sz \<Longrightarrow>
     base64_loop sz (b64 w # s) [x, y, z] out =
       base64_loop sz s [] (out @ [push_bit 2 x OR drop_bit 4 y, push_bit 4 y OR drop_bit 2 z, push_bit 6 z OR w])"
  "base64_loop sz (CHR ''='' # s) buf out = Some (buf, out)"
  using b64_table [of w] by (auto simp: base64_loop.simps Let_def)

text \<open>Text that adds nothing to what was decoded: no character of the alphabet up to the
  next equals sign.\<close>

definition quiet :: "string \<Rightarrow> bool" where
  "quiet s \<longleftrightarrow> list_all (\<lambda>c. base64_decode_table ! code c = 64) (takeWhile (\<lambda>c. c \<noteq> CHR ''='') s)"

lemma base64_quiet: "quiet s \<Longrightarrow> base64_loop sz s buf out = Some (buf, out)"
  by (induction s) (auto simp: quiet_def base64_loop.simps Let_def split: if_splits)

lemma base64_loop_encode:
  "length out + length bs + 1 < sz \<Longrightarrow> (length bs mod 3 = 0 \<longrightarrow> quiet rest) \<Longrightarrow>
     base64_flush sz (base64_loop sz (base64_encode bs @ rest) [] out) = Some (out @ bs)"
proof (induction bs arbitrary: out rule: base64_encode.induct)
  case 1
  then show ?case by (simp add: base64_quiet base64_flush_def)
next
  case (2 a)
  then show ?case by (simp add: base64_char sextet_bounds base64_flush_def sextet_join)
next
  case (3 a b)
  then show ?case by (simp add: base64_char sextet_bounds base64_flush_def sextet_join)
next
  case (4 a b c r)
  then have "length (out @ [a, b, c]) + length r + 1 < sz" "length r mod 3 = 0 \<longrightarrow> quiet rest"
    by (simp_all add: mod_Suc)
  with 4 show ?case by (simp add: base64_char sextet_bounds sextet_join)
qed

lemma base64_decode_encode:
  "length bs + 1 < sz \<Longrightarrow> (length bs mod 3 = 0 \<longrightarrow> quiet rest) \<Longrightarrow>
     base64_decode (base64_encode bs @ rest) sz = Some bs"
  using base64_loop_encode [of "[]" bs sz rest] by (simp add: base64_decode_def)

lemma base64_loop_bound:
  "base64_loop sz s buf out = Some (buf', out') \<Longrightarrow> length buf < 4 \<Longrightarrow> length out < sz \<Longrightarrow>
     length buf' < 4 \<and> length out' < sz"
  by (induction sz s buf out rule: base64_loop.induct)
    (auto simp: base64_loop.simps Let_def split: if_splits)

lemma base64_decode_bound:
  assumes "base64_decode s sz = Some bs" "0 < sz"
  shows "length bs < sz"
proof -
  from assms(1) obtain buf out where
    l: "base64_loop sz s [] [] = Some (buf, out)" and f: "base64_flush sz (Some (buf, out)) = Some bs"
    by (auto simp: base64_decode_def base64_flush_def split: option.splits)
  from base64_loop_bound [OF l] assms(2) have "length out < sz" by simp
  with f show ?thesis by (auto simp: base64_flush_def split: if_splits)
qed

end
