(* ===== verification/Auth.thy ===== *)
theory Auth
  imports Proxy_Types Base64 Interfaces
begin

text \<open>
  Authentication, \<^verbatim>\<open>src/auth/auth.c\<close>: the credential list read
  from a file, the check of a name and a password, and the parser of a Basic header (its base64 decoder
  is in theory \<open>Base64\<close>).  The
  credential list has the newest entry first; an entry is its two 128-byte arrays, as
  \<open>malloc\<close> and \<open>strncpy\<close> leave them.
\<close>

definition NAME_SIZE :: nat where "NAME_SIZE = 128"

record credentials =
  username :: "char list"
  password :: "char list"

subsection \<open>The credential list\<close>

text \<open>An allocation answers \<^const>\<open>None\<close> or an entry with whatever the memory held.  The
  default user is written with \<open>strcpy\<close> and replaces the whole list.\<close>

definition strcpy_into :: "char list \<Rightarrow> string \<Rightarrow> char list" where
  "strcpy_into b s = s @ NUL # drop (length s + 1) b"

definition default_user :: "credentials option \<Rightarrow> credentials list \<Rightarrow> credentials list" where
  "default_user m users =
     (case m of None \<Rightarrow> users
      | Some user \<Rightarrow> [\<lparr>username = strcpy_into (username user) ''admin'',
                       password = strcpy_into (password user) ''admin''\<rparr>])"

definition auth_line :: "credentials option \<Rightarrow> string \<Rightarrow> credentials list \<Rightarrow> credentials list" where
  "auth_line m buf users =
     (let line = takeWhile (\<lambda>c. c \<noteq> LF \<and> c \<noteq> NUL) buf
      in if line = [] \<or> hd line = CHR ''#'' then users
         else case strchr_split (CHR '':'') line of
           None \<Rightarrow> users
         | Some (name, pass) \<Rightarrow>
             (case m of None \<Rightarrow> users
              | Some cred \<Rightarrow>
                  \<lparr>username = strncpy (username cred) name (NAME_SIZE - 1),
                   password = strncpy (password cred) pass (NAME_SIZE - 1)\<rparr> # users))"

definition AUTH_LINE_SIZE :: nat where "AUTH_LINE_SIZE = 512"

text \<open>The \<open>k\<close>-th pass of the loop sees the allocation \<open>m k\<close>.\<close>

function auth_loop :: "(nat \<Rightarrow> credentials option) \<Rightarrow> nat \<Rightarrow> string \<Rightarrow> credentials list \<Rightarrow> credentials list" where
  "auth_loop m k s users =
     (case fgets AUTH_LINE_SIZE s of
        None \<Rightarrow> users
      | Some (line, rest) \<Rightarrow> auth_loop m (Suc k) rest (auth_line (m k) line users))"
  by pat_completeness auto
termination
  by (relation "measure (\<lambda>(m, k, s, users). length s)") (auto dest!: fgets_shorter simp: AUTH_LINE_SIZE_def)

declare auth_loop.simps [simp del]

definition auth_init ::
  "(nat \<Rightarrow> credentials option) \<Rightarrow> (string \<Rightarrow> string option) \<Rightarrow> string option \<Rightarrow> credentials list
     \<Rightarrow> c_int \<times> credentials list" where
  "auth_init m fopen file users =
     (case file of None \<Rightarrow> (0, default_user (m 0) users)
      | Some name \<Rightarrow>
          (case fopen name of None \<Rightarrow> (0, default_user (m 0) users)
           | Some text \<Rightarrow> (0, auth_loop m 0 text users)))"

text \<open>The scan of the list; \<^const>\<open>None\<close> is a comparison that leaves its array.\<close>

fun auth_scan :: "credentials list \<Rightarrow> string \<Rightarrow> string \<Rightarrow> c_int option" where
  "auth_scan [] u p = Some (-1)"
| "auth_scan (user # users) u p =
     (case array_eq (username user) u of None \<Rightarrow> None
      | Some False \<Rightarrow> auth_scan users u p
      | Some True \<Rightarrow>
          (case array_eq (password user) p of None \<Rightarrow> None
           | Some True \<Rightarrow> Some 0
           | Some False \<Rightarrow> auth_scan users u p))"

definition auth_verify :: "credentials list \<Rightarrow> string option \<Rightarrow> string option \<Rightarrow> c_int option" where
  "auth_verify users u p =
     (case (u, p) of (Some u, Some p) \<Rightarrow> auth_scan users u p | _ \<Rightarrow> Some (-1))"

definition auth_cleanup :: "credentials list \<Rightarrow> credentials list" where
  "auth_cleanup users = []"

subsection \<open>The Basic header\<close>

definition DECODED_SIZE :: nat where "DECODED_SIZE = 512"

text \<open>\<open>ucap\<close> and \<open>pcap\<close> are the sizes of the caller's two arrays.  The outer
  \<^const>\<open>None\<close> is a write past one of them; the inner one is the return of -1.\<close>

definition auth_parse_basic :: "nat \<Rightarrow> nat \<Rightarrow> string option \<Rightarrow> (string \<times> string) option option" where
  "auth_parse_basic ucap pcap auth_header =
     (case auth_header of None \<Rightarrow> Some None | Some header \<Rightarrow>
       (case strcasestr header ''Basic '' of None \<Rightarrow> Some None | Some basic \<Rightarrow>
         (case base64_decode (dropWhile is_space (drop 6 basic)) DECODED_SIZE of None \<Rightarrow> Some None
          | Some bytes \<Rightarrow>
              (let decoded = takeWhile (\<lambda>c. c \<noteq> NUL) (map (\<lambda>b. char_of (unat b)) bytes)
               in case strchr_split (CHR '':'') decoded of None \<Rightarrow> Some None
                  | Some (u, p) \<Rightarrow>
                      (case (strcpy ucap u, strcpy pcap p) of
                         (Some u, Some p) \<Rightarrow> Some (Some (u, p))
                       | _ \<Rightarrow> None)))))"

subsection \<open>The credential list as a store of accounts\<close>

text \<open>An entry is readable when both of its arrays are terminated; \<open>account\<close> is then the
  pair of strings in it.\<close>

definition cred_wf :: "credentials \<Rightarrow> bool" where
  "cred_wf c \<longleftrightarrow> cstr (username c) \<noteq> None \<and> cstr (password c) \<noteq> None"

definition account :: "credentials \<Rightarrow> string \<times> string" where
  "account c = (the (cstr (username c)), the (cstr (password c)))"

definition admits :: "credentials list \<Rightarrow> string \<times> string \<Rightarrow> bool" where
  "admits users a \<longleftrightarrow> auth_verify users (Some (fst a)) (Some (snd a)) = Some 0"

definition enroll :: "credentials \<Rightarrow> string \<times> string \<Rightarrow> credentials list \<Rightarrow> credentials list" where
  "enroll junk a users =
     \<lparr>username = strncpy (username junk) (fst a) (NAME_SIZE - 1),
      password = strncpy (password junk) (snd a) (NAME_SIZE - 1)\<rparr> # users"

definition fits :: "string \<times> string \<Rightarrow> bool" where
  "fits a \<longleftrightarrow> c_string (fst a) \<and> c_string (snd a) \<and> length (fst a) < NAME_SIZE - 1 \<and> length (snd a) < NAME_SIZE - 1"

definition c_pair :: "string \<times> string \<Rightarrow> bool" where
  "c_pair a \<longleftrightarrow> c_string (fst a) \<and> c_string (snd a)"

lemma auth_verify_account:
  assumes "list_all cred_wf users" "c_string u" "c_string p"
  shows "auth_verify users (Some u) (Some p) = Some (if (u, p) \<in> account ` set users then 0 else -1)"
proof -
  have "auth_scan users u p = Some (if (u, p) \<in> account ` set users then 0 else -1)"
    using assms(1)
  proof (induction users)
    case (Cons c users)
    then obtain a b where ab: "cstr (username c) = Some a" "cstr (password c) = Some b"
      by (auto simp: cred_wf_def)
    then have "account c = (a, b)" by (simp add: account_def)
    with Cons array_eq_cstr [OF ab(1) assms(2)] array_eq_cstr [OF ab(2) assms(3)]
    show ?case by (auto split: bool.split)
  qed simp
  then show ?thesis by (simp add: auth_verify_def)
qed

lemma enroll_account:
  assumes "fits a"
  shows "cred_wf (hd (enroll junk a users))" "account (hd (enroll junk a users)) = a"
  using assms by (simp_all add: fits_def enroll_def cred_wf_def account_def cstr_strncpy_short)

lemma enroll_Cons: "enroll junk a users = hd (enroll junk a users) # users"
  by (simp add: enroll_def)

interpretation creds: account_store enroll admits fits c_pair "list_all cred_wf"
proof unfold_locales
  fix users a e
  assume "list_all cred_wf users" "fits a"
  then show wf: "list_all cred_wf (enroll e a users)"
    using enroll_account(1) [of a e users] enroll_Cons [of e a users] by (metis list.pred_inject(2))
  fix b
  assume "c_pair b"
  with wf \<open>list_all cred_wf users\<close> enroll_account(2) [OF \<open>fits a\<close>, of e users] enroll_Cons [of e a users]
  show "admits (enroll e a users) b \<longleftrightarrow> b = a \<or> admits users b"
    unfolding admits_def c_pair_def
    by (simp add: auth_verify_account) (metis (no_types, lifting) image_insert insert_iff list.simps(15) prod.collapse)
qed

text \<open>A credential file, one account a line.\<close>

definition account_line :: "string \<times> string \<Rightarrow> string" where
  "account_line a = fst a @ CHR '':'' # snd a @ [LF]"

definition listed :: "string \<times> string \<Rightarrow> bool" where
  "listed a \<longleftrightarrow> fits a \<and> CHR '':'' \<notin> set (fst a) \<and> LF \<notin> set (fst a) \<and> LF \<notin> set (snd a) \<and>
     (fst a = [] \<or> hd (fst a) \<noteq> CHR ''#'')"

lemma auth_line_account:
  assumes "listed a"
  shows "auth_line (Some junk) (account_line a) users = enroll junk a users"
proof -
  obtain u p where a: "a = (u, p)" by (cases a)
  have "takeWhile (\<lambda>c. c \<noteq> LF \<and> c \<noteq> NUL) ((u @ CHR '':'' # p) @ LF # []) = u @ CHR '':'' # p"
    using assms by (subst takeWhile_append2) (auto simp: listed_def fits_def c_string_def a)
  moreover have "hd (u @ CHR '':'' # p) \<noteq> CHR ''#''"
    using assms by (cases u) (auto simp: listed_def a)
  ultimately show ?thesis
    using assms by (simp add: auth_line_def account_line_def listed_def a enroll_def strchr_split_append)
qed

lemma auth_loop_accounts:
  assumes "list_all listed as"
  shows "auth_loop (\<lambda>k. Some (m k)) k (concat (map account_line as)) users =
    creds.enroll_all (map m [k..<k + length as]) as users"
  using assms
proof (induction as arbitrary: k users)
  case Nil
  then show ?case by (simp add: auth_loop.simps [of _ _ "[]"] fgets_def)
next
  case (Cons a as)
  have "fgets AUTH_LINE_SIZE ((fst a @ CHR '':'' # snd a) @ LF # concat (map account_line as)) =
      Some ((fst a @ CHR '':'' # snd a) @ [LF], concat (map account_line as))"
    using Cons.prems by (intro fgets_line)
      (auto simp: listed_def fits_def NAME_SIZE_def AUTH_LINE_SIZE_def)
  moreover have "concat (map account_line (a # as)) =
      (fst a @ CHR '':'' # snd a) @ LF # concat (map account_line as)"
    "(fst a @ CHR '':'' # snd a) @ [LF] = account_line a"
    by (simp_all add: account_line_def [of a])
  ultimately have "auth_loop (\<lambda>k. Some (m k)) k (concat (map account_line (a # as))) users =
      auth_loop (\<lambda>k. Some (m k)) (Suc k) (concat (map account_line as)) (enroll (m k) a users)"
    using Cons.prems auth_line_account [of a "m k" users]
    by (simp add: auth_loop.simps [of _ k "fst a @ CHR '':'' # snd a @ LF # concat (map account_line as)"]
        del: list.map concat.simps)
  also have "\<dots> = creds.enroll_all (map m [Suc k..<Suc k + length as]) as (enroll (m k) a users)"
    using Cons by simp
  also have "\<dots> = creds.enroll_all (map m [k..<k + length (a # as)]) (a # as) users"
    by (simp add: upt_conv_Cons del: upt_Suc)
  finally show ?case .
qed

subsection \<open>A Basic header\<close>

definition bytes_of :: "string \<Rightarrow> u8 list" where
  "bytes_of s = map (\<lambda>c. of_nat (code c)) s"

definition basic_header :: "string \<times> string \<Rightarrow> string" where
  "basic_header a = ''Proxy-Authorization: Basic '' @ base64_encode (bytes_of (fst a @ CHR '':'' # snd a))"

lemma char_bytes [simp]: "map (\<lambda>b. char_of (unat b)) (bytes_of s) = s"
  by (induction s) (simp_all add: bytes_of_def code_def unat_of_nat)

lemma length_bytes_of [simp]: "length (bytes_of s) = length s"
  by (simp add: bytes_of_def)

lemma basic_prefix:
  "strcasestr (''Proxy-Authorization: Basic '' @ s) ''Basic '' = Some (''Basic '' @ s)"
  by (simp add: to_lower_def code_def)

lemma encode_no_space: "bs \<noteq> [] \<Longrightarrow> dropWhile is_space (base64_encode bs @ rest) = base64_encode bs @ rest"
  by (cases bs rule: base64_encode.cases) (simp_all add: b64_table sextet_bounds)

lemma auth_parse_header:
  assumes "c_pair (u, p)" "CHR '':'' \<notin> set u" "length u + length p + 2 < DECODED_SIZE"
    and "(length u + length p + 1) mod 3 = 0 \<longrightarrow> quiet rest"
  shows "auth_parse_basic ucap pcap (Some (basic_header (u, p) @ rest)) =
    (if length u < ucap \<and> length p < pcap then Some (Some (u, p)) else None)"
proof -
  define t where "t = u @ CHR '':'' # p"
  let ?enc = "base64_encode (bytes_of t)"
  have dec: "base64_decode (?enc @ rest) DECODED_SIZE = Some (bytes_of t)"
    using assms(3,4) by (intro base64_decode_encode) (simp_all add: t_def)
  have spaces: "dropWhile is_space (?enc @ rest) = ?enc @ rest"
    by (rule encode_no_space) (simp add: bytes_of_def t_def)
  have "c_string t" using assms(1) by (simp add: t_def c_pair_def c_string_def)
  then have tw: "takeWhile (\<lambda>c. c \<noteq> NUL) t = t" by (auto simp: c_string_def takeWhile_eq_all_conv)
  have split: "strchr_split (CHR '':'') t = Some (u, p)"
    using assms(2) by (simp add: t_def strchr_split_append)
  have "auth_parse_basic ucap pcap (Some (''Proxy-Authorization: Basic '' @ ?enc @ rest)) =
      (case (strcpy ucap u, strcpy pcap p) of (Some u, Some p) \<Rightarrow> Some (Some (u, p)) | _ \<Rightarrow> None)"
    unfolding auth_parse_basic_def option.case basic_prefix
    by (simp add: spaces dec tw split)
  then show ?thesis by (simp add: basic_header_def t_def strcpy_def)
qed

subsection \<open>Properties\<close>

text \<open>The decoder stays inside its buffer: whatever the header says, the bytes it writes
  and the terminator after them fit in \<open>output_size\<close>.\<close>

theorem base64_decode_fits:
  assumes "base64_decode input output_size = Some bytes" "0 < output_size"
  shows "length bytes + 1 \<le> output_size"
  using base64_decode_bound [OF assms] by simp

theorem base64_decode_fits_witness:
  "\<exists>bytes. base64_decode ''QUJD'' 4 = Some bytes \<and> length bytes + 1 \<le> 4"
proof -
  have d: "base64_decode ''QUJD'' 4 = Some [0x41, 0x42, 0x43]" by code_simp
  then show ?thesis using base64_decode_fits [OF d] by simp
qed

lemma auth_file_lists:
  assumes "list_all listed as" "fopen name = Some (concat (map account_line as))"
    and "c_string u" "c_string p"
  shows "auth_verify (snd (auth_init (\<lambda>k. Some (m k)) fopen (Some name) [])) (Some u) (Some p) =
    Some (if (u, p) \<in> set as then 0 else -1)"
proof -
  let ?users = "creds.enroll_all (map m [0..<0 + length as]) as []"
  have "list_all fits as" using assms(1) by (auto simp: list_all_iff listed_def)
  then have "list_all cred_wf ?users \<and> (admits ?users (u, p) \<longleftrightarrow> (u, p) \<in> set as \<or> admits [] (u, p))"
    by (intro creds.enroll_all_admits) (use assms(3,4) in \<open>auto simp: c_pair_def\<close>)
  then show ?thesis
    using assms auth_verify_account [of ?users u p]
    by (simp add: auth_init_def auth_loop_accounts [OF assms(1)] admits_def auth_verify_def split: if_splits)
qed

text \<open>C10: the credential file decides.  After \<open>auth_init\<close> on a file of accounts that fit
  the arrays, with allocations that succeed, a name and a password are accepted exactly when
  the file lists them together.\<close>

theorem auth_file_decides:
  assumes "list_all listed as" "fopen name = Some (concat (map account_line as))"
    and "c_string u" "c_string p"
  shows "auth_verify (snd (auth_init (\<lambda>k. Some (m k)) fopen (Some name) [])) (Some u) (Some p) =
    Some (if (u, p) \<in> set as then 0 else -1)"
  using assms by (rule auth_file_lists)

theorem auth_file_decides_witness:
  "auth_verify (snd (auth_init (\<lambda>k. Some \<lparr>username = [], password = []\<rparr>)
     (\<lambda>_. Some (concat (map account_line [(''bob'', ''secret''), (''eve'', ''x'')]))) (Some ''users.txt'') []))
     (Some ''eve'') (Some ''secret'') = Some (-1)"
  using auth_file_decides [of "[(''bob'', ''secret''), (''eve'', ''x'')]"
      "\<lambda>_. Some (concat (map account_line [(''bob'', ''secret''), (''eve'', ''x'')]))" "''users.txt''"
      "''eve''" "''secret''" "\<lambda>_. \<lparr>username = [], password = []\<rparr>"]
  by (simp add: listed_def fits_def c_string_def NAME_SIZE_def)

text \<open>C25: what a Basic header is read as.  A header that encodes \<open>u:p\<close>, of at most 509
  characters without the colon and with no colon in \<open>u\<close>, gives back exactly \<open>u\<close> and
  \<open>p\<close> when they fit the caller's arrays, and otherwise \<open>strcpy\<close> writes past them.  This
  holds for every text after a padded encoding; when the encoding has no padding, the text
  after it must hold no character of the base64 alphabet, because the decoder stops at an
  equals sign only (\<open>auth_parse_basic_runs_on\<close> below).\<close>

theorem auth_parse_basic_roundtrip:
  assumes "c_pair (u, p)" "CHR '':'' \<notin> set u" "length u + length p + 2 < DECODED_SIZE"
    and "(length u + length p + 1) mod 3 = 0 \<longrightarrow> quiet rest"
  shows "auth_parse_basic ucap pcap (Some (basic_header (u, p) @ rest)) =
    (if length u < ucap \<and> length p < pcap then Some (Some (u, p)) else None)"
  using assms by (rule auth_parse_header)

theorem auth_parse_basic_roundtrip_witness:
  "auth_parse_basic 128 128 (Some (basic_header (''bob'', ''pw'') @ CRLF)) = Some (Some (''bob'', ''pw'')) \<and>
   auth_parse_basic 128 128 (Some (basic_header (replicate 128 (CHR ''a''), ''pw'') @ CRLF)) = None"
proof -
  have "quiet CRLF" by code_simp
  then show ?thesis
    using auth_parse_basic_roundtrip [of "''bob''" "''pw''" CRLF 128 128]
      auth_parse_basic_roundtrip [of "replicate 128 (CHR ''a'')" "''pw''" CRLF 128 128]
    by (simp add: c_pair_def c_string_def DECODED_SIZE_def)
qed

text \<open>An encoding without padding swallows the next header.  For the account
  \<open>a:b\<close>, whose encoding \<open>YTpi\<close> has no equals sign, the password that the parser reports
  is not the one sent: the letters of the following \<open>Host\<close> line are decoded too.\<close>

theorem auth_parse_basic_runs_on:
  "\<exists>q. auth_parse_basic 128 128 (Some (basic_header (''a'', ''b'') @ CRLF @ ''Host: h'' @ CRLF @ CRLF)) =
     Some (Some (''a'', q)) \<and> q \<noteq> ''b''"
proof -
  have "auth_parse_basic 128 128 (Some (basic_header (''a'', ''b'') @ CRLF @ ''Host: h'' @ CRLF @ CRLF)) =
     Some (Some (''a'', [CHR ''b'', CHR 0x1E, CHR 0x8B, CHR ''-'']))" by code_simp
  then show ?thesis by simp
qed

end
