(* ===== verification/Load_Balancer.thy ===== *)
theory Load_Balancer
  imports Proxy_Types Interfaces "HOL-Library.Multiset"
begin

unbundle bit_operations_syntax

text \<open>
  The load balancer of reverse mode, \<^verbatim>\<open>src/core/loadbalancer.c\<close>: the backends in the
  order of their linked list, the four selection algorithms, and the health bookkeeping.  A
  pointer to a backend is its position in the list, which no operation after
  \<open>loadbalancer_init\<close> changes.  The outer \<^const>\<open>None\<close> of a selection is the division by
  zero of \<open>% num_servers\<close> on an empty list.
\<close>

subsection \<open>State\<close>

record backend_server =
  be_host :: string
  be_port :: c_int
  weight :: c_int
  active_connections :: c_int
  total_requests :: c_int
  failed_requests :: c_int
  is_healthy :: c_int
  last_health_check :: time_t

record load_balancer =
  servers :: "backend_server list"
  num_servers :: c_int
  current_index :: c_int
  algorithm :: lb_algorithm

subsection \<open>Initialisation\<close>

definition new_server :: "string \<Rightarrow> c_int \<Rightarrow> c_int \<Rightarrow> time_t \<Rightarrow> backend_server" where
  "new_server host p w now =
     \<lparr>be_host = field_copy MAX_HOSTNAME host, be_port = p, weight = w, active_connections = 0,
      total_requests = 0, failed_requests = 0, is_healthy = 1, last_health_check = now\<rparr>"

text \<open>The loop over the configured backends; \<open>m i\<close> says whether the \<open>i\<close>-th allocation
  succeeds.  Each new server goes to the front of the list.\<close>

fun add_backends :: "(nat \<Rightarrow> bool) \<Rightarrow> time_t \<Rightarrow> proxy_config \<Rightarrow> nat list \<Rightarrow> load_balancer \<Rightarrow> load_balancer" where
  "add_backends m now cfg [] lb = lb"
| "add_backends m now cfg (i # is) lb =
     add_backends m now cfg is
       (if \<not> m i then lb
        else lb\<lparr>servers := new_server (backend_hosts cfg ! i) (backend_ports cfg ! i)
                  (case backend_weights cfg of Some ws \<Rightarrow> ws ! i | None \<Rightarrow> 1) now # servers lb,
                num_servers := num_servers lb + 1\<rparr>)"

definition loadbalancer_init ::
  "bool \<Rightarrow> (nat \<Rightarrow> bool) \<Rightarrow> time_t \<Rightarrow> proxy_config \<Rightarrow> load_balancer option \<Rightarrow> c_int \<times> load_balancer option" where
  "loadbalancer_init m_lb m now cfg g =
     (if mode cfg \<noteq> PROXY_MODE_REVERSE then (0, g)
      else if \<not> m_lb then (-1, None)
      else
        let lb = \<lparr>servers = [], num_servers = 0, current_index = 0, algorithm = lb_algorithm cfg\<rparr>
        in (0, Some (if 0 < num_backends cfg then add_backends m now cfg [0..<nat (num_backends cfg)] lb
              else if m 0 then lb\<lparr>servers := [new_server (backend_host cfg) (backend_port cfg) 1 now],
                                 num_servers := 1\<rparr>
              else lb)))"

subsection \<open>Selection\<close>

definition healthy :: "backend_server \<Rightarrow> bool" where
  "healthy s \<longleftrightarrow> is_healthy s \<noteq> 0"

definition bump_index :: "load_balancer \<Rightarrow> load_balancer" where
  "bump_index lb = lb\<lparr>current_index := wrap32 (current_index lb + 1)\<rparr>"

text \<open>\<open>server->next\<close>, and the first server when there is none.\<close>

definition next_or_first :: "nat \<Rightarrow> nat \<Rightarrow> nat" where
  "next_or_first n server = (if Suc server < n then Suc server else 0)"

function rr_walk :: "nat \<Rightarrow> c_int \<Rightarrow> nat \<Rightarrow> c_int \<Rightarrow> nat" where
  "rr_walk n target server cnt =
     (if cnt < target then rr_walk n target (next_or_first n server) (cnt + 1) else server)"
  by pat_completeness auto
termination by (relation "measure (\<lambda>(n, target, server, cnt). nat (target - cnt))") auto

function rr_skip :: "nat \<Rightarrow> c_int \<Rightarrow> load_balancer \<Rightarrow> nat \<times> load_balancer" where
  "rr_skip server attempts lb =
     (if \<not> healthy (servers lb ! server) \<and> attempts < num_servers lb
      then rr_skip (next_or_first (length (servers lb)) server) (attempts + 1) (bump_index lb)
      else (server, lb))"
  by pat_completeness auto
termination
  by (relation "measure (\<lambda>(server, attempts, lb). nat (num_servers lb - attempts))") (auto simp: bump_index_def)

declare rr_walk.simps [simp del] rr_skip.simps [simp del]

definition lb_select_round_robin :: "load_balancer \<Rightarrow> (nat option \<times> load_balancer) option" where
  "lb_select_round_robin lb =
     (if num_servers lb = 0 then None
      else
        let target = current_index lb smod num_servers lb;
            server = rr_walk (length (servers lb)) target 0 0;
            (server, lb) = rr_skip server 0 (bump_index lb)
        in Some (Some server, lb))"

definition INT_MAX :: c_int where "INT_MAX = 2147483647"

fun least_loop :: "backend_server list \<Rightarrow> nat \<Rightarrow> nat option \<Rightarrow> c_int \<Rightarrow> nat option" where
  "least_loop [] i selected min_connections = selected"
| "least_loop (s # ss) i selected min_connections =
     (if healthy s \<and> active_connections s < min_connections
      then least_loop ss (Suc i) (Some i) (active_connections s)
      else least_loop ss (Suc i) selected min_connections)"

definition lb_select_least_connections :: "load_balancer \<Rightarrow> nat option" where
  "lb_select_least_connections lb = least_loop (servers lb) 0 None INT_MAX"

definition ip_hash :: "string \<Rightarrow> uint" where
  "ip_hash ip = foldl (\<lambda>h c. (push_bit 5 h + h) + sext_char c) 5381 ip"

definition lb_select_ip_hash :: "string \<Rightarrow> load_balancer \<Rightarrow> (nat option \<times> load_balancer) option" where
  "lb_select_ip_hash ip lb =
     (if num_servers lb = 0 then None
      else
        let index = unat (ip_hash ip mod word_of_int (num_servers lb))
        in if index < length (servers lb) then
             (if \<not> healthy (servers lb ! index) then lb_select_round_robin lb else Some (Some index, lb))
           else Some (None, lb))"

fun total_weight :: "backend_server list \<Rightarrow> c_int \<Rightarrow> c_int" where
  "total_weight [] tw = tw"
| "total_weight (s # ss) tw = total_weight ss (if healthy s then wrap32 (tw + weight s) else tw)"

fun weight_loop :: "backend_server list \<Rightarrow> nat \<Rightarrow> c_int \<Rightarrow> c_int \<Rightarrow> nat option" where
  "weight_loop [] i current_weight target = None"
| "weight_loop (s # ss) i current_weight target =
     (if healthy s then
        (let cw = wrap32 (current_weight + weight s)
         in if cw > target then Some i else weight_loop ss (Suc i) cw target)
      else weight_loop ss (Suc i) current_weight target)"

definition lb_select_weighted_round_robin :: "load_balancer \<Rightarrow> nat option \<times> load_balancer" where
  "lb_select_weighted_round_robin lb =
     (let tw = total_weight (servers lb) 0
      in if tw = 0 then (None, lb)
         else (weight_loop (servers lb) 0 0 (current_index lb smod tw), bump_index lb))"

definition lb_choose :: "string \<Rightarrow> load_balancer \<Rightarrow> (nat option \<times> load_balancer) option" where
  "lb_choose ip lb =
     (case algorithm lb of
        LB_ALGORITHM_ROUND_ROBIN \<Rightarrow> lb_select_round_robin lb
      | LB_ALGORITHM_LEAST_CONNECTIONS \<Rightarrow> Some (lb_select_least_connections lb, lb)
      | LB_ALGORITHM_IP_HASH \<Rightarrow> lb_select_ip_hash ip lb
      | LB_ALGORITHM_WEIGHTED_RR \<Rightarrow> Some (lb_select_weighted_round_robin lb))"

definition update_server :: "nat \<Rightarrow> (backend_server \<Rightarrow> backend_server) \<Rightarrow> load_balancer \<Rightarrow> load_balancer" where
  "update_server i f lb = lb\<lparr>servers := (servers lb)[i := f (servers lb ! i)]\<rparr>"

definition loadbalancer_select_backend ::
  "string \<Rightarrow> load_balancer option \<Rightarrow> (nat option \<times> load_balancer option) option" where
  "loadbalancer_select_backend ip g =
     (case g of None \<Rightarrow> Some (None, None)
      | Some lb \<Rightarrow>
          (case lb_choose ip lb of
             None \<Rightarrow> None
           | Some (None, lb) \<Rightarrow> Some (None, Some lb)
           | Some (Some i, lb) \<Rightarrow>
               Some (Some i, Some (update_server i
                 (\<lambda>s. s\<lparr>active_connections := wrap32 (active_connections s + 1),
                        total_requests := wrap32 (total_requests s + 1)\<rparr>) lb))))"

subsection \<open>Release, failures, health checks\<close>

definition loadbalancer_release_backend :: "nat option \<Rightarrow> load_balancer option \<Rightarrow> load_balancer option" where
  "loadbalancer_release_backend server g =
     (case (g, server) of
        (Some lb, Some i) \<Rightarrow>
          Some (update_server i
            (\<lambda>s. if 0 < active_connections s then s\<lparr>active_connections := active_connections s - 1\<rparr> else s) lb)
      | _ \<Rightarrow> g)"

definition mark_failed :: "backend_server \<Rightarrow> backend_server" where
  "mark_failed s =
     (let s = s\<lparr>failed_requests := wrap32 (failed_requests s + 1)\<rparr>
      in if 5 < failed_requests s then s\<lparr>is_healthy := 0\<rparr> else s)"

definition loadbalancer_mark_failed :: "nat option \<Rightarrow> load_balancer option \<Rightarrow> load_balancer option" where
  "loadbalancer_mark_failed server g =
     (case (g, server) of (Some lb, Some i) \<Rightarrow> Some (update_server i mark_failed lb) | _ \<Rightarrow> g)"

text \<open>\<open>connect\<close> is \<open>connect_to_host\<close>: the descriptor it would return for a host and a port.\<close>

definition loadbalancer_health_check :: "(string \<Rightarrow> c_int \<Rightarrow> c_int) \<Rightarrow> backend_server \<Rightarrow> c_int" where
  "loadbalancer_health_check connect s = (if connect (be_host s) (be_port s) < 0 then -1 else 0)"

definition check_server :: "(string \<Rightarrow> c_int \<Rightarrow> c_int) \<Rightarrow> time_t \<Rightarrow> backend_server \<Rightarrow> backend_server" where
  "check_server connect now s =
     (if now - last_health_check s \<ge> 30 then
        (if loadbalancer_health_check connect s = 0
         then s\<lparr>is_healthy := 1, failed_requests := 0\<rparr>
         else s\<lparr>is_healthy := 0\<rparr>)\<lparr>last_health_check := now\<rparr>
      else s)"

definition loadbalancer_run_health_checks ::
  "(string \<Rightarrow> c_int \<Rightarrow> c_int) \<Rightarrow> time_t \<Rightarrow> load_balancer option \<Rightarrow> load_balancer option" where
  "loadbalancer_run_health_checks connect now g =
     map_option (\<lambda>lb. lb\<lparr>servers := map (check_server connect now) (servers lb)\<rparr>) g"

definition loadbalancer_cleanup :: "load_balancer option \<Rightarrow> load_balancer option" where
  "loadbalancer_cleanup g = None"

subsection \<open>Round robin\<close>

text \<open>A balancer in use: the counter of servers is the length of the list, the list is not
  empty and fits a C integer, and so do the connection counts.\<close>

definition lb_wf :: "load_balancer \<Rightarrow> bool" where
  "lb_wf lb \<longleftrightarrow> num_servers lb = int (length (servers lb)) \<and> servers lb \<noteq> [] \<and>
     length (servers lb) < 2 ^ 31 \<and> (\<forall>s\<in>set (servers lb). in_c_int (active_connections s))"

lemma next_or_first_mod: "server < n \<Longrightarrow> next_or_first n server = Suc server mod n"
  by (cases "Suc server = n") (auto simp: next_or_first_def)

lemma next_or_first_less: "server < n \<Longrightarrow> next_or_first n server < n"
  by (simp add: next_or_first_def)

lemma rr_walk_mod:
  "server < n \<Longrightarrow> rr_walk n target server cnt = (server + nat (target - cnt)) mod n"
proof (induction n target server cnt rule: rr_walk.induct)
  case (1 n target server cnt)
  show ?case
  proof (cases "cnt < target")
    case True
    then have "rr_walk n target server cnt = rr_walk n target (next_or_first n server) (cnt + 1)"
      by (simp add: rr_walk.simps [of n target server cnt])
    also have "\<dots> = (Suc server mod n + nat (target - (cnt + 1))) mod n"
      using 1 True by (simp add: next_or_first_mod)
    also have "\<dots> = (server + Suc (nat (target - (cnt + 1)))) mod n"
      by (simp add: mod_add_left_eq)
    also have "Suc (nat (target - (cnt + 1))) = nat (target - cnt)" using True by simp
    finally show ?thesis .
  next
    case False
    with 1 show ?thesis by (simp add: rr_walk.simps [of n target server cnt])
  qed
qed

lemma bump_index_simps [simp]:
  "servers (bump_index lb) = servers lb" "num_servers (bump_index lb) = num_servers lb"
  "algorithm (bump_index lb) = algorithm lb" "current_index (bump_index lb) = wrap32 (current_index lb + 1)"
  by (simp_all add: bump_index_def)

lemma rr_skip_frame:
  "rr_skip server a lb = (r, lb') \<Longrightarrow> server < length (servers lb) \<Longrightarrow>
     r < length (servers lb) \<and> servers lb' = servers lb \<and> num_servers lb' = num_servers lb \<and> algorithm lb' = algorithm lb"
proof (induction server a lb rule: rr_skip.induct)
  case (1 server a lb)
  show ?case
  proof (cases "\<not> healthy (servers lb ! server) \<and> a < num_servers lb")
    case True
    with 1 show ?thesis
      by (simp add: rr_skip.simps [of server a lb] next_or_first_less)
  next
    case False
    with 1 show ?thesis by (simp add: rr_skip.simps [of server a lb])
  qed
qed

lemma rr_skip_healthy [step_simps]:
  "healthy (servers lb ! server) \<Longrightarrow> rr_skip server a lb = (server, lb)"
  by (simp add: rr_skip.simps [of server a lb])

lemma rr_skip_unhealthy:
  "rr_skip server a lb = (r, lb') \<Longrightarrow> \<not> healthy (servers lb ! r) \<Longrightarrow> server < length (servers lb) \<Longrightarrow>
     int k \<le> num_servers lb - a \<Longrightarrow> \<not> healthy (servers lb ! ((server + k) mod length (servers lb)))"
proof (induction server a lb arbitrary: k rule: rr_skip.induct)
  case (1 server a lb)
  let ?n = "length (servers lb)"
  have un: "\<not> healthy (servers lb ! server)"
    using 1(2,3) by (auto simp: rr_skip_healthy)
  show ?case
  proof (cases k)
    case 0
    with un 1(4) show ?thesis by simp
  next
    case (Suc j)
    with un 1(5) have more: "\<not> healthy (servers lb ! server) \<and> a < num_servers lb" by simp
    have "Suc server mod ?n < ?n" using 1(4) by (metis length_greater_0_conv less_nat_zero_code mod_less_divisor list.size(3))
    then have "\<not> healthy (servers (bump_index lb) ! ((next_or_first ?n server + j) mod length (servers (bump_index lb))))"
      using 1(2-5) Suc more by (intro 1(1)) (simp_all add: rr_skip.simps [of server a lb] next_or_first_mod)
    then show ?thesis using 1(4) Suc by (simp add: next_or_first_mod mod_add_left_eq)
  qed
qed

lemma rr_select:
  assumes "lb_wf lb"
  shows "\<exists>r lb'. lb_select_round_robin lb = Some (Some r, lb') \<and> r < length (servers lb) \<and>
    servers lb' = servers lb \<and> num_servers lb' = num_servers lb \<and> algorithm lb' = algorithm lb \<and>
    ((\<exists>s\<in>set (servers lb). healthy s) \<longrightarrow> healthy (servers lb ! r))"
proof -
  let ?n = "length (servers lb)"
  let ?s = "rr_walk ?n (current_index lb smod num_servers lb) 0 0"
  have n: "0 < ?n" "num_servers lb = int ?n" using assms by (auto simp: lb_wf_def)
  then have s: "?s < ?n" by (simp add: rr_walk_mod)
  obtain r lb' where r: "rr_skip ?s 0 (bump_index lb) = (r, lb')" by fastforce
  have "healthy (servers lb ! r)" if "x \<in> set (servers lb)" "healthy x" for x
  proof (rule ccontr)
    note x = that
    assume un: "\<not> healthy (servers lb ! r)"
    obtain i where i: "i < ?n" "servers lb ! i = x" using x(1) by (auto simp: in_set_conv_nth)
    define k where "k = (?n - ?s + i) mod ?n"
    have "(?s + k) mod ?n = i" using s i(1) by (simp add: k_def mod_add_right_eq)
    moreover have "k < ?n" using n(1) by (simp add: k_def)
    ultimately have "\<not> healthy (servers lb ! i)"
      using rr_skip_unhealthy [OF r, of k] un s n(2) by simp
    with i x(2) show False by simp
  qed
  with rr_skip_frame [OF r] s n r show ?thesis
    by (auto simp: lb_select_round_robin_def Let_def)
qed

subsection \<open>Least connections and weights\<close>

lemma least_loop_None:
  "least_loop ss i None mn = None \<longleftrightarrow> (\<forall>s\<in>set ss. healthy s \<longrightarrow> mn \<le> active_connections s)"
proof (induction ss arbitrary: i mn)
  case (Cons s ss)
  have "least_loop ss j (Some k) m \<noteq> None" for j k m
    by (induction ss arbitrary: j k m) simp_all
  with Cons show ?case by auto
qed simp

lemma least_loop_Some:
  "least_loop ss i sel mn = Some r \<Longrightarrow>
     (sel = Some r \<and> (\<forall>s\<in>set ss. healthy s \<longrightarrow> mn \<le> active_connections s)) \<or>
     (\<exists>k < length ss. r = i + k \<and> healthy (ss ! k) \<and> active_connections (ss ! k) < mn \<and>
        (\<forall>s\<in>set ss. healthy s \<longrightarrow> active_connections (ss ! k) \<le> active_connections s))"
proof (induction ss arbitrary: i sel mn)
  case (Cons s ss)
  show ?case
  proof (cases "healthy s \<and> active_connections s < mn")
    case True
    with Cons.prems Cons.IH [of "Suc i" "Some i" "active_connections s"]
    consider "r = i" "\<forall>t\<in>set ss. healthy t \<longrightarrow> active_connections s \<le> active_connections t"
      | k where "k < length ss" "r = Suc i + k" "healthy (ss ! k)" "active_connections (ss ! k) < active_connections s"
        "\<forall>t\<in>set ss. healthy t \<longrightarrow> active_connections (ss ! k) \<le> active_connections t"
      by auto
    then show ?thesis
    proof cases
      case 1
      with True show ?thesis by (intro disjI2 exI [of _ 0]) auto
    next
      case 2
      with True show ?thesis by (intro disjI2 exI [of _ "Suc k"]) auto
    qed
  next
    case False
    with Cons.prems have l: "least_loop ss (Suc i) sel mn = Some r" by auto
    from Cons.IH [OF this] show ?thesis
    proof
      assume "sel = Some r \<and> (\<forall>s\<in>set ss. healthy s \<longrightarrow> mn \<le> active_connections s)"
      with False show ?thesis by auto
    next
      assume "\<exists>k < length ss. r = Suc i + k \<and> healthy (ss ! k) \<and> active_connections (ss ! k) < mn \<and>
        (\<forall>s\<in>set ss. healthy s \<longrightarrow> active_connections (ss ! k) \<le> active_connections s)"
      then obtain k where "k < length ss" "r = Suc i + k" "healthy (ss ! k)" "active_connections (ss ! k) < mn"
        "\<forall>s\<in>set ss. healthy s \<longrightarrow> active_connections (ss ! k) \<le> active_connections s" by blast
      with False show ?thesis by (intro disjI2 exI [of _ "Suc k"]) auto
    qed
  qed
qed simp

lemma weight_loop_healthy:
  "weight_loop ss i cw target = Some r \<Longrightarrow> \<exists>k < length ss. r = i + k \<and> healthy (ss ! k)"
proof (induction ss arbitrary: i cw)
  case (Cons s ss)
  show ?case
  proof (cases "healthy s \<and> wrap32 (cw + weight s) > target")
    case True
    with Cons.prems show ?thesis by (intro exI [of _ 0]) (simp add: Let_def)
  next
    case False
    with Cons.prems obtain cw' where "weight_loop ss (Suc i) cw' target = Some r"
      by (auto simp: Let_def split: if_splits)
    from Cons.IH [OF this] obtain k where "k < length ss" "r = Suc i + k" "healthy (ss ! k)" by blast
    then show ?thesis by (intro exI [of _ "Suc k"]) simp
  qed
qed simp

lemma lb_choose_frame:
  assumes "lb_wf lb"
  obtains r lb' where "lb_choose ip lb = Some (r, lb')" "servers lb' = servers lb"
    "num_servers lb' = num_servers lb" "algorithm lb' = algorithm lb"
    "\<And>i. r = Some i \<Longrightarrow> i < length (servers lb) \<and>
       ((\<exists>s\<in>set (servers lb). healthy s) \<longrightarrow> healthy (servers lb ! i))"
proof (cases "algorithm lb")
  case LB_ALGORITHM_ROUND_ROBIN
  with rr_select [OF assms] that show ?thesis by (auto simp: lb_choose_def)
next
  case LB_ALGORITHM_LEAST_CONNECTIONS
  have "i < length (servers lb) \<and> healthy (servers lb ! i)" if "lb_select_least_connections lb = Some i" for i
    using least_loop_Some [OF that [unfolded lb_select_least_connections_def]] by auto
  with LB_ALGORITHM_LEAST_CONNECTIONS that show ?thesis by (auto simp: lb_choose_def)
next
  case LB_ALGORITHM_IP_HASH
  let ?i = "unat (ip_hash ip mod word_of_int (num_servers lb))"
  have "num_servers lb \<noteq> 0" using assms by (auto simp: lb_wf_def)
  then have sel: "lb_choose ip lb = (if ?i < length (servers lb)
      then if healthy (servers lb ! ?i) then Some (Some ?i, lb) else lb_select_round_robin lb
      else Some (None, lb))"
    using LB_ALGORITHM_IP_HASH by (simp add: lb_choose_def lb_select_ip_hash_def Let_def)
  show ?thesis
  proof (cases "?i < length (servers lb) \<and> \<not> healthy (servers lb ! ?i)")
    case True
    with sel rr_select [OF assms] that show ?thesis by auto
  next
    case False
    with sel have "lb_choose ip lb = Some (if ?i < length (servers lb) then Some ?i else None, lb)"
      "?i < length (servers lb) \<Longrightarrow> healthy (servers lb ! ?i)" by auto
    with that show ?thesis by (auto split: if_splits)
  qed
next
  case LB_ALGORITHM_WEIGHTED_RR
  have "i < length (servers lb) \<and> healthy (servers lb ! i)"
    if "fst (lb_select_weighted_round_robin lb) = Some i" for i
    using that weight_loop_healthy [of "servers lb" 0 0 _ i]
    by (auto simp: lb_select_weighted_round_robin_def Let_def split: if_splits)
  moreover have "servers (snd (lb_select_weighted_round_robin lb)) = servers lb \<and>
      num_servers (snd (lb_select_weighted_round_robin lb)) = num_servers lb \<and>
      algorithm (snd (lb_select_weighted_round_robin lb)) = algorithm lb"
    by (simp add: lb_select_weighted_round_robin_def Let_def)
  ultimately show ?thesis
    using LB_ALGORITHM_WEIGHTED_RR
      that [of "fst (lb_select_weighted_round_robin lb)" "snd (lb_select_weighted_round_robin lb)"]
    by (auto simp: lb_choose_def)
qed

subsection \<open>The balancer as a pool of leases\<close>

definition in_use :: "load_balancer \<Rightarrow> nat \<Rightarrow> int" where
  "in_use lb i = (if i < length (servers lb) then active_connections (servers lb ! i) else 0)"

definition acquire :: "string \<Rightarrow> load_balancer \<Rightarrow> (nat option \<times> load_balancer) option" where
  "acquire ip lb =
     (case loadbalancer_select_backend ip (Some lb) of Some (r, Some lb') \<Rightarrow> Some (r, lb') | _ \<Rightarrow> None)"

definition release :: "nat \<Rightarrow> load_balancer \<Rightarrow> load_balancer" where
  "release i lb = the (loadbalancer_release_backend (Some i) (Some lb))"

definition lease_one :: "backend_server \<Rightarrow> backend_server" where
  "lease_one s = s\<lparr>active_connections := wrap32 (active_connections s + 1),
     total_requests := wrap32 (total_requests s + 1)\<rparr>"

lemma update_server_simps [simp]:
  "num_servers (update_server i f lb) = num_servers lb"
  "algorithm (update_server i f lb) = algorithm lb"
  "current_index (update_server i f lb) = current_index lb"
  "servers (update_server i f lb) = (servers lb)[i := f (servers lb ! i)]"
  by (simp_all add: update_server_def)

lemma acquire_cases:
  assumes "lb_wf lb"
  obtains r lb' where "lb_choose ip lb = Some (r, lb')" "servers lb' = servers lb"
    "num_servers lb' = num_servers lb" "algorithm lb' = algorithm lb"
    "acquire ip lb = Some (r, case r of None \<Rightarrow> lb' | Some i \<Rightarrow> update_server i lease_one lb')"
    "\<And>i. r = Some i \<Longrightarrow> i < length (servers lb) \<and>
       ((\<exists>s\<in>set (servers lb). healthy s) \<longrightarrow> healthy (servers lb ! i))"
proof -
  from lb_choose_frame [OF assms, of ip] obtain r lb' where
    c: "lb_choose ip lb = Some (r, lb')" "servers lb' = servers lb"
    "num_servers lb' = num_servers lb" "algorithm lb' = algorithm lb"
    "\<And>i. r = Some i \<Longrightarrow> i < length (servers lb) \<and>
       ((\<exists>s\<in>set (servers lb). healthy s) \<longrightarrow> healthy (servers lb ! i))" by metis
  moreover from c have "acquire ip lb = Some (r, case r of None \<Rightarrow> lb' | Some i \<Rightarrow> update_server i lease_one lb')"
    by (cases r) (simp_all add: acquire_def loadbalancer_select_backend_def lease_one_def [abs_def])
  ultimately show ?thesis using that by blast
qed

lemma in_use_release:
  assumes "0 < in_use lb i"
  shows "in_use (release i lb) = (in_use lb)(i := in_use lb i - 1)"
  using assms
  by (auto simp: in_use_def release_def loadbalancer_release_backend_def nth_list_update split: if_splits)

lemma lb_wf_update:
  assumes "lb_wf lb" "i < length (servers lb) \<Longrightarrow> in_c_int (active_connections (f (servers lb ! i)))"
  shows "lb_wf (update_server i f lb)"
proof (cases "i < length (servers lb)")
  case True
  have "in_c_int (active_connections s)" if "s \<in> set ((servers lb)[i := f (servers lb ! i)])" for s
    using subsetD [OF set_update_subset_insert that] assms(2) [OF True] assms(1) by (auto simp: lb_wf_def)
  with assms(1) show ?thesis by (simp add: lb_wf_def)
next
  case False
  then have "(servers lb)[i := f (servers lb ! i)] = servers lb" by (simp add: list_update_beyond)
  with assms(1) show ?thesis by (simp add: lb_wf_def)
qed

lemma lb_wf_release: "lb_wf lb \<Longrightarrow> lb_wf (release i lb)"
  unfolding release_def loadbalancer_release_backend_def prod.case option.case option.sel
proof (rule lb_wf_update)
  assume "lb_wf lb" "i < length (servers lb)"
  then have "in_c_int (active_connections (servers lb ! i))" by (simp add: lb_wf_def)
  then show "in_c_int (active_connections (if 0 < active_connections (servers lb ! i)
      then (servers lb ! i)\<lparr>active_connections := active_connections (servers lb ! i) - 1\<rparr> else servers lb ! i))"
    by (simp add: in_c_int_def)
qed

lemma lb_wf_acquire:
  assumes "lb_wf lb" "acquire ip lb = Some (r, lb')"
  shows "lb_wf lb'"
proof -
  from acquire_cases [OF assms(1), of ip] assms(2) obtain lb1 where
    l: "servers lb1 = servers lb" "num_servers lb1 = num_servers lb"
      "lb' = (case r of None \<Rightarrow> lb1 | Some i \<Rightarrow> update_server i lease_one lb1)" by auto
  then have "lb_wf lb1" using assms(1) by (simp add: lb_wf_def)
  with l show ?thesis by (cases r) (auto intro!: lb_wf_update simp: lease_one_def wrap32_in_range)
qed

lemma in_use_acquire:
  assumes "lb_wf lb" "acquire ip lb = Some (Some r, lb')" "in_use lb r < 2 ^ 31 - 1"
  shows "in_use lb' = (in_use lb)(r := in_use lb r + 1)"
proof -
  from acquire_cases [OF assms(1), of ip] assms(2) obtain lb1 where
    l: "servers lb1 = servers lb" "lb' = update_server r lease_one lb1" "r < length (servers lb)"
    by auto
  have "in_c_int (active_connections (servers lb ! r))"
    using assms(1) l(3) by (simp add: lb_wf_def)
  with assms(3) l(3) have "wrap32 (active_connections (servers lb ! r) + 1) = active_connections (servers lb ! r) + 1"
    by (intro wrap32_id) (simp add: in_c_int_def in_use_def)
  with l show ?thesis by (auto simp: in_use_def lease_one_def nth_list_update)
qed

lemma in_use_turned_away:
  assumes "lb_wf lb" "acquire ip lb = Some (None, lb')"
  shows "in_use lb' = in_use lb"
proof -
  from acquire_cases [OF assms(1), of ip] assms(2) have "servers lb' = servers lb" by auto
  then show ?thesis by (simp add: in_use_def fun_eq_iff)
qed

interpretation backends: lease_pool acquire release in_use lb_wf "2 ^ 31 - 1"
  by unfold_locales
    (auto intro: lb_wf_acquire lb_wf_release dest: in_use_acquire in_use_turned_away simp: in_use_release)

subsection \<open>Runs of selections\<close>

fun select_many :: "string list \<Rightarrow> load_balancer \<Rightarrow> (nat option list \<times> load_balancer) option" where
  "select_many [] lb = Some ([], lb)"
| "select_many (ip # ips) lb =
     (case acquire ip lb of None \<Rightarrow> None
      | Some (r, lb) \<Rightarrow> map_option (\<lambda>(rs, lb). (r # rs, lb)) (select_many ips lb))"

lemma select_many_run:
  assumes step: "\<And>ip k lb. J k lb \<Longrightarrow> k + 1 < 2 ^ 31 \<Longrightarrow> \<exists>lb'. acquire ip lb = Some (f k, lb') \<and> J (k + 1) lb'"
    and "J k lb" "k + length ips < 2 ^ 31"
  shows "\<exists>lb'. select_many ips lb = Some (map f [k..<k + length ips], lb')"
  using assms(2,3)
proof (induction ips arbitrary: k lb)
  case (Cons ip ips)
  then obtain lb1 where "acquire ip lb = Some (f k, lb1)" "J (k + 1) lb1"
    using step [of k lb ip] by auto
  with Cons.IH [of "k + 1" lb1] Cons.prems(2) obtain lb2 where
    "select_many ips lb1 = Some (map f [k + 1..<k + 1 + length ips], lb2)" by auto
  with \<open>acquire ip lb = Some (f k, lb1)\<close> show ?case by (simp add: upt_conv_Cons del: upt_Suc)
qed simp

lemma mset_rotation: "mset (map (\<lambda>j. j mod n) [k..<k + n]) = mset [0..<n]"
proof (cases "n = 0")
  case False
  have "inj_on (\<lambda>j. j mod n) {k..<k + n}"
  proof (rule inj_onI)
    fix x y
    assume xy: "x \<in> {k..<k + n}" "y \<in> {k..<k + n}" "x mod n = y mod n"
    from xy(3) have "int x mod int n = int y mod int n" by (metis zmod_int)
    then have "int n dvd int x - int y" by (simp add: mod_eq_dvd_iff)
    moreover have "\<bar>int x - int y\<bar> < int n" using xy(1,2) by auto
    ultimately show "x = y" using zdvd_imp_le [of "int n" "\<bar>int x - int y\<bar>"] by auto
  qed
  then have d: "distinct (map (\<lambda>j. j mod n) [k..<k + n])" by (simp add: distinct_map)
  have "set (map (\<lambda>j. j mod n) [k..<k + n]) \<subseteq> {0..<n}" using False by auto
  moreover have "card (set (map (\<lambda>j. j mod n) [k..<k + n])) = n"
    using distinct_card [OF d] by simp
  ultimately have "set (map (\<lambda>j. j mod n) [k..<k + n]) = set [0..<n]"
    by (metis card_subset_eq card_atLeastLessThan diff_zero finite_atLeastLessThan set_upt)
  with d distinct_upt [of 0 n] show ?thesis using set_eq_iff_mset_eq_distinct by blast
qed simp

lemma count_periods:
  fixes g :: "nat \<Rightarrow> 'a"
  shows "count_list (map (\<lambda>j. g (j mod n)) [k..<k + q * n]) x = q * count_list (map g [0..<n]) x"
proof (induction q arbitrary: k)
  case (Suc q)
  have split: "[k..<k + Suc q * n] = [k..<k + n] @ [k + n..<k + n + q * n]"
    using upt_add_eq_append [of k "k + n" "q * n"] by (simp add: ac_simps)
  have "count_list (map g (map (\<lambda>j. j mod n) [k..<k + n])) x = count_list (map g [0..<n]) x"
  proof -
    have "mset (map g (map (\<lambda>j. j mod n) [k..<k + n])) = mset (map g [0..<n])"
      unfolding mset_map [of g] mset_rotation [of n k] ..
    then show ?thesis unfolding count_mset [symmetric] by (rule arg_cong)
  qed
  then have "count_list (map (\<lambda>j. g (j mod n)) [k..<k + n]) x = count_list (map g [0..<n]) x"
    unfolding map_map o_def .
  with Suc.IH [of "k + n"] show ?case
    unfolding split map_append count_list_append by (simp add: algebra_simps)
qed simp

text \<open>What the policies look at in a backend: its health and its weight.\<close>

definition profile :: "load_balancer \<Rightarrow> (bool \<times> c_int) list" where
  "profile lb = map (\<lambda>s. (healthy s, weight s)) (servers lb)"

lemma profile_lease [simp]: "profile (update_server i lease_one lb) = profile lb"
proof (cases "i < length (servers lb)")
  case True
  have "map (\<lambda>s. (healthy s, weight s)) (servers lb) ! i = (healthy (servers lb ! i), weight (servers lb ! i))"
    using True by simp
  then show ?thesis
    by (simp add: profile_def map_update lease_one_def healthy_def) (metis list_update_id)
next
  case False
  then show ?thesis by (simp add: profile_def list_update_beyond)
qed

lemma profile_healthy: "i < length (servers lb) \<Longrightarrow> healthy (servers lb ! i) \<longleftrightarrow> fst (profile lb ! i)"
  by (simp add: profile_def)

lemma profile_length: "length (profile lb) = length (servers lb)"
  by (simp add: profile_def)

text \<open>The state of a run: same backends as far as the policies can see, index \<open>k\<close>.\<close>

definition running :: "load_balancer \<Rightarrow> nat \<Rightarrow> load_balancer \<Rightarrow> bool" where
  "running lb0 k lb \<longleftrightarrow> lb_wf lb \<and> algorithm lb = algorithm lb0 \<and> profile lb = profile lb0 \<and> current_index lb = int k"

lemma running_acquire:
  assumes "running lb0 k lb" "k + 1 < 2 ^ 31" "lb_choose ip lb = Some (Some i, bump_index lb)"
  shows "\<exists>lb'. acquire ip lb = Some (Some i, lb') \<and> running lb0 (k + 1) lb'"
proof -
  have wf: "lb_wf lb" using assms(1) by (simp add: running_def)
  have a: "acquire ip lb = Some (Some i, update_server i lease_one (bump_index lb))"
    using assms(3) by (simp add: acquire_def loadbalancer_select_backend_def lease_one_def [abs_def])
  moreover have "wrap32 (int k + 1) = int (k + 1)" using assms(2) by (simp add: wrap32_nonneg_id)
  moreover have "profile (bump_index lb) = profile lb" by (simp add: profile_def)
  ultimately have "running lb0 (k + 1) (update_server i lease_one (bump_index lb))"
    using assms(1) lb_wf_acquire [OF wf a] by (simp add: running_def)
  with a show ?thesis by blast
qed

lemma rr_choose:
  assumes "running lb0 k lb" "algorithm lb0 = LB_ALGORITHM_ROUND_ROBIN" "\<forall>p\<in>set (profile lb0). fst p"
  shows "lb_choose ip lb = Some (Some (k mod length (profile lb0)), bump_index lb)"
proof -
  let ?n = "length (servers lb)"
  have r: "lb_wf lb" "algorithm lb = LB_ALGORITHM_ROUND_ROBIN" "profile lb = profile lb0" "current_index lb = int k"
    using assms(1,2) by (simp_all add: running_def)
  then have n: "0 < ?n" "num_servers lb = int ?n" "length (profile lb0) = ?n"
    using profile_length [of lb] by (simp_all add: lb_wf_def)
  then have t: "current_index lb smod num_servers lb = int (k mod ?n)"
    using r(4) by (simp add: smod_nonneg zmod_int)
  then have w: "rr_walk ?n (current_index lb smod num_servers lb) 0 0 = k mod ?n"
    using n(1) by (simp add: rr_walk_mod)
  have "healthy (servers lb ! (k mod ?n))"
    using assms(3) n r(3) by (simp add: profile_healthy profile_length)
  then have "rr_skip (k mod ?n) 0 (bump_index lb) = (k mod ?n, bump_index lb)"
    by (simp add: rr_skip_healthy)
  with n w r(2) show ?thesis by (simp add: lb_choose_def lb_select_round_robin_def Let_def)
qed

text \<open>The slots of a weighted round: each healthy backend as often as its weight says.\<close>

fun slots :: "(bool \<times> c_int) list \<Rightarrow> nat \<Rightarrow> nat list" where
  "slots [] i = []"
| "slots ((h, w) # ps) i = (if h then replicate (nat w) i else []) @ slots ps (Suc i)"

lemma slots_total:
  "(\<forall>s\<in>set ss. healthy s \<longrightarrow> 0 \<le> weight s) \<Longrightarrow> 0 \<le> tw \<Longrightarrow>
     tw + int (length (slots (map (\<lambda>s. (healthy s, weight s)) ss) i)) < 2 ^ 31 \<Longrightarrow>
     total_weight ss tw = tw + int (length (slots (map (\<lambda>s. (healthy s, weight s)) ss) i))"
proof (induction ss arbitrary: tw i)
  case (Cons s ss)
  show ?case
  proof (cases "healthy s")
    case True
    let ?rest = "slots (map (\<lambda>s. (healthy s, weight s)) ss) (Suc i)"
    from True Cons.prems have w: "0 \<le> weight s" "tw + weight s + int (length ?rest) < 2 ^ 31" by simp_all
    with Cons.prems(2) have "wrap32 (tw + weight s) = tw + weight s" by (intro wrap32_nonneg_id) simp_all
    with True w Cons.IH [of "tw + weight s" "Suc i"] Cons.prems show ?thesis by simp
  next
    case False
    with Cons show ?thesis by simp
  qed
qed simp

lemma slots_loop:
  "(\<forall>s\<in>set ss. healthy s \<longrightarrow> 0 \<le> weight s) \<Longrightarrow>
     c + length (slots (map (\<lambda>s. (healthy s, weight s)) ss) i) < 2 ^ 31 \<Longrightarrow>
     map (\<lambda>t. weight_loop ss i (int c) (int t)) [c..<c + length (slots (map (\<lambda>s. (healthy s, weight s)) ss) i)]
       = map Some (slots (map (\<lambda>s. (healthy s, weight s)) ss) i)"
proof (induction ss arbitrary: c i)
  case (Cons s ss)
  let ?rest = "slots (map (\<lambda>s. (healthy s, weight s)) ss) (Suc i)"
  show ?case
  proof (cases "healthy s")
    case False
    with Cons show ?thesis by simp
  next
    case True
    let ?w = "nat (weight s)"
    from True Cons.prems have nonneg: "0 \<le> weight s" by simp
    from True Cons.prems(2) have bound: "c + ?w + length ?rest < 2 ^ 31" by simp
    have w: "int (c + ?w) = int c + weight s" using nonneg by simp
    have "c + ?w < 2 ^ 31" using bound by linarith
    then have "int (c + ?w) < 2 ^ 31" by (metis of_nat_less_numeral_power_cancel_iff)
    with w nonneg have wrap: "wrap32 (int c + weight s) = int (c + ?w)"
      by (simp add: wrap32_nonneg_id)
    have split: "[c..<c + (?w + length ?rest)] = [c..<c + ?w] @ [c + ?w..<c + ?w + length ?rest]"
      using upt_add_eq_append [of c "c + ?w" "length ?rest"] by (simp add: ac_simps)
    have "map (\<lambda>t. weight_loop (s # ss) i (int c) (int t)) [c..<c + ?w] = map (\<lambda>t. Some i) [c..<c + ?w]"
      using True wrap by (intro map_cong) (auto simp: Let_def)
    also have "\<dots> = replicate ?w (Some i)" by (simp add: map_replicate_const)
    finally have first: "map (\<lambda>t. weight_loop (s # ss) i (int c) (int t)) [c..<c + ?w] = replicate ?w (Some i)" .
    have "map (\<lambda>t. weight_loop (s # ss) i (int c) (int t)) [c + ?w..<c + ?w + length ?rest] =
        map (\<lambda>t. weight_loop ss (Suc i) (int (c + ?w)) (int t)) [c + ?w..<c + ?w + length ?rest]"
      using True wrap by (intro map_cong) (auto simp: Let_def)
    also have "\<dots> = map Some ?rest" using Cons.IH [of "c + ?w" "Suc i"] Cons.prems(1) bound by auto
    finally show ?thesis using True first by (simp add: split)
  qed
qed simp

lemma count_slots:
  "k < length ps \<Longrightarrow> count_list (slots ps i) (i + k) = (if fst (ps ! k) then nat (snd (ps ! k)) else 0)"
proof (induction ps arbitrary: i k)
  case (Cons p ps)
  obtain h w where p: "p = (h, w)" by (cases p)
  have none: "count_list (slots qs (Suc j)) j' = 0" if "j' \<le> j" for qs j j'
    using that by (induction qs arbitrary: j) (auto simp: count_list_append split: prod.splits)
  have rep: "count_list (replicate m a) b = (if a = b then m else 0)" for m and a b :: nat
    by (induction m) auto
  show ?case
  proof (cases k)
    case 0
    with p none [of i i ps] show ?thesis by (auto simp: count_list_append rep)
  next
    case (Suc j)
    with p Cons show ?thesis using Cons.IH [of j "Suc i"] by (auto simp: count_list_append rep)
  qed
qed simp

lemma wrr_choose:
  assumes "running lb0 k lb" "algorithm lb0 = LB_ALGORITHM_WEIGHTED_RR"
    and "\<forall>p\<in>set (profile lb0). fst p \<longrightarrow> 0 \<le> snd p"
    and "length (slots (profile lb0) 0) < 2 ^ 31" "slots (profile lb0) 0 \<noteq> []"
  shows "lb_choose ip lb = Some (Some (slots (profile lb0) 0 ! (k mod length (slots (profile lb0) 0))), bump_index lb)"
proof -
  let ?W = "length (slots (profile lb0) 0)"
  have r: "algorithm lb = LB_ALGORITHM_WEIGHTED_RR" "profile lb = profile lb0" "current_index lb = int k"
    using assms(1,2) by (simp_all add: running_def)
  have pos: "\<forall>s\<in>set (servers lb). healthy s \<longrightarrow> 0 \<le> weight s"
  proof
    fix s
    assume "s \<in> set (servers lb)"
    then have "(healthy s, weight s) \<in> set (profile lb0)"
      unfolding r(2) [symmetric] by (auto simp: profile_def)
    with assms(3) show "healthy s \<longrightarrow> 0 \<le> weight s" by fastforce
  qed
  have prof: "map (\<lambda>s. (healthy s, weight s)) (servers lb) = profile lb0"
    using r(2) by (simp add: profile_def)
  have W: "0 < ?W" using assms(5) by simp
  have total: "total_weight (servers lb) 0 = int ?W"
    using slots_total [OF pos, of 0 0] assms(4) by (simp add: prof)
  have t: "int k smod int ?W = int (k mod ?W)"
    using W by (simp add: smod_nonneg zmod_int)
  have "map (\<lambda>t. weight_loop (servers lb) 0 0 (int t)) [0..<?W] = map Some (slots (profile lb0) 0)"
    using slots_loop [OF pos, of 0 0] assms(4) by (simp add: prof)
  then have "map (\<lambda>t. weight_loop (servers lb) 0 0 (int t)) [0..<?W] ! (k mod ?W) =
      map Some (slots (profile lb0) 0) ! (k mod ?W)" by simp
  then have "weight_loop (servers lb) 0 0 (int (k mod ?W)) = Some (slots (profile lb0) 0 ! (k mod ?W))"
    using W by simp
  with total W t r show ?thesis
    by (simp add: lb_choose_def lb_select_weighted_round_robin_def Let_def)
qed

lemma ip_index:
  assumes "lb_wf lb"
  shows "unat (ip_hash ip mod word_of_int (num_servers lb)) < length (servers lb)" "num_servers lb \<noteq> 0"
proof -
  let ?n = "length (servers lb)"
  have n: "0 < ?n" "?n < 2 ^ 31" "num_servers lb = int ?n" using assms by (auto simp: lb_wf_def)
  then have "unat (word_of_int (num_servers lb) :: uint) = ?n"
    by (simp add: unat_of_nat)
  with n(1) show "unat (ip_hash ip mod word_of_int (num_servers lb)) < ?n" by (simp add: unat_mod)
  show "num_servers lb \<noteq> 0" using n by simp
qed

text \<open>When something is found.\<close>

lemma weight_loop_finds:
  "(\<forall>s\<in>set ss. 0 < weight s) \<Longrightarrow> 0 \<le> c \<Longrightarrow> c + int (\<Sum>s\<leftarrow>ss. nat (weight s)) < 2 ^ 31 \<Longrightarrow>
     t < c + int (\<Sum>s\<leftarrow>ss. if healthy s then nat (weight s) else 0) \<Longrightarrow> \<exists>s\<in>set ss. healthy s \<Longrightarrow>
     weight_loop ss i c t \<noteq> None"
proof (induction ss arbitrary: c i)
  case (Cons s ss)
  have w: "0 < weight s" "c + weight s + int (\<Sum>s\<leftarrow>ss. nat (weight s)) < 2 ^ 31" using Cons.prems(1,3) by simp_all
  show ?case
  proof (cases "healthy s")
    case False
    with Cons.prems w show ?thesis using Cons.IH [of c "Suc i"] by simp
  next
    case True
    have wr: "wrap32 (c + weight s) = c + weight s"
      using w Cons.prems(2) by (intro wrap32_nonneg_id) simp_all
    show ?thesis
    proof (cases "t < c + weight s")
      case False
      with True Cons.prems(4) w(1) have t: "t < c + weight s + int (\<Sum>s\<leftarrow>ss. if healthy s then nat (weight s) else 0)" by simp
      with False have "\<exists>s\<in>set ss. healthy s"
        by (rule_tac ccontr) (simp add: sum_list_eq_0_iff cong: map_cong)
      with t w Cons.prems(1,2) True wr False show ?thesis using Cons.IH [of "c + weight s" "Suc i"] by simp
    qed (use True wr in simp)
  qed
qed simp

lemma choose_finds:
  assumes "lb_wf lb"
    and "algorithm lb = LB_ALGORITHM_LEAST_CONNECTIONS \<longrightarrow> (\<forall>s\<in>set (servers lb). active_connections s < INT_MAX)"
    and "algorithm lb = LB_ALGORITHM_WEIGHTED_RR \<longrightarrow>
      (\<forall>s\<in>set (servers lb). 0 < weight s) \<and> (\<Sum>s\<leftarrow>servers lb. nat (weight s)) < 2 ^ 31"
    and "lb_choose ip lb = Some (r, lb')" "\<exists>s\<in>set (servers lb). healthy s"
  shows "r \<noteq> None"
proof (cases "algorithm lb")
  case LB_ALGORITHM_ROUND_ROBIN
  with assms(4) rr_select [OF assms(1)] show ?thesis by (auto simp: lb_choose_def)
next
  case LB_ALGORITHM_LEAST_CONNECTIONS
  with assms(4) have r: "r = least_loop (servers lb) 0 None INT_MAX"
    by (auto simp: lb_choose_def lb_select_least_connections_def)
  from assms(5) obtain s where "s \<in> set (servers lb)" "healthy s" by blast
  moreover from this(1) have "\<not> INT_MAX \<le> active_connections s" using assms(2) LB_ALGORITHM_LEAST_CONNECTIONS by fastforce
  ultimately show ?thesis unfolding r least_loop_None by blast
next
  case LB_ALGORITHM_IP_HASH
  with assms(1,4) ip_index(1) [OF assms(1), of ip] ip_index(2) [OF assms(1)] rr_select [OF assms(1)] show ?thesis
    by (auto simp: lb_choose_def lb_select_ip_hash_def Let_def split: if_splits)
next
  case LB_ALGORITHM_WEIGHTED_RR
  let ?W = "\<Sum>s\<leftarrow>servers lb. if healthy s then nat (weight s) else 0"
  have pos: "\<forall>s\<in>set (servers lb). 0 < weight s" and sum: "(\<Sum>s\<leftarrow>servers lb. nat (weight s)) < 2 ^ 31"
    using LB_ALGORITHM_WEIGHTED_RR assms(3) by auto
  have "?W \<le> (\<Sum>s\<leftarrow>servers lb. nat (weight s))" by (intro sum_list_mono) simp
  with sum have W: "?W < 2 ^ 31" by simp
  obtain s where s: "s \<in> set (servers lb)" "healthy s" using assms(5) by blast
  have "(if healthy s then nat (weight s) else 0) \<le> ?W" by (rule member_le_sum_list) (use s(1) in auto)
  with s pos have W0: "0 < ?W" by fastforce
  have "length (slots (map (\<lambda>s. (healthy s, weight s)) ss) j) = (\<Sum>s\<leftarrow>ss. if healthy s then nat (weight s) else 0)" for ss j
    by (induction ss arbitrary: j) simp_all
  with slots_total [of "servers lb" 0 0] pos W have tw: "total_weight (servers lb) 0 = int ?W" by force
  have "x smod int w < int w" if "0 < w" for x and w :: nat using smod_int_range [of "int w" x] that by simp
  then have "current_index lb smod int ?W < int ?W" using W0 by blast
  with weight_loop_finds [of "servers lb" 0 "current_index lb smod int ?W" 0] pos sum assms(5)
  have "weight_loop (servers lb) 0 0 (current_index lb smod total_weight (servers lb) 0) \<noteq> None" unfolding tw by simp
  moreover have "total_weight (servers lb) 0 \<noteq> 0" unfolding tw using W0 by linarith
  ultimately show ?thesis
    using assms(4) LB_ALGORITHM_WEIGHTED_RR by (auto simp: lb_choose_def lb_select_weighted_round_robin_def Let_def)
qed

lemma choose_unhealthy:
  assumes "lb_wf lb" "lb_choose ip lb = Some (r, lb')" "\<not> (\<exists>s\<in>set (servers lb). healthy s)"
  shows "r = None \<longleftrightarrow> algorithm lb \<in> {LB_ALGORITHM_LEAST_CONNECTIONS, LB_ALGORITHM_WEIGHTED_RR}"
proof (cases "algorithm lb")
  case LB_ALGORITHM_ROUND_ROBIN
  with assms(2) rr_select [OF assms(1)] show ?thesis by (auto simp: lb_choose_def)
next
  case LB_ALGORITHM_LEAST_CONNECTIONS
  with assms(2,3) show ?thesis by (auto simp: lb_choose_def lb_select_least_connections_def least_loop_None)
next
  case LB_ALGORITHM_IP_HASH
  with assms(1,2) ip_index(1) [OF assms(1), of ip] ip_index(2) [OF assms(1)] rr_select [OF assms(1)] show ?thesis
    by (auto simp: lb_choose_def lb_select_ip_hash_def Let_def split: if_splits)
next
  case LB_ALGORITHM_WEIGHTED_RR
  have "total_weight ss 0 = 0" if "\<forall>s\<in>set ss. \<not> healthy s" for ss using that by (induction ss) simp_all
  with LB_ALGORITHM_WEIGHTED_RR assms(2,3) show ?thesis
    by (auto simp: lb_choose_def lb_select_weighted_round_robin_def Let_def)
qed

text \<open>A run whose choice depends only on the index modulo \<open>n\<close> is fair over whole rounds.\<close>

lemma fair_run:
  assumes choose: "\<And>ip j lb'. running lb j lb' \<Longrightarrow> lb_choose ip lb' = Some (Some (g (j mod n)), bump_index lb')"
    and "lb_wf lb" "current_index lb = int k" "k + length ips < 2 ^ 31" "length ips = q * n"
  shows "\<exists>rs lb'. select_many ips lb = Some (rs, lb') \<and> count_list rs (Some i) = q * count_list (map g [0..<n]) i"
proof -
  have step: "\<exists>lb2. acquire ip lb1 = Some (Some (g (j mod n)), lb2) \<and> running lb (j + 1) lb2"
    if "running lb j lb1" "j + 1 < 2 ^ 31" for ip j lb1
    using running_acquire [OF that choose [OF that(1)]] .
  have "running lb k lb" using assms(2,3) by (simp add: running_def)
  then obtain lb' where r: "select_many ips lb = Some (map (\<lambda>j. Some (g (j mod n))) [k..<k + length ips], lb')"
    using select_many_run [of "running lb" "\<lambda>j. Some (g (j mod n))" k lb ips, OF step _ assms(4)] by blast
  have "count_list (map (\<lambda>j. Some (g (j mod n))) [k..<k + q * n]) (Some i) = count_list (map (\<lambda>j. g (j mod n)) [k..<k + q * n]) i"
    using count_list_map_conv [of Some "map (\<lambda>j. g (j mod n)) [k..<k + q * n]" i] by (simp add: o_def)
  with r show ?thesis using count_periods [of g n k q i] assms(5) by simp
qed

lemma count_upt: "i < n \<Longrightarrow> count_list [0..<n] i = 1"
  by (induction n) (auto simp: less_Suc_eq)

subsection \<open>Properties\<close>

definition demo_lb :: "lb_algorithm \<Rightarrow> load_balancer" where
  "demo_lb alg = \<lparr>servers = [new_server ''a'' 80 1 0, new_server ''b'' 80 2 0], num_servers = 2,
     current_index = 0, algorithm = alg\<rparr>"

lemma demo_lb_wf: "lb_wf (demo_lb alg)"
  by (simp add: lb_wf_def demo_lb_def new_server_def in_c_int_def)

lemma demo_lb_profile: "profile (demo_lb alg) = [(True, 1), (True, 2)]"
  by (simp add: profile_def demo_lb_def new_server_def healthy_def)

text \<open>C37: a healthy backend is found.  Whatever the algorithm and the index are, a selection
  on a balancer in use returns; when there is a healthy backend it returns a healthy one, and
  when there is none it returns no backend exactly for least connections and weighted round
  robin.  Least connections needs every counter below \<open>INT_MAX\<close>, weighted round robin
  positive weights whose sum fits an \<open>int\<close>.\<close>

theorem lb_prefers_healthy:
  assumes "lb_wf lb"
    and "algorithm lb = LB_ALGORITHM_LEAST_CONNECTIONS \<longrightarrow> (\<forall>s\<in>set (servers lb). active_connections s < INT_MAX)"
    and "algorithm lb = LB_ALGORITHM_WEIGHTED_RR \<longrightarrow>
      (\<forall>s\<in>set (servers lb). 0 < weight s) \<and> (\<Sum>s\<leftarrow>servers lb. nat (weight s)) < 2 ^ 31"
  shows "\<exists>r g'. loadbalancer_select_backend ip (Some lb) = Some (r, g') \<and>
    (if \<exists>s\<in>set (servers lb). is_healthy s \<noteq> 0
     then \<exists>i < length (servers lb). r = Some i \<and> is_healthy (servers lb ! i) \<noteq> 0
     else r = None \<longleftrightarrow> algorithm lb \<in> {LB_ALGORITHM_LEAST_CONNECTIONS, LB_ALGORITHM_WEIGHTED_RR})"
proof -
  from acquire_cases [OF assms(1), of ip] obtain r lb' where c: "lb_choose ip lb = Some (r, lb')"
    and h: "\<And>i. r = Some i \<Longrightarrow> i < length (servers lb) \<and>
       ((\<exists>s\<in>set (servers lb). healthy s) \<longrightarrow> healthy (servers lb ! i))" by metis
  from c obtain g' where "loadbalancer_select_backend ip (Some lb) = Some (r, g')"
    by (cases r) (simp_all add: loadbalancer_select_backend_def)
  moreover have "r \<noteq> None" if "\<exists>s\<in>set (servers lb). healthy s" using choose_finds [OF assms c] that by blast
  moreover have "r = None \<longleftrightarrow> algorithm lb \<in> {LB_ALGORITHM_LEAST_CONNECTIONS, LB_ALGORITHM_WEIGHTED_RR}"
    if "\<not> (\<exists>s\<in>set (servers lb). healthy s)" using choose_unhealthy [OF assms(1) c] that by blast
  ultimately show ?thesis using h by (auto simp: healthy_def)
qed

text \<open>The first backend is down.\<close>

theorem lb_prefers_healthy_witness:
  "\<exists>g'. loadbalancer_select_backend ''10.0.0.1'' (Some ((demo_lb LB_ALGORITHM_WEIGHTED_RR)
      \<lparr>servers := [(new_server ''a'' 80 1 0)\<lparr>is_healthy := 0\<rparr>, new_server ''b'' 80 2 0]\<rparr>)) = Some (Some 1, g')"
proof -
  let ?lb = "(demo_lb LB_ALGORITHM_WEIGHTED_RR)\<lparr>servers := [(new_server ''a'' 80 1 0)\<lparr>is_healthy := 0\<rparr>, new_server ''b'' 80 2 0]\<rparr>"
  have "lb_wf ?lb" by (simp add: lb_wf_def demo_lb_def new_server_def in_c_int_def)
  from lb_prefers_healthy [OF this, of "''10.0.0.1''"] show ?thesis
    by (auto simp: demo_lb_def new_server_def less_Suc_eq)
qed

text \<open>No service without a healthy backend?  When every backend is unhealthy, the
  round-robin algorithm still returns one of them, where least connections returns none.\<close>

theorem lb_all_unhealthy:
  assumes "lb_wf lb" "\<forall>s\<in>set (servers lb). is_healthy s = 0"
  shows "(\<exists>i g'. loadbalancer_select_backend ip (Some (lb\<lparr>algorithm := LB_ALGORITHM_ROUND_ROBIN\<rparr>)) = Some (Some i, g')
      \<and> is_healthy (servers lb ! i) = 0) \<and>
    loadbalancer_select_backend ip (Some (lb\<lparr>algorithm := LB_ALGORITHM_LEAST_CONNECTIONS\<rparr>)) =
      Some (None, Some (lb\<lparr>algorithm := LB_ALGORITHM_LEAST_CONNECTIONS\<rparr>))"
proof
  have "lb_wf (lb\<lparr>algorithm := LB_ALGORITHM_ROUND_ROBIN\<rparr>)" using assms(1) by (simp add: lb_wf_def)
  from rr_select [OF this] obtain r lb' where
    "lb_select_round_robin (lb\<lparr>algorithm := LB_ALGORITHM_ROUND_ROBIN\<rparr>) = Some (Some r, lb')" "r < length (servers lb)"
    by auto
  with assms(2) show "\<exists>i g'. loadbalancer_select_backend ip (Some (lb\<lparr>algorithm := LB_ALGORITHM_ROUND_ROBIN\<rparr>)) =
      Some (Some i, g') \<and> is_healthy (servers lb ! i) = 0"
    by (auto simp: loadbalancer_select_backend_def lb_choose_def)
next
  have "least_loop (servers lb) 0 None INT_MAX = None"
    using assms(2) by (simp add: least_loop_None healthy_def)
  then show "loadbalancer_select_backend ip (Some (lb\<lparr>algorithm := LB_ALGORITHM_LEAST_CONNECTIONS\<rparr>)) =
      Some (None, Some (lb\<lparr>algorithm := LB_ALGORITHM_LEAST_CONNECTIONS\<rparr>))"
    by (simp add: loadbalancer_select_backend_def lb_choose_def lb_select_least_connections_def)
qed

theorem lb_all_unhealthy_witness:
  "\<exists>i g'. loadbalancer_select_backend ''10.0.0.1''
     (Some ((demo_lb LB_ALGORITHM_IP_HASH)\<lparr>servers := [(new_server ''a'' 80 1 0)\<lparr>is_healthy := 0\<rparr>], num_servers := 1,
        algorithm := LB_ALGORITHM_ROUND_ROBIN\<rparr>)) = Some (Some i, g')"
proof -
  let ?lb = "(demo_lb LB_ALGORITHM_IP_HASH)\<lparr>servers := [(new_server ''a'' 80 1 0)\<lparr>is_healthy := 0\<rparr>], num_servers := 1\<rparr>"
  have "lb_wf ?lb" by (simp add: lb_wf_def new_server_def in_c_int_def)
  from lb_all_unhealthy [OF this, of "''10.0.0.1''"] show ?thesis by auto
qed

text \<open>C20: round robin is fair.  With all backends healthy, from any non-negative index,
  any run of \<open>q\<close> times the number of backends selects each of them exactly \<open>q\<close> times.\<close>

theorem round_robin_fair:
  assumes "lb_wf lb" "algorithm lb = LB_ALGORITHM_ROUND_ROBIN" "\<forall>s\<in>set (servers lb). is_healthy s \<noteq> 0"
    and "current_index lb = int k" "k + length ips < 2 ^ 31"
    and "length ips = q * length (servers lb)" "i < length (servers lb)"
  shows "\<exists>rs lb'. select_many ips lb = Some (rs, lb') \<and> count_list rs (Some i) = q"
proof -
  have "\<forall>p\<in>set (profile lb). fst p" using assms(3) by (auto simp: profile_def healthy_def)
  then have "lb_choose ip lb' = Some (Some (id (j mod length (servers lb))), bump_index lb')" if "running lb j lb'" for ip j lb'
    using rr_choose [OF that assms(2)] by (simp add: profile_length)
  from fair_run [where g = id and n = "length (servers lb)", OF this assms(1,4,5,6)] obtain rs lb' where
    "select_many ips lb = Some (rs, lb')" "count_list rs (Some i) = q * count_list (map id [0..<length (servers lb)]) i"
    by blast
  then show ?thesis using count_upt [OF assms(7)] by simp
qed

theorem round_robin_fair_witness:
  "\<exists>rs lb'. select_many (replicate 6 ''1.2.3.4'') (demo_lb LB_ALGORITHM_ROUND_ROBIN) = Some (rs, lb') \<and> count_list rs (Some 1) = 3"
  by (rule round_robin_fair [OF demo_lb_wf, of _ 0]) (simp_all add: demo_lb_def new_server_def)

text \<open>C19: weighted round robin honours the weights.  With non-negative weights whose sum
  over the healthy backends is positive and fits an \<open>int\<close>, a run of \<open>q\<close> times that sum
  selects each healthy backend \<open>q\<close> times its weight, and an unhealthy one never.\<close>

theorem weighted_round_robin_fair:
  assumes "lb_wf lb" "algorithm lb = LB_ALGORITHM_WEIGHTED_RR"
    and "\<forall>s\<in>set (servers lb). 0 \<le> weight s"
    and "W = (\<Sum>s\<leftarrow>servers lb. if is_healthy s \<noteq> 0 then nat (weight s) else 0)" "0 < W" "W < 2 ^ 31"
    and "current_index lb = int k" "k + length ips < 2 ^ 31" "length ips = q * W" "i < length (servers lb)"
  shows "\<exists>rs lb'. select_many ips lb = Some (rs, lb') \<and>
    count_list rs (Some i) = (if is_healthy (servers lb ! i) \<noteq> 0 then q * nat (weight (servers lb ! i)) else 0)"
proof -
  let ?slots = "slots (profile lb) 0"
  have "length (slots (map (\<lambda>s. (healthy s, weight s)) ss) j) =
      (\<Sum>s\<leftarrow>ss. if is_healthy s \<noteq> 0 then nat (weight s) else 0)" for ss j
    by (induction ss arbitrary: j) (simp_all add: healthy_def)
  then have W: "length ?slots = W" by (simp add: profile_def assms(4))
  have "lb_choose ip lb' = Some (Some (?slots ! (j mod W)), bump_index lb')" if "running lb j lb'" for ip j lb'
    using wrr_choose [OF that assms(2)] assms(3,5,6) W by (auto simp: profile_def)
  from fair_run [where g = "\<lambda>t. ?slots ! t" and n = W, OF this assms(1,7,8,9)] obtain rs lb' where
    rs: "select_many ips lb = Some (rs, lb')" "count_list rs (Some i) = q * count_list (map ((!) ?slots) [0..<W]) i" by blast
  have "map ((!) ?slots) [0..<W] = ?slots" using W map_nth [of ?slots] by simp
  moreover have "count_list ?slots i = (if is_healthy (servers lb ! i) \<noteq> 0 then nat (weight (servers lb ! i)) else 0)"
    using count_slots [of i "profile lb" 0] assms(10) by (simp add: profile_def healthy_def)
  ultimately show ?thesis using rs by simp
qed

theorem weighted_round_robin_fair_witness:
  "\<exists>rs lb'. select_many (replicate 6 ''1.2.3.4'') (demo_lb LB_ALGORITHM_WEIGHTED_RR) = Some (rs, lb') \<and> count_list rs (Some 1) = 4"
  using weighted_round_robin_fair [OF demo_lb_wf, of LB_ALGORITHM_WEIGHTED_RR 3 0 "replicate 6 ''1.2.3.4''" 2 1]
  by (simp add: demo_lb_def new_server_def)

text \<open>Least connections picks a minimum.  The backend it selects is healthy and no
  healthy backend has fewer active connections; it selects none exactly when every healthy
  backend (if there is one) has \<open>INT_MAX\<close> connections.\<close>

theorem least_connections_minimal:
  assumes "\<forall>s\<in>set (servers lb). active_connections s \<le> INT_MAX"
  shows "case lb_select_least_connections lb of
      None \<Rightarrow> \<forall>s\<in>set (servers lb). is_healthy s \<noteq> 0 \<longrightarrow> active_connections s = INT_MAX
    | Some i \<Rightarrow> i < length (servers lb) \<and> is_healthy (servers lb ! i) \<noteq> 0 \<and>
        (\<forall>s\<in>set (servers lb). is_healthy s \<noteq> 0 \<longrightarrow> active_connections (servers lb ! i) \<le> active_connections s)"
proof (cases "lb_select_least_connections lb")
  case None
  then have "\<forall>s\<in>set (servers lb). is_healthy s \<noteq> 0 \<longrightarrow> INT_MAX \<le> active_connections s"
    by (simp add: lb_select_least_connections_def least_loop_None healthy_def)
  with assms have "\<forall>s\<in>set (servers lb). is_healthy s \<noteq> 0 \<longrightarrow> active_connections s = INT_MAX"
    using order_antisym by blast
  with None show ?thesis by simp
next
  case (Some i)
  from least_loop_Some [OF Some [unfolded lb_select_least_connections_def]] Some
  show ?thesis by (auto simp: healthy_def)
qed

theorem least_connections_minimal_witness:
  "case lb_select_least_connections (demo_lb LB_ALGORITHM_LEAST_CONNECTIONS) of None \<Rightarrow> False | Some i \<Rightarrow> i = 0"
  using least_connections_minimal [of "demo_lb LB_ALGORITHM_LEAST_CONNECTIONS"]
  by (simp add: demo_lb_def new_server_def INT_MAX_def lb_select_least_connections_def healthy_def)

text \<open>C21: connection accounting.  In every history of selections and releases in which no
  backend is released more often than it was selected, each counter of active connections is
  exactly the number of selections of that backend not yet released.\<close>

theorem lb_connection_accounting:
  assumes "lb_wf lb" "\<forall>s\<in>set (servers lb). active_connections s = 0"
    and "lease_trace acquire release lb es lb'" "length es < 2 ^ 31" "outstanding es (\<lambda>_. 0) = Some h"
    and "i < length (servers lb')"
  shows "active_connections (servers lb' ! i) = int (h i)"
proof -
  have "in_use lb = (\<lambda>r. int 0)" using assms(2) by (auto simp: in_use_def)
  moreover have "\<forall>r::nat. int (0 + length es) \<le> 2 ^ 31 - 1" using assms(4) by simp
  ultimately have "in_use lb' = (\<lambda>r. int (h r))"
    using backends.lease_accounting [OF assms(3,1), of "\<lambda>_. 0" h] assms(5) by blast
  then have "in_use lb' i = int (h i)" by simp
  with assms(6) show ?thesis by (simp add: in_use_def)
qed

theorem lb_connection_accounting_witness:
  "\<exists>lb'. lease_trace acquire release (demo_lb LB_ALGORITHM_LEAST_CONNECTIONS) [Leased 0, Leased 1, Returned 0] lb' \<and>
     active_connections (servers lb' ! 0) = 0 \<and> active_connections (servers lb' ! 1) = 1"
proof -
  obtain lb1 where a1: "acquire ''c'' (demo_lb LB_ALGORITHM_LEAST_CONNECTIONS) = Some (Some 0, lb1)"
    and l1: "lb1 = update_server 0 lease_one (demo_lb LB_ALGORITHM_LEAST_CONNECTIONS)"
    by (simp add: acquire_def loadbalancer_select_backend_def lb_choose_def demo_lb_def
        lb_select_least_connections_def new_server_def healthy_def INT_MAX_def lease_one_def [abs_def])
  have "lb_select_least_connections lb1 = Some 1"
    by (simp add: l1 demo_lb_def lease_one_def lb_select_least_connections_def new_server_def healthy_def INT_MAX_def
        wrap32_nonneg_id)
  then obtain lb2 where a2: "acquire ''c'' lb1 = Some (Some 1, lb2)" and l2: "lb2 = update_server 1 lease_one lb1"
    by (simp add: acquire_def loadbalancer_select_backend_def lb_choose_def l1 demo_lb_def lease_one_def [abs_def])
  have t: "lease_trace acquire release (demo_lb LB_ALGORITHM_LEAST_CONNECTIONS) [Leased 0, Leased 1, Returned 0] (release 0 lb2)"
    by (rule lease_trace.leased [where acquire = acquire, OF a1 lease_trace.leased [where acquire = acquire, OF a2
            lease_trace.returned [OF lease_trace.idle]]])
  have len: "length (servers (release 0 lb2)) = 2"
    by (simp add: l2 l1 demo_lb_def release_def loadbalancer_release_backend_def)
  have zero: "\<forall>s\<in>set (servers (demo_lb LB_ALGORITHM_LEAST_CONNECTIONS)). active_connections s = 0"
    by (simp add: demo_lb_def new_server_def)
  note acc = lb_connection_accounting [OF demo_lb_wf zero t]
  show ?thesis using t acc [of _ 0] acc [of _ 1] len by auto
qed

end
