(* ===== verification/Doubles.thy ===== *)
theory Doubles
  imports Complex_Main
begin

text \<open>
  The \<open>double\<close> arithmetic that the rate limiter uses.  A double is the rational number it
  stands for, and every operation of the code is the exact operation followed by \<open>fl\<close>, the
  rounding of IEEE 754 binary64 to nearest, ties to even.  The range of exponents is not
  bounded: the values of the code lie between \<open>2^-60\<close> and \<open>2^64\<close>, far from overflow and from
  the subnormal numbers.
\<close>

fun lg :: "nat \<Rightarrow> nat" where
  "lg n = (if n < 2 then 0 else Suc (lg (n div 2)))"

declare lg.simps [simp del]

text \<open>The exponent \<open>e\<close> with \<open>2^e \<le> x < 2^(e+1)\<close> of a positive number.\<close>

definition expo :: "rat \<Rightarrow> int" where
  "expo x =
     (case quotient_of x of (a, b) \<Rightarrow>
        let e = int (lg (nat a)) - int (lg (nat b)) in if x < 2 powi e then e - 1 else e)"

definition rne :: "rat \<Rightarrow> int" where
  "rne x =
     (let f = \<lfloor>x\<rfloor>; d = x - of_int f
      in if d < 1 / 2 then f else if 1 / 2 < d then f + 1 else if even f then f else f + 1)"

definition fl :: "rat \<Rightarrow> rat" where
  "fl x =
     (if x = 0 then 0
      else let k = expo \<bar>x\<bar> - 52 in of_int (rne (x / 2 powi k)) * 2 powi k)"

subsection \<open>Facts\<close>

lemma lg_bounds: "0 < n \<Longrightarrow> 2 ^ lg n \<le> n \<and> n < 2 ^ Suc (lg n)"
proof (induction n rule: lg.induct)
  case (1 n)
  show ?case
  proof (cases "n < 2")
    case True
    with 1(2) show ?thesis by (simp add: lg.simps [of n])
  next
    case False
    then have "2 ^ lg (n div 2) \<le> n div 2 \<and> n div 2 < 2 ^ Suc (lg (n div 2))" using 1 by simp
    with False show ?thesis by (auto simp: lg.simps [of n])
  qed
qed

lemma lg_rat:
  assumes "0 < (i::int)"
  shows "(2::rat) ^ lg (nat i) \<le> of_int i" "of_int i < (2::rat) * 2 ^ lg (nat i)"
proof -
  have "2 ^ lg (nat i) \<le> nat i" "nat i < 2 * 2 ^ lg (nat i)"
    using lg_bounds [of "nat i"] assms by simp_all
  then have "(of_nat (2 ^ lg (nat i)) :: rat) \<le> of_nat (nat i)" "(of_nat (nat i) :: rat) < of_nat (2 * 2 ^ lg (nat i))"
    by (simp_all only: of_nat_le_iff of_nat_less_iff)
  then show "(2::rat) ^ lg (nat i) \<le> of_int i" "of_int i < (2::rat) * 2 ^ lg (nat i)"
    using assms by simp_all
qed

lemma expo_bounds:
  assumes "0 < x"
  shows "2 powi expo x \<le> x" "x < 2 powi (expo x + 1)"
proof -
  obtain a b where q: "quotient_of x = (a, b)" by (cases "quotient_of x")
  have b: "0 < b" using quotient_of_denom_pos [OF q] .
  have x: "x = of_int a / of_int b" using quotient_of_div [OF q] .
  with assms b have a: "0 < a" by (simp add: zero_less_divide_iff)
  define A :: rat where "A = 2 ^ lg (nat a)"
  define B :: rat where "B = 2 ^ lg (nat b)"
  have A: "0 < A" "A \<le> of_int a" "of_int a < 2 * A" using lg_rat [OF a] by (simp_all add: A_def)
  have B: "0 < B" "B \<le> of_int b" "of_int b < 2 * B" using lg_rat [OF b] by (simp_all add: B_def)
  define e where "e = int (lg (nat a)) - int (lg (nat b))"
  have pe: "2 powi e = A / B" by (simp add: e_def power_int_diff A_def B_def)
  have "x < 2 * (A / B)"
  proof -
    have "of_int a / of_int b \<le> of_int a / B" using B a b by (intro divide_left_mono) simp_all
    also have "\<dots> < 2 * A / B" using A B by (intro divide_strict_right_mono) simp_all
    finally show ?thesis by (simp add: x)
  qed
  then have hi: "x < 2 powi (e + 1)" by (simp add: power_int_add_1 pe mult.commute)
  have "A / B / 2 < x"
  proof -
    have "A / (2 * B) < A / of_int b" using A B b by (intro divide_strict_left_mono) simp_all
    also have "\<dots> \<le> of_int a / of_int b" using A b by (intro divide_right_mono) simp_all
    finally show ?thesis by (simp add: x mult.commute)
  qed
  then have lo: "2 powi (e - 1) \<le> x" by (simp add: power_int_diff pe)
  have ex: "expo x = (if x < 2 powi e then e - 1 else e)"
    by (simp add: expo_def q e_def Let_def)
  show "2 powi expo x \<le> x" using lo by (auto simp: ex)
  show "x < 2 powi (expo x + 1)" using hi by (auto simp: ex)
qed

lemma rne_error: "\<bar>of_int (rne x) - x\<bar> \<le> 1 / 2"
proof -
  define d where "d = x - of_int \<lfloor>x\<rfloor>"
  have d: "0 \<le> d" "d < 1" by (simp_all add: d_def) linarith
  have "of_int (rne x) - x = (if d < 1 / 2 then - d else if 1 / 2 < d then 1 - d else if even \<lfloor>x\<rfloor> then - d else 1 - d)"
    by (simp add: rne_def Let_def d_def)
  with d show ?thesis by auto
qed

lemma rne_of_int [simp]: "rne (of_int i) = i"
  by (simp add: rne_def Let_def)

lemma rne_nonneg: "0 \<le> x \<Longrightarrow> 0 \<le> rne x"
  by (simp add: rne_def Let_def)

lemma fl_0 [simp]: "fl 0 = 0"
  by (simp add: fl_def)

lemma fl_nonneg: "0 \<le> x \<Longrightarrow> 0 \<le> fl x"
  by (simp add: fl_def Let_def rne_nonneg)

text \<open>The relative error of one rounding.\<close>

definition ulp :: rat where "ulp = 1 / 2 ^ 53"

lemma fl_error:
  assumes "0 \<le> x"
  shows "\<bar>fl x - x\<bar> \<le> x * ulp"
proof (cases "x = 0")
  case False
  with assms have x: "0 < x" by simp
  define k where "k = expo x - 52"
  define p :: rat where "p = 2 powi k"
  have p: "0 < p" by (simp add: p_def)
  have "fl x = of_int (rne (x / p)) * p"
    using x by (simp add: fl_def Let_def k_def p_def)
  then have "fl x - x = (of_int (rne (x / p)) - x / p) * p" using p by (simp add: field_simps)
  then have "\<bar>fl x - x\<bar> = \<bar>of_int (rne (x / p)) - x / p\<bar> * p" using p by (simp add: abs_mult)
  also have "\<dots> \<le> 1 / 2 * p" using p rne_error [of "x / p"] by (intro mult_right_mono) simp_all
  also have "p = 2 powi expo x / 2 ^ 52" by (simp add: p_def k_def power_int_diff)
  also have "1 / 2 * (2 powi expo x / 2 ^ 52) \<le> x * ulp"
    using expo_bounds(1) [OF x] by (simp add: ulp_def)
  finally show ?thesis .
qed simp

lemma fl_nonpos:
  assumes "x \<le> 0"
  shows "fl x \<le> 0"
proof -
  have "rne y \<le> 0" if "y \<le> 0" for y
  proof -
    have "(of_int (rne y) :: rat) < of_int 1" using rne_error [of y] that unfolding abs_le_iff by simp
    then show ?thesis by (simp only: of_int_less_iff)
  qed
  with assms show ?thesis by (simp add: fl_def Let_def mult_nonpos_nonneg divide_nonpos_pos)
qed

lemma fl_le: "0 \<le> x \<Longrightarrow> fl x \<le> x * (1 + ulp)"
  using fl_error [of x] by (simp add: algebra_simps abs_le_iff)

lemma fl_pos: "0 < x \<Longrightarrow> 0 < fl x"
proof -
  assume x: "0 < x"
  have "x * ulp < x" using x by (simp add: ulp_def)
  then show ?thesis using fl_error [of x] x unfolding abs_le_iff by linarith
qed

text \<open>Numbers with at most 53 significant bits are represented exactly.\<close>

definition representable :: "rat \<Rightarrow> bool" where
  "representable x \<longleftrightarrow> (\<exists>m j. x = of_int m * 2 powi j \<and> \<bar>m\<bar> \<le> 2 ^ 53)"

lemma significand_pos:
  assumes "0 < of_int m * (2::rat) powi j"
  shows "0 < m"
proof (rule ccontr)
  assume "\<not> 0 < m"
  moreover have "(0::rat) < 2 powi j" by simp
  ultimately have "of_int m * (2::rat) powi j \<le> 0" by (intro mult_nonpos_nonneg) simp_all
  with assms show False by simp
qed

lemma fl_exact:
  assumes "representable x" "0 \<le> x"
  shows "fl x = x"
proof (cases "x = 0")
  case False
  with assms obtain m j where x: "x = of_int m * 2 powi j" "\<bar>m\<bar> \<le> 2 ^ 53" "0 < x"
    by (force simp: representable_def)
  then have m: "0 < m" "m \<le> 2 ^ 53" using significand_pos [of m j] by simp_all
  define k where "k = expo x - 52"
  have "\<exists>i. x / 2 powi k = of_int i"
  proof (cases "k \<le> j")
    case True
    have "(2::rat) powi j / 2 powi k = 2 powi (j - k)" by (simp add: power_int_diff)
    also have "\<dots> = 2 ^ nat (j - k)" using True by (simp add: power_int_def)
    finally have "(2::rat) powi j / 2 powi k = 2 ^ nat (j - k)" .
    then have "x / 2 powi k = of_int m * 2 ^ nat (j - k)"
      by (simp add: x(1) field_simps)
    also have "\<dots> = of_int (m * 2 ^ nat (j - k))" by simp
    finally show ?thesis by blast
  next
    case False
    have "(2::rat) powi expo x \<le> 2 ^ 53 * 2 powi j"
    proof -
      have "x \<le> of_int (2 ^ 53) * 2 powi j"
        unfolding x(1) using m(2) by (intro mult_right_mono) (simp_all del: of_int_power)
      with expo_bounds(1) [OF x(3)] show ?thesis by simp
    qed
    also have "(2::rat) ^ 53 * 2 powi j = 2 powi (j + 53)" by (simp add: power_int_add)
    finally have "expo x \<le> j + 53"
      using power_int_strict_increasing [of "j + 53" "expo x" "2::rat"] by (cases "expo x \<le> j + 53") auto
    with False have e: "expo x = j + 53" by (simp add: k_def)
    have k: "k = j + 1" by (simp add: k_def e)
    have "x / 2 powi k = of_int m / 2"
      unfolding x(1) k by (simp add: power_int_add)
    moreover have "(2::rat) powi (j + 53) \<le> of_int m * 2 powi j"
      using expo_bounds(1) [OF x(3)] e x(1) by simp
    then have "(2::rat) ^ 53 \<le> of_int m" by (simp add: power_int_add)
    with m(2) have "m = 2 ^ 53" by simp
    ultimately have "x / 2 powi k = of_int (2 ^ 52)" by simp
    then show ?thesis by blast
  qed
  then obtain i where i: "x / 2 powi k = of_int i" by blast
  then have "fl x = of_int i * 2 powi k" using x(3) by (simp add: fl_def Let_def k_def)
  also have "\<dots> = x" using i by (simp add: field_simps)
  finally show ?thesis .
qed simp

lemma representable_fl:
  assumes "0 \<le> x"
  shows "representable (fl x)"
proof (cases "x = 0")
  case True
  then show ?thesis by (auto simp: representable_def intro!: exI [of _ 0])
next
  case False
  with assms have x: "0 < x" by simp
  define k where "k = expo x - 52"
  have f: "fl x = of_int (rne (x / 2 powi k)) * 2 powi k"
    using x by (simp add: fl_def Let_def k_def)
  have "x / 2 powi k < 2 ^ 53"
    using expo_bounds(2) [OF x] by (simp add: k_def power_int_diff power_int_add field_simps)
  then have "of_int (rne (x / 2 powi k)) < (2::rat) ^ 53 + 1"
    using rne_error [of "x / 2 powi k"] unfolding abs_le_iff by linarith
  then have "(of_int (rne (x / 2 powi k)) :: rat) < of_int (2 ^ 53 + 1)" by simp
  then have "rne (x / 2 powi k) < 2 ^ 53 + 1" by (simp only: of_int_less_iff)
  moreover have "0 \<le> rne (x / 2 powi k)" using x by (simp add: rne_nonneg)
  ultimately have "\<bar>rne (x / 2 powi k)\<bar> \<le> 2 ^ 53" by simp
  with f show ?thesis unfolding representable_def by blast
qed

lemma representable_int:
  assumes "\<bar>i\<bar> \<le> 2 ^ 53"
  shows "representable (of_int i)"
proof -
  have "(of_int i :: rat) = of_int i * 2 powi 0" by simp
  with assms show ?thesis unfolding representable_def by blast
qed

lemma representable_minus_1:
  assumes "representable t" "1 \<le> t" "t \<le> 2 ^ 53"
  shows "representable (t - 1)"
proof -
  obtain m j where t: "t = of_int m * 2 powi j" "\<bar>m\<bar> \<le> 2 ^ 53"
    using assms(1) by (auto simp: representable_def)
  have m: "0 < m" using t(1) assms(2) significand_pos [of m j] by simp
  show ?thesis
  proof (cases "0 \<le> j")
    case True
    then have int: "t - 1 = of_int (m * 2 ^ nat j - 1)" by (simp add: t(1) power_int_def)
    have "of_int (m * 2 ^ nat j) = t" using int by simp
    with assms(2,3) have "(of_int (m * 2 ^ nat j) :: rat) \<le> of_int (2 ^ 53)" "(of_int 1 :: rat) \<le> of_int (m * 2 ^ nat j)"
      by simp_all
    then have "m * 2 ^ nat j \<le> 2 ^ 53" "1 \<le> m * 2 ^ nat j" by (simp_all only: of_int_le_iff)
    then show ?thesis unfolding int by (intro representable_int) simp
  next
    case False
    define q :: rat where "q = of_int (2 ^ nat (- j))"
    have q: "0 < q" by (simp add: q_def)
    have "(2::rat) powi (- j) = q" using False by (simp add: power_int_def q_def)
    then have pj: "(2::rat) powi j = 1 / q"
      using power_int_minus [of "2::rat" "- j"] by (simp add: inverse_eq_divide)
    have tm: "of_int m = t * q" using q by (simp add: t(1) pj)
    have minus: "t - 1 = of_int (m - 2 ^ nat (- j)) * 2 powi j"
    proof -
      have "of_int (m - 2 ^ nat (- j)) = t * q - q" unfolding q_def of_int_diff tm [unfolded q_def] ..
      moreover have "(t * q - q) * (1 / q) = t - 1" using q by (simp add: diff_divide_distrib)
      ultimately show ?thesis unfolding pj by (simp only:)
    qed
    have "1 * q \<le> t * q" using assms(2) q by (intro mult_right_mono) simp_all
    then have "(of_int (2 ^ nat (- j)) :: rat) \<le> of_int m" by (simp only: tm q_def mult_1)
    then have "2 ^ nat (- j) \<le> m" by (simp only: of_int_le_iff)
    moreover have "(0::int) < 2 ^ nat (- j)" by simp
    ultimately have "\<bar>m - 2 ^ nat (- j)\<bar> \<le> 2 ^ 53" using t(2) m by linarith
    with minus show ?thesis unfolding representable_def by blast
  qed
qed

end
