(* ===== verification/Rate_Limit.thy ===== *)
theory Rate_Limit
  imports Config Doubles
begin

text \<open>
  Rate limiting, \<^verbatim>\<open>src/monitor/ratelimit.c\<close>: a token bucket and a bandwidth window for
  each client address, in linked lists that are searched by \<open>strcmp\<close> on the 16-byte address
  arrays.  Lists have the newest node first.  The array of a new node holds what \<open>malloc\<close>
  found there, overwritten by \<open>strncpy\<close>.  Every call runs under one mutex; the readings of
  the clock during a call are arguments.
\<close>

subsection \<open>State\<close>

record rate_limiter =
  rl_ip :: "char list"
  tokens :: rat
  max_tokens :: rat
  refill_rate :: rat
  last_refill :: time_t

record bandwidth_tracker =
  bt_ip :: "char list"
  up_bytes :: size_t
  down_bytes :: size_t
  window_start :: time_t
  last_activity :: time_t

text \<open>The search of a list: the position of the first node whose array equals the address;
  the outer \<^const>\<open>None\<close> is a comparison that leaves its array.\<close>

fun scan_ip :: "('a \<Rightarrow> char list) \<Rightarrow> 'a list \<Rightarrow> string \<Rightarrow> nat option option" where
  "scan_ip ip_of [] ip = Some None"
| "scan_ip ip_of (x # xs) ip =
     (case array_eq (ip_of x) ip of
        None \<Rightarrow> None
      | Some True \<Rightarrow> Some (Some 0)
      | Some False \<Rightarrow> map_option (map_option Suc) (scan_ip ip_of xs ip))"

definition new_ip :: "char list \<Rightarrow> string \<Rightarrow> char list" where
  "new_ip junk ip = strncpy junk ip (INET_ADDRSTRLEN - 1)"

subsection \<open>The token bucket\<close>

definition new_limiter :: "proxy_config \<Rightarrow> char list \<Rightarrow> time_t \<Rightarrow> string \<Rightarrow> rate_limiter" where
  "new_limiter cfg junk now ip =
     \<lparr>rl_ip = new_ip junk ip, tokens = of_int (rate_limit_requests cfg),
      max_tokens = of_int (rate_limit_requests cfg),
      refill_rate = fl (of_int (rate_limit_requests cfg) / 60), last_refill = now\<rparr>"

text \<open>The position of the limiter in the list that results, \<^const>\<open>None\<close> when there is no
  memory for a new one.\<close>

definition get_rate_limiter ::
  "proxy_config \<Rightarrow> char list option \<Rightarrow> time_t \<Rightarrow> string \<Rightarrow> rate_limiter list
     \<Rightarrow> (nat option \<times> rate_limiter list) option" where
  "get_rate_limiter cfg m now ip limiters =
     (case scan_ip rl_ip limiters ip of
        None \<Rightarrow> None
      | Some (Some i) \<Rightarrow> Some (Some i, limiters)
      | Some None \<Rightarrow>
          (case m of None \<Rightarrow> Some (None, limiters)
           | Some junk \<Rightarrow> Some (Some 0, new_limiter cfg junk now ip # limiters)))"

definition difftime :: "time_t \<Rightarrow> time_t \<Rightarrow> rat" where
  "difftime t1 t0 = fl (of_int (t1 - t0))"

definition refill_tokens :: "time_t \<Rightarrow> rate_limiter \<Rightarrow> rate_limiter" where
  "refill_tokens now l =
     (let elapsed = difftime now (last_refill l)
      in if 0 < elapsed then
           (let t = fl (tokens l + fl (elapsed * refill_rate l))
            in l\<lparr>tokens := (if max_tokens l < t then max_tokens l else t), last_refill := now\<rparr>)
         else l)"

definition take_token :: "rate_limiter \<Rightarrow> c_int \<times> rate_limiter" where
  "take_token l = (if 1 \<le> tokens l then (0, l\<lparr>tokens := fl (tokens l - 1)\<rparr>) else (-1, l))"

text \<open>\<open>now\<close> is the clock when a limiter is created, \<open>now'\<close> when it is refilled.\<close>

definition ratelimit_check_request ::
  "proxy_config \<Rightarrow> char list option \<Rightarrow> time_t \<Rightarrow> time_t \<Rightarrow> string \<Rightarrow> rate_limiter list
     \<Rightarrow> (c_int \<times> rate_limiter list) option" where
  "ratelimit_check_request cfg m now now' ip limiters =
     (if enable_rate_limiting cfg = 0 then Some (0, limiters)
      else case get_rate_limiter cfg m now ip limiters of
        None \<Rightarrow> None
      | Some (None, ls) \<Rightarrow> Some (-1, ls)
      | Some (Some i, ls) \<Rightarrow>
          (let (r, l) = take_token (refill_tokens now' (ls ! i)) in Some (r, ls[i := l])))"

subsection \<open>The bandwidth window\<close>

definition new_tracker :: "char list \<Rightarrow> time_t \<Rightarrow> string \<Rightarrow> bandwidth_tracker" where
  "new_tracker junk now ip =
     \<lparr>bt_ip = new_ip junk ip, up_bytes = 0, down_bytes = 0, window_start = now, last_activity = now\<rparr>"

definition touch_tracker :: "time_t \<Rightarrow> bandwidth_tracker \<Rightarrow> bandwidth_tracker" where
  "touch_tracker now t =
     (if 60 \<le> difftime now (window_start t)
      then t\<lparr>up_bytes := 0, down_bytes := 0, window_start := now\<rparr> else t)\<lparr>last_activity := now\<rparr>"

definition get_bandwidth_tracker ::
  "char list option \<Rightarrow> time_t \<Rightarrow> string \<Rightarrow> bandwidth_tracker list
     \<Rightarrow> (nat option \<times> bandwidth_tracker list) option" where
  "get_bandwidth_tracker m now ip ts =
     (case scan_ip bt_ip ts ip of
        None \<Rightarrow> None
      | Some (Some i) \<Rightarrow> Some (Some i, ts[i := touch_tracker now (ts ! i)])
      | Some None \<Rightarrow>
          (case m of None \<Rightarrow> Some (None, ts) | Some junk \<Rightarrow> Some (Some 0, new_tracker junk now ip # ts)))"

definition count_bytes :: "size_t \<Rightarrow> c_int \<Rightarrow> bandwidth_tracker \<Rightarrow> bandwidth_tracker" where
  "count_bytes bytes direction t =
     (if direction = 0 then t\<lparr>up_bytes := up_bytes t + bytes\<rparr> else t\<lparr>down_bytes := down_bytes t + bytes\<rparr>)"

definition bandwidth_bps :: "time_t \<Rightarrow> bandwidth_tracker \<Rightarrow> size_t" where
  "bandwidth_bps now t =
     (let d = difftime now (window_start t);
          window = (if d = 0 then 1 else d);
          total = up_bytes t + down_bytes t
      in word_of_int \<lfloor>fl (fl (of_nat (unat total)) / window)\<rfloor>)"

definition limit_bps :: "proxy_config \<Rightarrow> size_t" where
  "limit_bps cfg = word_of_int (wrap32 (rate_limit_bandwidth_kbps cfg * 1024))"

definition ratelimit_check_bandwidth ::
  "proxy_config \<Rightarrow> char list option \<Rightarrow> time_t \<Rightarrow> time_t \<Rightarrow> string \<Rightarrow> size_t \<Rightarrow> c_int \<Rightarrow> bandwidth_tracker list
     \<Rightarrow> (c_int \<times> bandwidth_tracker list) option" where
  "ratelimit_check_bandwidth cfg m now now' ip bytes direction ts =
     (if enable_rate_limiting cfg = 0 \<or> rate_limit_bandwidth_kbps cfg = 0 then Some (0, ts)
      else case get_bandwidth_tracker m now ip ts of
        None \<Rightarrow> None
      | Some (None, ts) \<Rightarrow> Some (-1, ts)
      | Some (Some i, ts) \<Rightarrow>
          if bandwidth_bps now' (ts ! i) + bytes > limit_bps cfg then Some (-1, ts)
          else Some (0, ts[i := count_bytes bytes direction (ts ! i)]))"

definition ratelimit_update_bandwidth ::
  "proxy_config \<Rightarrow> char list option \<Rightarrow> time_t \<Rightarrow> string \<Rightarrow> size_t \<Rightarrow> c_int \<Rightarrow> bandwidth_tracker list
     \<Rightarrow> bandwidth_tracker list option" where
  "ratelimit_update_bandwidth cfg m now ip bytes direction ts =
     (if enable_rate_limiting cfg = 0 then Some ts
      else case get_bandwidth_tracker m now ip ts of
        None \<Rightarrow> None
      | Some (None, ts) \<Rightarrow> Some ts
      | Some (Some i, ts) \<Rightarrow> Some (ts[i := count_bytes bytes direction (ts ! i)]))"

text \<open>The unlinking loop, node by node.\<close>

fun ratelimit_cleanup_old_entries :: "time_t \<Rightarrow> bandwidth_tracker list \<Rightarrow> bandwidth_tracker list" where
  "ratelimit_cleanup_old_entries now [] = []"
| "ratelimit_cleanup_old_entries now (t # ts) =
     (if 300 < difftime now (last_activity t) then ratelimit_cleanup_old_entries now ts
      else t # ratelimit_cleanup_old_entries now ts)"

definition ratelimit_init :: "rate_limiter list \<times> bandwidth_tracker list" where
  "ratelimit_init = ([], [])"

definition ratelimit_cleanup :: "rate_limiter list \<times> bandwidth_tracker list \<Rightarrow> rate_limiter list \<times> bandwidth_tracker list" where
  "ratelimit_cleanup st = ([], [])"

subsection \<open>The list as a map from addresses to buckets\<close>

definition named :: "('a \<Rightarrow> char list) \<Rightarrow> string \<Rightarrow> 'a \<Rightarrow> bool" where
  "named ip_of ip x \<longleftrightarrow> cstr (ip_of x) = Some ip"

definition limiter_of :: "rate_limiter list \<Rightarrow> string \<Rightarrow> rate_limiter option" where
  "limiter_of ls ip = find (named rl_ip ip) ls"

text \<open>All address arrays are terminated.\<close>

definition ips_wf :: "rate_limiter list \<Rightarrow> bool" where
  "ips_wf ls \<longleftrightarrow> (\<forall>l\<in>set ls. cstr (rl_ip l) \<noteq> None)"

lemma named_unique: "named f a x \<Longrightarrow> named f b x \<longleftrightarrow> b = a"
  by (auto simp: named_def)

lemma scan_ip_find:
  assumes "\<forall>x\<in>set xs. cstr (f x) \<noteq> None" "c_string ip"
  shows "case find (named f ip) xs of
      None \<Rightarrow> scan_ip f xs ip = Some None
    | Some x \<Rightarrow> \<exists>i < length xs. scan_ip f xs ip = Some (Some i) \<and> xs ! i = x \<and>
        (\<forall>y. named f ip y \<longrightarrow> find (named f ip) (xs[i := y]) = Some y \<and>
           (\<forall>a. a \<noteq> ip \<longrightarrow> find (named f a) (xs[i := y]) = find (named f a) xs))"
  using assms(1)
proof (induction xs)
  case (Cons x xs)
  then obtain t where t: "cstr (f x) = Some t" by auto
  have eq: "array_eq (f x) ip = Some (t = ip)" by (rule array_eq_cstr [OF t assms(2)])
  show ?case
  proof (cases "t = ip")
    case True
    then have "named f ip x" using t by (simp add: named_def)
    with True eq show ?thesis by (auto simp: named_unique intro!: exI [of _ 0])
  next
    case False
    then have nx: "\<not> named f ip x" using t by (simp add: named_def)
    show ?thesis
    proof (cases "find (named f ip) xs")
      case None
      with Cons False eq nx show ?thesis by auto
    next
      case (Some y)
      with Cons obtain i where i: "i < length xs" "scan_ip f xs ip = Some (Some i)" "xs ! i = y"
        "\<forall>y. named f ip y \<longrightarrow> find (named f ip) (xs[i := y]) = Some y \<and>
           (\<forall>a. a \<noteq> ip \<longrightarrow> find (named f a) (xs[i := y]) = find (named f a) xs)" by auto
      with False eq nx Some show ?thesis by (auto intro!: exI [of _ "Suc i"])
    qed
  qed
qed simp

lemma new_ip_named:
  assumes "c_string ip" "length ip < INET_ADDRSTRLEN" "length junk = INET_ADDRSTRLEN"
    and "length ip < INET_ADDRSTRLEN - 1 \<or> junk ! (INET_ADDRSTRLEN - 1) = NUL"
  shows "cstr (new_ip junk ip) = Some ip"
proof (cases "length ip < INET_ADDRSTRLEN - 1")
  case True
  with assms(1) show ?thesis by (simp add: new_ip_def cstr_strncpy_short)
next
  case False
  with assms(4) have "junk ! (INET_ADDRSTRLEN - 1) = NUL" by simp
  with assms show ?thesis by (simp add: new_ip_def cstr_strncpy_terminated INET_ADDRSTRLEN_def)
qed

text \<open>A request: its address, the memory that a new node would get, and the two readings of
  the clock.  A node keeps its address when the address is shorter than 15 characters or the
  last byte of the memory is zero.\<close>

record request =
  rq_ip :: string
  rq_memory :: "char list option"
  rq_now :: time_t
  rq_now' :: time_t

definition keeps_ip :: "request \<Rightarrow> bool" where
  "keeps_ip e \<longleftrightarrow> c_string (rq_ip e) \<and> length (rq_ip e) < INET_ADDRSTRLEN \<and>
     (case rq_memory e of None \<Rightarrow> True
      | Some junk \<Rightarrow> length junk = INET_ADDRSTRLEN \<and>
          (length (rq_ip e) < INET_ADDRSTRLEN - 1 \<or> junk ! (INET_ADDRSTRLEN - 1) = NUL))"

text \<open>One request on the map.\<close>

definition bucket_step :: "proxy_config \<Rightarrow> request \<Rightarrow> (string \<Rightarrow> rate_limiter option) \<Rightarrow> c_int \<times> (string \<Rightarrow> rate_limiter option)" where
  "bucket_step cfg e bs =
     (case (bs (rq_ip e), rq_memory e) of
        (None, None) \<Rightarrow> (-1, bs)
      | (None, Some junk) \<Rightarrow>
          (let (r, l) = take_token (refill_tokens (rq_now' e) (new_limiter cfg junk (rq_now e) (rq_ip e)))
           in (r, bs(rq_ip e \<mapsto> l)))
      | (Some l, _) \<Rightarrow> (let (r, l) = take_token (refill_tokens (rq_now' e) l) in (r, bs(rq_ip e \<mapsto> l))))"

lemma rl_ip_step [simp]: "rl_ip (snd (take_token (refill_tokens now l))) = rl_ip l"
  by (simp add: take_token_def refill_tokens_def Let_def)

lemma check_request_map:
  assumes "enable_rate_limiting cfg \<noteq> 0" "ips_wf ls" "keeps_ip e"
  shows "\<exists>r ls'. ratelimit_check_request cfg (rq_memory e) (rq_now e) (rq_now' e) (rq_ip e) ls = Some (r, ls') \<and>
    ips_wf ls' \<and> (r, limiter_of ls') = bucket_step cfg e (limiter_of ls)"
proof -
  have ip: "c_string (rq_ip e)" using assms(3) by (simp add: keeps_ip_def)
  note scan = scan_ip_find [OF assms(2) [unfolded ips_wf_def] ip]
  show ?thesis
  proof (cases "limiter_of ls (rq_ip e)")
    case (Some l)
    then obtain i where i: "i < length ls" "scan_ip rl_ip ls (rq_ip e) = Some (Some i)" "ls ! i = l"
      "\<And>y a. named rl_ip (rq_ip e) y \<Longrightarrow> find (named rl_ip (rq_ip e)) (ls[i := y]) = Some y \<and>
         (a \<noteq> rq_ip e \<longrightarrow> find (named rl_ip a) (ls[i := y]) = find (named rl_ip a) ls)"
      using scan by (auto simp: limiter_of_def)
    obtain r l' where rl: "take_token (refill_tokens (rq_now' e) l) = (r, l')" by fastforce
    then have keep: "rl_ip l' = rl_ip l" using rl_ip_step [of "rq_now' e" l] by simp
    have "named rl_ip (rq_ip e) l" using Some find_Some_in unfolding limiter_of_def by fast
    then have "named rl_ip (rq_ip e) l'" by (simp add: named_def keep)
    from i(4) [OF this] have upd: "limiter_of (ls[i := l']) = (limiter_of ls)(rq_ip e \<mapsto> l')"
      by (auto simp: limiter_of_def)
    have "cstr (rl_ip l) \<noteq> None" using assms(2) i(1,3) by (auto simp: ips_wf_def)
    then have "ips_wf (ls[i := l'])"
      using assms(2) set_update_subset_insert [of ls i l'] by (auto simp: ips_wf_def keep)
    with upd i rl assms(1) Some show ?thesis
      by (simp add: ratelimit_check_request_def get_rate_limiter_def bucket_step_def)
  next
    case None
    then have sc: "scan_ip rl_ip ls (rq_ip e) = Some None" using scan by (simp add: limiter_of_def)
    show ?thesis
    proof (cases "rq_memory e")
      case None
      with sc \<open>limiter_of ls (rq_ip e) = None\<close> assms show ?thesis
        by (simp add: ratelimit_check_request_def get_rate_limiter_def bucket_step_def)
    next
      case (Some junk)
      let ?l = "new_limiter cfg junk (rq_now e) (rq_ip e)"
      obtain r l' where rl: "take_token (refill_tokens (rq_now' e) ?l) = (r, l')" by fastforce
      then have "rl_ip l' = rl_ip ?l" using rl_ip_step [of "rq_now' e" ?l] by simp
      then have n: "cstr (rl_ip l') = Some (rq_ip e)"
        using assms(3) Some by (simp add: new_limiter_def keeps_ip_def new_ip_named)
      then have "limiter_of (l' # ls) = (limiter_of ls)(rq_ip e \<mapsto> l')"
        by (auto simp: limiter_of_def named_def)
      moreover have "ips_wf (l' # ls)" using assms(2) n by (simp add: ips_wf_def)
      ultimately show ?thesis
        using Some sc \<open>limiter_of ls (rq_ip e) = None\<close> rl assms(1)
        by (simp add: ratelimit_check_request_def get_rate_limiter_def bucket_step_def)
    qed
  qed
qed

subsection \<open>How fast a bucket lets requests through\<close>

definition bucket_ok :: "proxy_config \<Rightarrow> rate_limiter \<Rightarrow> bool" where
  "bucket_ok cfg l \<longleftrightarrow> representable (tokens l) \<and> 0 \<le> tokens l \<and> tokens l \<le> max_tokens l \<and>
     max_tokens l = of_int (rate_limit_requests cfg) \<and>
     refill_rate l = fl (of_int (rate_limit_requests cfg) / 60)"

text \<open>The most that one second can add, rounding included.\<close>

definition pace :: "proxy_config \<Rightarrow> rat" where
  "pace cfg = of_int (rate_limit_requests cfg) / 60 * (1 + ulp) ^ 4 + of_int (rate_limit_requests cfg) * ulp"

lemma ulp_pos [simp]: "0 < ulp" "0 \<le> ulp" "0 \<le> 1 + ulp"
  by (simp_all add: ulp_def)

lemma fl_mono_bound: "0 \<le> x \<Longrightarrow> x \<le> y \<Longrightarrow> fl x \<le> y * (1 + ulp)"
  using fl_le [of x] mult_right_mono [of x y "1 + ulp"] by simp

lemma refill_tokens_bound:
  assumes "bucket_ok cfg l" "0 \<le> rate_limit_requests cfg" "last_refill l \<le> now"
  shows "tokens (refill_tokens now l) \<le> tokens l + of_int (now - last_refill l) * pace cfg"
    and "last_refill (refill_tokens now l) = now"
proof -
  define N where "N = (of_int (rate_limit_requests cfg) :: rat)"
  define d where "d = (of_int (now - last_refill l) :: rat)"
  have N: "0 \<le> N" using assms(2) by (simp add: N_def)
  have t: "0 \<le> tokens l" "tokens l \<le> N" "refill_rate l = fl (N / 60)"
    using assms(1) by (simp_all add: bucket_ok_def N_def)
  show "last_refill (refill_tokens now l) = now"
  proof (cases "now = last_refill l")
    case True
    then show ?thesis by (simp add: refill_tokens_def difftime_def Let_def)
  next
    case False
    with assms(3) show ?thesis
      by (simp add: refill_tokens_def difftime_def Let_def fl_pos)
  qed
  show "tokens (refill_tokens now l) \<le> tokens l + of_int (now - last_refill l) * pace cfg"
  proof (cases "now = last_refill l")
    case True
    then show ?thesis by (simp add: refill_tokens_def difftime_def Let_def)
  next
    case False
    with assms(3) have d: "1 \<le> d" by (simp add: d_def)
    define el where "el = fl d"
    have el: "0 \<le> el" "el \<le> d * (1 + ulp)" using d fl_nonneg [of d] fl_le [of d] by (simp_all add: el_def)
    have rate: "0 \<le> fl (N / 60)" "fl (N / 60) \<le> N / 60 * (1 + ulp)"
      using N fl_nonneg [of "N / 60"] fl_le [of "N / 60"] by simp_all
    have "el * fl (N / 60) \<le> d * (1 + ulp) * (N / 60 * (1 + ulp))"
      using el rate d by (intro mult_mono) simp_all
    then have "fl (el * fl (N / 60)) \<le> d * (1 + ulp) * (N / 60 * (1 + ulp)) * (1 + ulp)"
      using el(1) rate(1) by (intro fl_mono_bound) simp_all
    also have "\<dots> = d * (N / 60) * (1 + ulp) ^ 3" by (simp add: power3_eq_cube)
    finally have add: "fl (el * fl (N / 60)) \<le> d * (N / 60) * (1 + ulp) ^ 3" .
    have "fl (tokens l + fl (el * fl (N / 60))) \<le> (tokens l + d * (N / 60) * (1 + ulp) ^ 3) * (1 + ulp)"
      using t(1) add fl_nonneg [of "el * fl (N / 60)"] el(1) rate(1) by (intro fl_mono_bound) simp_all
    also have "\<dots> = tokens l + (tokens l * ulp + d * (N / 60) * (1 + ulp) ^ 4)"
      by (simp add: power4_eq_xxxx power3_eq_cube distrib_left distrib_right)
    also have "tokens l * ulp \<le> d * (N * ulp)"
    proof -
      have "tokens l * ulp \<le> N * ulp" using t(2) by (intro mult_right_mono) simp_all
      also have "\<dots> \<le> d * (N * ulp)" using mult_right_mono [of 1 d "N * ulp"] d N by simp
      finally show ?thesis .
    qed
    finally have "fl (tokens l + fl (el * fl (N / 60))) \<le> tokens l + d * pace cfg"
      by (simp add: pace_def N_def [symmetric] distrib_left mult.assoc)
    moreover have "0 < el" using d by (simp add: el_def fl_pos)
    then have "tokens (refill_tokens now l) =
        (if max_tokens l < fl (tokens l + fl (el * fl (N / 60))) then max_tokens l
         else fl (tokens l + fl (el * fl (N / 60))))"
      by (simp add: refill_tokens_def Let_def difftime_def t(3) del: of_int_diff flip: d_def el_def)
    ultimately show ?thesis by (auto simp flip: d_def simp del: of_int_diff)
  qed
qed

lemma refill_tokens_ok:
  assumes "bucket_ok cfg l" "0 \<le> rate_limit_requests cfg" "rate_limit_requests cfg < 2 ^ 31"
  shows "bucket_ok cfg (refill_tokens now l)"
proof (cases "0 < difftime now (last_refill l)")
  case True
  have r: "0 \<le> refill_rate l" "0 \<le> tokens l" using assms(1,2) by (simp_all add: bucket_ok_def fl_nonneg)
  then have n: "0 \<le> tokens l + fl (difftime now (last_refill l) * refill_rate l)"
    using True by (simp add: fl_nonneg)
  have "representable (of_int (rate_limit_requests cfg))"
    using assms(2,3) by (intro representable_int) simp
  with assms(1,2) True representable_fl [OF n] fl_nonneg [OF n] show ?thesis
    by (auto simp: bucket_ok_def refill_tokens_def Let_def)
next
  case False
  with assms(1) show ?thesis by (simp add: refill_tokens_def)
qed

lemma take_token_ok:
  assumes "bucket_ok cfg l" "rate_limit_requests cfg < 2 ^ 31" "take_token l = (r, l')"
  shows "bucket_ok cfg l'" "last_refill l' = last_refill l"
    and "tokens l' = tokens l - (if r = 0 then 1 else 0)" "r = 0 \<or> r = -1"
proof -
  have "tokens l - 1 = fl (tokens l - 1) \<and> representable (tokens l - 1)" if "1 \<le> tokens l"
  proof -
    have "(of_int (rate_limit_requests cfg) :: rat) \<le> of_int (2 ^ 31)"
      using assms(2) by (simp only: of_int_le_iff)
    then have "tokens l \<le> of_int (2 ^ 31)"
      using assms(1) by (auto simp: bucket_ok_def)
    then have "tokens l \<le> 2 ^ 53" by simp
    with assms(1) that have "representable (tokens l - 1)"
      by (intro representable_minus_1) (simp_all add: bucket_ok_def)
    with that show ?thesis using fl_exact [of "tokens l - 1"] by simp
  qed
  with assms(1,3) show "bucket_ok cfg l'" "last_refill l' = last_refill l"
    "tokens l' = tokens l - (if r = 0 then 1 else 0)" "r = 0 \<or> r = -1"
    by (auto simp: take_token_def bucket_ok_def split: if_splits)
qed

lemma new_limiter_ok:
  assumes "0 \<le> rate_limit_requests cfg" "rate_limit_requests cfg < 2 ^ 31"
  shows "bucket_ok cfg (new_limiter cfg junk now ip)"
proof -
  have "representable (of_int (rate_limit_requests cfg))"
    using assms by (intro representable_int) simp
  with assms show ?thesis by (simp add: bucket_ok_def new_limiter_def)
qed

subsection \<open>Histories of requests\<close>

fun rl_run :: "proxy_config \<Rightarrow> request list \<Rightarrow> rate_limiter list \<Rightarrow> ((string \<times> c_int) list \<times> rate_limiter list) option" where
  "rl_run cfg [] ls = Some ([], ls)"
| "rl_run cfg (e # es) ls =
     (case ratelimit_check_request cfg (rq_memory e) (rq_now e) (rq_now' e) (rq_ip e) ls of
        None \<Rightarrow> None
      | Some (r, ls) \<Rightarrow> map_option (\<lambda>(rs, ls). ((rq_ip e, r) # rs, ls)) (rl_run cfg es ls))"

definition admitted :: "string \<Rightarrow> (string \<times> c_int) list \<Rightarrow> nat" where
  "admitted a rs = length (filter (\<lambda>(ip, r). ip = a \<and> r = 0) rs)"

fun run_map :: "proxy_config \<Rightarrow> request list \<Rightarrow> (string \<Rightarrow> rate_limiter option) \<Rightarrow> (string \<times> c_int) list \<times> (string \<Rightarrow> rate_limiter option)" where
  "run_map cfg [] bs = ([], bs)"
| "run_map cfg (e # es) bs =
     (let (r, bs) = bucket_step cfg e bs; (rs, bs) = run_map cfg es bs in ((rq_ip e, r) # rs, bs))"

lemma rl_run_map:
  "enable_rate_limiting cfg \<noteq> 0 \<Longrightarrow> list_all keeps_ip es \<Longrightarrow> ips_wf ls \<Longrightarrow>
     \<exists>rs ls'. rl_run cfg es ls = Some (rs, ls') \<and> ips_wf ls' \<and> (rs, limiter_of ls') = run_map cfg es (limiter_of ls)"
proof (induction es arbitrary: ls)
  case (Cons e es)
  then obtain r ls1 where 1: "ratelimit_check_request cfg (rq_memory e) (rq_now e) (rq_now' e) (rq_ip e) ls = Some (r, ls1)"
    "ips_wf ls1" "bucket_step cfg e (limiter_of ls) = (r, limiter_of ls1)"
    using check_request_map [of cfg ls e] by auto
  with Cons obtain rs ls2 where "rl_run cfg es ls1 = Some (rs, ls2)" "ips_wf ls2"
    "run_map cfg es (limiter_of ls1) = (rs, limiter_of ls2)" by fastforce
  with 1 show ?case by simp
qed simp

text \<open>The clock never goes back: \<open>clock_from t es t1\<close> says that the readings of \<open>es\<close> are in
  order between \<open>t\<close> and \<open>t1\<close>.\<close>

fun clock_from :: "time_t \<Rightarrow> request list \<Rightarrow> time_t \<Rightarrow> bool" where
  "clock_from t [] t1 \<longleftrightarrow> t \<le> t1"
| "clock_from t (e # es) t1 \<longleftrightarrow> t \<le> rq_now e \<and> rq_now e \<le> rq_now' e \<and> clock_from (rq_now' e) es t1"

text \<open>A bucket's credit at time \<open>t\<close>: what it holds, or would hold when created, counted back
  to the origin of time at the pace of the refills.\<close>

definition credit :: "proxy_config \<Rightarrow> time_t \<Rightarrow> rate_limiter option \<Rightarrow> rat" where
  "credit cfg t b = (case b of None \<Rightarrow> of_int (rate_limit_requests cfg) - of_int t * pace cfg
     | Some l \<Rightarrow> tokens l - of_int (last_refill l) * pace cfg)"

definition bs_ok :: "proxy_config \<Rightarrow> time_t \<Rightarrow> (string \<Rightarrow> rate_limiter option) \<Rightarrow> bool" where
  "bs_ok cfg t bs \<longleftrightarrow> (\<forall>ip l. bs ip = Some l \<longrightarrow> bucket_ok cfg l \<and> last_refill l \<le> t)"

lemma pace_nonneg: "0 \<le> rate_limit_requests cfg \<Longrightarrow> 0 \<le> pace cfg"
  by (simp add: pace_def)

lemma served_credit:
  assumes "bucket_ok cfg l" "last_refill l \<le> now"
    and N: "0 \<le> rate_limit_requests cfg" "rate_limit_requests cfg < 2 ^ 31"
    and "take_token (refill_tokens now l) = (r, l')"
  shows "bucket_ok cfg l' \<and> last_refill l' = now \<and>
    (if r = 0 then 1 else 0) + credit cfg now (Some l') \<le> credit cfg now (Some l)"
proof -
  note ok = take_token_ok [OF refill_tokens_ok [OF assms(1) N, of now] N(2) assms(5)]
  have "tokens l' + (if r = 0 then 1 else 0) \<le> tokens l + of_int (now - last_refill l) * pace cfg"
    using refill_tokens_bound(1) [OF assms(1) N(1) assms(2)] ok(3) by simp
  with ok refill_tokens_bound(2) [OF assms(1) N(1) assms(2)] show ?thesis
    by (simp add: credit_def algebra_simps)
qed

lemma credit_later: "0 \<le> rate_limit_requests cfg \<Longrightarrow> t \<le> t' \<Longrightarrow> credit cfg t' b \<le> credit cfg t b"
  using mult_right_mono [of "of_int t" "of_int t'" "pace cfg"] pace_nonneg [of cfg]
  by (simp add: credit_def split: option.split)

lemma step_credit:
  assumes N: "0 \<le> rate_limit_requests cfg" "rate_limit_requests cfg < 2 ^ 31"
    and "bs_ok cfg t bs" "t \<le> rq_now e" "rq_now e \<le> rq_now' e" "bucket_step cfg e bs = (r, bs1)"
  shows "bs_ok cfg (rq_now' e) bs1"
    and "(if rq_ip e = a \<and> r = 0 then 1 else 0) + credit cfg (rq_now' e) (bs1 a) \<le> credit cfg t (bs a)"
proof -
  have later: "bs_ok cfg (rq_now' e) bs" using assms(3-5) by (auto simp: bs_ok_def dest: order_trans)
  have serve: "bs_ok cfg (rq_now' e) bs1 \<and>
      (if rq_ip e = a \<and> r = 0 then 1 else 0) + credit cfg (rq_now' e) (bs1 a) \<le> credit cfg t (bs a)"
    if l: "bucket_ok cfg l" "last_refill l \<le> rq_now' e" "take_token (refill_tokens (rq_now' e) l) = (r, l')"
      "bs1 = bs(rq_ip e \<mapsto> l')" "credit cfg (rq_now' e) (Some l) \<le> credit cfg t (bs (rq_ip e))" for l l'
  proof -
    note s = served_credit [OF l(1,2) N l(3)]
    have "credit cfg (rq_now' e) (bs a) \<le> credit cfg t (bs a)"
      using credit_later [OF N(1), of t "rq_now' e"] assms(4,5) by simp
    with s l(4,5) later show ?thesis by (auto simp: bs_ok_def)
  qed
  have "bs_ok cfg (rq_now' e) bs1 \<and>
      (if rq_ip e = a \<and> r = 0 then 1 else 0) + credit cfg (rq_now' e) (bs1 a) \<le> credit cfg t (bs a)"
  proof (cases "bs (rq_ip e)")
    case (Some l)
    obtain r' l' where t: "take_token (refill_tokens (rq_now' e) l) = (r', l')" by fastforce
    with Some assms(6) have "r' = r" "bs1 = bs(rq_ip e \<mapsto> l')" by (auto simp: bucket_step_def)
    with t Some later credit_later [OF N(1), of t "rq_now' e" "Some l"] assms(4,5) show ?thesis
      by (intro serve [of l l']) (auto simp: bs_ok_def)
  next
    case None
    show ?thesis
    proof (cases "rq_memory e")
      case None
      with \<open>bs (rq_ip e) = None\<close> assms(6) have "r = -1" "bs1 = bs" by (auto simp: bucket_step_def)
      with later credit_later [OF N(1), of t "rq_now' e" "bs a"] assms(4,5) show ?thesis by simp
    next
      case (Some junk)
      let ?l = "new_limiter cfg junk (rq_now e) (rq_ip e)"
      obtain r' l' where t: "take_token (refill_tokens (rq_now' e) ?l) = (r', l')" by fastforce
      with Some None assms(6) have "r' = r" "bs1 = bs(rq_ip e \<mapsto> l')" by (auto simp: bucket_step_def)
      moreover have "credit cfg (rq_now' e) (Some ?l) = credit cfg (rq_now e) None"
        by (simp add: credit_def new_limiter_def)
      ultimately show ?thesis
        using t None new_limiter_ok [OF N] credit_later [OF N(1) assms(4), of None] assms(5)
        by (intro serve [of ?l l']) (simp_all add: new_limiter_def)
    qed
  qed
  then show "bs_ok cfg (rq_now' e) bs1"
    "(if rq_ip e = a \<and> r = 0 then 1 else 0) + credit cfg (rq_now' e) (bs1 a) \<le> credit cfg t (bs a)" by auto
qed

lemma run_map_credit:
  assumes N: "0 \<le> rate_limit_requests cfg" "rate_limit_requests cfg < 2 ^ 31"
  shows "run_map cfg es bs = (rs, bs') \<Longrightarrow> clock_from t es t1 \<Longrightarrow> bs_ok cfg t bs \<Longrightarrow>
     of_nat (admitted a rs) \<le> credit cfg t (bs a) + of_int t1 * pace cfg"
proof (induction es arbitrary: t bs rs)
  case Nil
  have "0 \<le> credit cfg t (bs a) + of_int t1 * pace cfg"
  proof -
    have *: "of_int s * pace cfg \<le> of_int t1 * pace cfg" if "s \<le> t1" for s
      using pace_nonneg [OF N(1)] that by (intro mult_right_mono) simp_all
    show ?thesis
    proof (cases "bs a")
      case None
      with * [of t] Nil N(1) show ?thesis by (simp add: credit_def)
    next
      case (Some l)
      then have "0 \<le> tokens l" "last_refill l \<le> t1"
        using Nil(2,3) by (force simp: bs_ok_def bucket_ok_def)+
      with * [of "last_refill l"] Some show ?thesis by (simp add: credit_def)
    qed
  qed
  with Nil show ?case by (simp add: admitted_def)
next
  case (Cons e es)
  obtain r bs1 where 1: "bucket_step cfg e bs = (r, bs1)" by fastforce
  obtain rs1 where 2: "run_map cfg es bs1 = (rs1, bs')" "rs = (rq_ip e, r) # rs1"
    using Cons.prems(1) 1 by (auto split: prod.splits)
  have clock: "t \<le> rq_now e" "rq_now e \<le> rq_now' e" "clock_from (rq_now' e) es t1"
    using Cons.prems(2) by simp_all
  note step = step_credit [OF N Cons.prems(3) clock(1,2) 1]
  have "of_nat (admitted a rs) = (if rq_ip e = a \<and> r = 0 then 1 else 0) + (of_nat (admitted a rs1) :: rat)"
    by (simp add: admitted_def 2(2))
  with Cons.IH [OF 2(1) clock(3) step(1)] step(2) [of a] show ?case by simp
qed

subsection \<open>Properties\<close>

text \<open>The contract: a map from addresses to the level of a bucket and the second of its last
  change.  A bucket of size \<open>N\<close> fills at \<open>N / 60\<close> a second, a request takes one token if
  there is one, and an address that is not known has a full bucket; \<open>fl\<close> are the roundings.\<close>

type_synonym bucket = "rat \<times> time_t"

fun refilled :: "rat \<Rightarrow> time_t \<Rightarrow> bucket \<Rightarrow> bucket" where
  "refilled N now (level, since) =
     (if since < now then (min N (fl (level + fl (fl (of_int (now - since)) * fl (N / 60)))), now) else (level, since))"

definition request_spec :: "proxy_config \<Rightarrow> request \<Rightarrow> (string \<Rightarrow> bucket option) \<Rightarrow> c_int \<times> (string \<Rightarrow> bucket option)" where
  "request_spec cfg e bs =
     (if bs (rq_ip e) = None \<and> rq_memory e = None then (-1, bs)
      else
        let N = of_int (rate_limit_requests cfg);
            b = (case bs (rq_ip e) of None \<Rightarrow> (N, rq_now e) | Some b \<Rightarrow> b);
            (level, since) = refilled N (rq_now' e) b
        in if 1 \<le> level then (0, bs(rq_ip e \<mapsto> (level - 1, since))) else (-1, bs(rq_ip e \<mapsto> (level, since))))"

definition bucket_of :: "rate_limiter \<Rightarrow> bucket" where
  "bucket_of l = (tokens l, last_refill l)"

definition buckets_of :: "rate_limiter list \<Rightarrow> string \<Rightarrow> bucket option" where
  "buckets_of ls a = map_option bucket_of (limiter_of ls a)"

definition limiters_ok :: "proxy_config \<Rightarrow> rate_limiter list \<Rightarrow> bool" where
  "limiters_ok cfg ls \<longleftrightarrow> ips_wf ls \<and> (\<forall>l\<in>set ls. bucket_ok cfg l)"

lemma refill_spec:
  assumes "bucket_ok cfg l"
  shows "bucket_of (refill_tokens now l) = refilled (of_int (rate_limit_requests cfg)) now (bucket_of l)"
proof (cases "last_refill l < now")
  case True
  then have "0 < difftime now (last_refill l)" unfolding difftime_def by (intro fl_pos) simp
  with True assms show ?thesis
    by (auto simp: refill_tokens_def bucket_of_def bucket_ok_def difftime_def Let_def min_def)
next
  case False
  then have "\<not> 0 < difftime now (last_refill l)" using fl_nonpos [of "of_int (now - last_refill l)"] by (simp add: difftime_def)
  with False show ?thesis by (simp add: refill_tokens_def bucket_of_def)
qed

lemma charge_spec:
  assumes "bucket_ok cfg l" "0 \<le> rate_limit_requests cfg" "rate_limit_requests cfg < 2 ^ 31"
    and "take_token (refill_tokens now l) = (r, l')"
  shows "bucket_ok cfg l'"
    "refilled (of_int (rate_limit_requests cfg)) now (bucket_of l) = (level, since) \<Longrightarrow>
       (r, bucket_of l') = (if 1 \<le> level then (0, (level - 1, since)) else (-1, (level, since)))"
proof -
  note ok = refill_tokens_ok [OF assms(1-3), of now]
  note t = take_token_ok [OF ok assms(3,4)]
  show "bucket_ok cfg l'" by (rule t)
  assume "refilled (of_int (rate_limit_requests cfg)) now (bucket_of l) = (level, since)"
  then have "tokens (refill_tokens now l) = level" "last_refill (refill_tokens now l) = since"
    using refill_spec [OF assms(1), of now] by (simp_all add: bucket_of_def)
  moreover from assms(4) have "r = 0 \<longleftrightarrow> 1 \<le> tokens (refill_tokens now l)" by (auto simp: take_token_def split: if_splits)
  ultimately show "(r, bucket_of l') = (if 1 \<le> level then (0, (level - 1, since)) else (-1, (level, since)))"
    using t(2-4) by (auto simp: bucket_of_def)
qed

lemma bucket_step_spec:
  assumes "0 \<le> rate_limit_requests cfg" "rate_limit_requests cfg < 2 ^ 31"
    and "\<And>l. limiter_of ls (rq_ip e) = Some l \<Longrightarrow> bucket_ok cfg l" "(r, limiter_of ls') = bucket_step cfg e (limiter_of ls)"
  shows "(r, buckets_of ls') = request_spec cfg e (buckets_of ls)"
proof -
  let ?N = "of_int (rate_limit_requests cfg)" and ?ip = "rq_ip e"
  have step: "(r, buckets_of ls') = request_spec cfg e (buckets_of ls)"
    if l: "bucket_ok cfg l" "bucket_of l = (case buckets_of ls ?ip of None \<Rightarrow> (?N, rq_now e) | Some b \<Rightarrow> b)"
      "limiter_of ls ?ip \<noteq> None \<or> rq_memory e \<noteq> None"
      "take_token (refill_tokens (rq_now' e) l) = (r, l')" "limiter_of ls' = (limiter_of ls)(?ip \<mapsto> l')" for l l'
  proof -
    obtain level since where b: "refilled ?N (rq_now' e) (bucket_of l) = (level, since)" by fastforce
    have "buckets_of ls' = (buckets_of ls)(?ip \<mapsto> bucket_of l')" using l(5) by (simp add: buckets_of_def fun_eq_iff)
    moreover have cond: "\<not> (buckets_of ls ?ip = None \<and> rq_memory e = None)" using l(3) by (simp add: buckets_of_def)
    have "request_spec cfg e (buckets_of ls) = (if 1 \<le> level then (0, (buckets_of ls)(?ip \<mapsto> (level - 1, since)))
        else (-1, (buckets_of ls)(?ip \<mapsto> (level, since))))"
      unfolding request_spec_def if_not_P [OF cond] Let_def l(2) [symmetric] b by simp
    ultimately show ?thesis using charge_spec(2) [OF l(1) assms(1,2) l(4) b] by (simp split: if_splits)
  qed
  show ?thesis
  proof (cases "limiter_of ls ?ip")
    case (Some l)
    obtain r' l' where t: "take_token (refill_tokens (rq_now' e) l) = (r', l')" by fastforce
    with Some assms(4) have "r' = r" "limiter_of ls' = (limiter_of ls)(?ip \<mapsto> l')" by (simp_all add: bucket_step_def)
    with step [of l l'] assms(3) [OF Some] Some t show ?thesis by (simp add: buckets_of_def)
  next
    case None
    show ?thesis
    proof (cases "rq_memory e")
      case None
      with \<open>limiter_of ls ?ip = None\<close> assms(4) show ?thesis
        by (simp add: bucket_step_def request_spec_def buckets_of_def fun_eq_iff)
    next
      case (Some junk)
      let ?l = "new_limiter cfg junk (rq_now e) ?ip"
      obtain r' l' where t: "take_token (refill_tokens (rq_now' e) ?l) = (r', l')" by fastforce
      with Some None assms(4) have "r' = r" "limiter_of ls' = (limiter_of ls)(?ip \<mapsto> l')" by (simp_all add: bucket_step_def)
      moreover have "bucket_of ?l = (?N, rq_now e)" by (simp add: bucket_of_def new_limiter_def)
      ultimately show ?thesis
        using step [of ?l l'] new_limiter_ok [OF assms(1,2)] Some None t by (simp add: buckets_of_def)
    qed
  qed
qed

lemma check_request_ok:
  assumes "ratelimit_check_request cfg m now now' ip ls = Some (r, ls')" "\<forall>l\<in>set ls. bucket_ok cfg l"
    and "0 \<le> rate_limit_requests cfg" "rate_limit_requests cfg < 2 ^ 31"
  shows "\<forall>l\<in>set ls'. bucket_ok cfg l"
proof -
  have upd: "\<forall>l\<in>set (ks[i := snd (take_token (refill_tokens now' (ks ! i)))]). bucket_ok cfg l"
    if "\<forall>l\<in>set ks. bucket_ok cfg l" for ks i
  proof (cases "i < length ks")
    case True
    with that have k: "bucket_ok cfg (ks ! i)" by simp
    have "bucket_ok cfg (snd (take_token (refill_tokens now' (ks ! i))))"
      by (rule charge_spec(1) [OF k assms(3,4) prod.collapse [symmetric]])
    with that set_update_subset_insert [of ks i] show ?thesis by blast
  qed (use that in \<open>simp add: list_update_beyond\<close>)
  have new: "bucket_ok cfg (new_limiter cfg junk now ip)" for junk by (rule new_limiter_ok [OF assms(3,4)])
  show ?thesis
  proof (cases "enable_rate_limiting cfg = 0")
    case True
    with assms(1,2) show ?thesis by (simp add: ratelimit_check_request_def)
  next
    case False
    with assms(1) obtain x ks where g: "get_rate_limiter cfg m now ip ls = Some (x, ks)"
      by (auto simp: ratelimit_check_request_def split: option.splits)
    have ks: "\<forall>l\<in>set ks. bucket_ok cfg l"
      using g assms(2) new by (auto simp: get_rate_limiter_def split: option.splits)
    show ?thesis
    proof (cases x)
      case None
      with assms(1) False g ks show ?thesis by (simp add: ratelimit_check_request_def)
    next
      case (Some i)
      with assms(1) False g have "ls' = ks[i := snd (take_token (refill_tokens now' (ks ! i)))]"
        by (auto simp: ratelimit_check_request_def Let_def split: prod.splits)
      with upd [OF ks] show ?thesis by blast
    qed
  qed
qed

text \<open>C26: the list of nodes is a map.  On a list whose arrays are terminated, for a request
  whose node keeps its address (shorter than 15 characters, or the last byte that
  \<open>malloc\<close> left in the array is zero) and a limit that is not negative, the check returns,
  and does to the buckets what the contract says: it refills and charges the bucket of its own
  address, creates it full if needed, touches no other, and admits the request exactly when a
  token was there.\<close>

theorem ratelimit_refines_map:
  assumes "enable_rate_limiting cfg \<noteq> 0" "0 \<le> rate_limit_requests cfg" "rate_limit_requests cfg < 2 ^ 31"
    and "limiters_ok cfg ls" "keeps_ip e"
  shows "\<exists>r ls'. ratelimit_check_request cfg (rq_memory e) (rq_now e) (rq_now' e) (rq_ip e) ls = Some (r, ls') \<and>
    limiters_ok cfg ls' \<and> (r, buckets_of ls') = request_spec cfg e (buckets_of ls)"
proof -
  have wf: "ips_wf ls" "\<forall>l\<in>set ls. bucket_ok cfg l" using assms(4) by (simp_all add: limiters_ok_def)
  from check_request_map [OF assms(1) wf(1) assms(5)] obtain r ls' where
    c: "ratelimit_check_request cfg (rq_memory e) (rq_now e) (rq_now' e) (rq_ip e) ls = Some (r, ls')"
    and m: "ips_wf ls'" "(r, limiter_of ls') = bucket_step cfg e (limiter_of ls)" by blast
  have "bucket_ok cfg l" if "limiter_of ls a = Some l" for a l
    using that wf(2) find_Some_in unfolding limiter_of_def by fast
  from bucket_step_spec [OF assms(2,3) this m(2)] check_request_ok [OF c wf(2) assms(2,3)] c m(1) show ?thesis
    by (auto simp: limiters_ok_def)
qed

definition demo_request :: "time_t \<Rightarrow> request" where
  "demo_request t = \<lparr>rq_ip = ''10.0.0.1'', rq_memory = Some (replicate 16 (CHR ''x'')), rq_now = t, rq_now' = t\<rparr>"

lemma demo_request_keeps: "keeps_ip (demo_request t)"
  by (simp add: keeps_ip_def demo_request_def INET_ADDRSTRLEN_def c_string_def)

theorem ratelimit_refines_map_witness:
  "\<exists>ls'. ratelimit_check_request (config_set_defaults\<lparr>enable_rate_limiting := 1\<rparr>) (Some (replicate 16 (CHR ''x''))) 5 5
     ''10.0.0.1'' [] = Some (0, ls') \<and> buckets_of ls' ''10.0.0.1'' = Some (99, 5)"
proof -
  let ?cfg = "config_set_defaults\<lparr>enable_rate_limiting := 1\<rparr>" and ?e = "demo_request 5"
  have e: "rq_ip ?e = ''10.0.0.1''" "rq_memory ?e = Some (replicate 16 (CHR ''x''))" "rq_now ?e = 5" "rq_now' ?e = 5"
    "rate_limit_requests ?cfg = 100" "enable_rate_limiting ?cfg \<noteq> 0" "limiters_ok ?cfg []" "buckets_of [] = Map.empty"
    by (simp_all add: demo_request_def limiters_ok_def ips_wf_def buckets_of_def limiter_of_def config_set_defaults_def fun_eq_iff)
  have n: "0 \<le> rate_limit_requests ?cfg" "rate_limit_requests ?cfg < 2 ^ 31" unfolding e(5) by simp_all
  have spec: "request_spec ?cfg ?e (buckets_of []) = (0, [''10.0.0.1'' \<mapsto> (99, 5)])" by (simp add: request_spec_def e Let_def)
  obtain r ls' where r: "ratelimit_check_request ?cfg (rq_memory ?e) (rq_now ?e) (rq_now' ?e) (rq_ip ?e) [] = Some (r, ls')"
    and b: "(r, buckets_of ls') = request_spec ?cfg ?e (buckets_of [])"
    using ratelimit_refines_map [OF e(6) n e(7) demo_request_keeps [of 5]] by blast
  from b have "r = 0" "buckets_of ls' ''10.0.0.1'' = Some (99, 5)" unfolding spec by simp_all
  with r show ?thesis unfolding e(1-4) by blast
qed

text \<open>C9: the rate is limited for addresses that their nodes keep.  Take a clock that does not
  go back, \<open>N\<close> configured requests per minute, \<open>T\<close> seconds with \<open>N * T\<close> at most
  \<open>2^50\<close>, and requests whose addresses are shorter than 15 characters (or find a zero in the
  last byte of the array that \<open>malloc\<close> returns; other addresses of 15 characters are not
  limited, see \<open>long_address_unlimited\<close>).  From an empty table every request is then
  answered, and in any history at most \<open>N + T * N / 60 + 1/2\<close> requests of one address are
  admitted; the last term bounds the rounding errors of the \<open>double\<close> arithmetic.\<close>

theorem rate_is_limited:
  assumes "enable_rate_limiting cfg \<noteq> 0" "N = rate_limit_requests cfg" "0 \<le> N" "N < 2 ^ 31"
    and "list_all keeps_ip es" "clock_from t es (t + T)" "0 \<le> T" "N * T \<le> 2 ^ 50" 
  shows "\<exists>rs ls. rl_run cfg es (fst ratelimit_init) = Some (rs, ls) \<and>
    of_nat (admitted a rs) \<le> (of_int N + of_int T * of_int N / 60 + 1 / 2 :: rat)"
proof -
  have "limiter_of [] = Map.empty" by (simp add: limiter_of_def fun_eq_iff)
  with rl_run_map [OF assms(1,5), of "[]"] obtain rs ls where
    run: "rl_run cfg es (fst ratelimit_init) = Some (rs, ls)" "run_map cfg es Map.empty = (rs, limiter_of ls)"
    by (auto simp: ratelimit_init_def ips_wf_def)
  have "of_nat (admitted a rs) \<le> credit cfg t None + of_int (t + T) * pace cfg"
    using run_map_credit [of cfg es Map.empty rs "limiter_of ls" t "t + T" a] run(2) assms by (simp add: bs_ok_def)
  also have "\<dots> = of_int N + of_int T * pace cfg"
    by (simp add: credit_def assms(2) algebra_simps)
  also have "of_int T * pace cfg = of_int T * of_int N / 60 * (1 + ulp) ^ 4 + of_int (N * T) * ulp"
    by (simp add: pace_def assms(2) algebra_simps)
  also have "\<dots> \<le> of_int T * of_int N / 60 + 1 / 2"
  proof -
    define X where "X = (of_int (N * T) :: rat)"
    have "X \<le> of_int (2 ^ 50)" unfolding X_def using assms(8) by (simp only: of_int_le_iff)
    then have X: "0 \<le> X" "X \<le> 2 ^ 50" using assms(3,7) by (simp_all add: X_def)
    have "X / 60 * (1 + ulp) ^ 4 + X * ulp \<le> X / 60 + X * (2 * ulp)"
    proof -
      have "(1 + ulp) ^ 4 \<le> 1 + 60 * ulp" by (simp add: ulp_def power_divide)
      then have "X / 60 * (1 + ulp) ^ 4 \<le> X / 60 * (1 + 60 * ulp)"
        using X(1) by (intro mult_left_mono) simp_all
      also have "\<dots> = X / 60 + X * ulp" by (simp add: distrib_left)
      finally show ?thesis by linarith
    qed
    also have "X * (2 * ulp) \<le> 1 / 2"
      using X(2) mult_right_mono [of X "2 ^ 50" "2 * ulp"] by (simp add: ulp_def)
    finally show ?thesis by (simp add: X_def mult.commute)
  qed
  finally have "of_nat (admitted a rs) \<le> (of_int N + of_int T * of_int N / 60 + 1 / 2 :: rat)" by simp
  with run(1) show ?thesis by blast
qed

theorem rate_is_limited_witness:
  "\<exists>rs ls. rl_run (config_set_defaults\<lparr>enable_rate_limiting := 1\<rparr>) (replicate 1000 (demo_request 7)) (fst ratelimit_init)
     = Some (rs, ls) \<and> admitted ''10.0.0.1'' rs \<le> 100"
proof -
  have keep: "list_all keeps_ip (replicate n (demo_request 7))" for n
    by (induction n) (simp_all add: demo_request_keeps)
  have clock: "clock_from 7 (replicate n (demo_request 7)) (7 + 0)" for n
    by (induction n) (simp_all add: demo_request_def)
  obtain rs ls where r: "rl_run (config_set_defaults\<lparr>enable_rate_limiting := 1\<rparr>) (replicate 1000 (demo_request 7)) (fst ratelimit_init)
     = Some (rs, ls)" "of_nat (admitted ''10.0.0.1'' rs) \<le> (100 + 0 + 1 / 2 :: rat)"
    using rate_is_limited [OF _ refl _ _ keep clock, of "config_set_defaults\<lparr>enable_rate_limiting := 1\<rparr>" 1000 "''10.0.0.1''"]
    by (auto simp: config_set_defaults_def)
  then have "(of_nat (admitted ''10.0.0.1'' rs) :: rat) < of_nat 101" by simp
  then have "admitted ''10.0.0.1'' rs < 101" by (simp only: of_nat_less_iff)
  with r(1) show ?thesis by auto
qed

text \<open>Addresses of fifteen characters are not limited.  \<open>strncpy\<close> copies the fifteen
  characters and leaves the last byte of the array as \<open>malloc\<close> gave it; when that byte is not
  zero the node is never found again, every request creates a new full bucket, and any number
  of requests in the same second is admitted.\<close>

theorem long_address_unlimited:
  assumes "enable_rate_limiting cfg \<noteq> 0" "1 \<le> rate_limit_requests cfg"
    and "c_string ip" "length ip = INET_ADDRSTRLEN - 1" "length junk = INET_ADDRSTRLEN" "junk ! (INET_ADDRSTRLEN - 1) \<noteq> NUL"
  shows "\<exists>ls. rl_run cfg (replicate n \<lparr>rq_ip = ip, rq_memory = Some junk, rq_now = t, rq_now' = t\<rparr>) [] =
    Some (replicate n (ip, 0), ls) \<and> length ls = n"
proof -
  have arr: "new_ip junk ip = ip @ [junk ! 15]"
    using assms(4,5) Cons_nth_drop_Suc [of 15 junk] by (simp add: new_ip_def strncpy_def INET_ADDRSTRLEN_def)
  have miss: "array_eq (s @ [junk ! 15]) s = Some False" for s
    using assms(6) by (induction s) (simp_all add: INET_ADDRSTRLEN_def)
  let ?e = "\<lparr>rq_ip = ip, rq_memory = Some junk, rq_now = t, rq_now' = t\<rparr>"
  have "\<exists>ls'. rl_run cfg (replicate n ?e) ls = Some (replicate n (ip, 0), ls') \<and> length ls' = length ls + n"
    if "\<forall>l\<in>set ls. rl_ip l = ip @ [junk ! 15]" for ls
    using that
  proof (induction n arbitrary: ls)
    case (Suc n)
    have scan: "scan_ip rl_ip ls ip = Some None"
      using Suc.prems by (induction ls) (simp_all add: miss)
    let ?l = "new_limiter cfg junk t ip"
    have "refill_tokens t ?l = ?l" by (simp add: refill_tokens_def difftime_def new_limiter_def Let_def)
    moreover have "1 \<le> tokens ?l" using assms(2) by (simp add: new_limiter_def)
    ultimately obtain l' where t: "take_token (refill_tokens t ?l) = (0, l')" "rl_ip l' = rl_ip ?l"
      by (simp add: take_token_def)
    then have "ratelimit_check_request cfg (Some junk) t t ip ls = Some (0, l' # ls)"
      using scan assms(1) by (simp add: ratelimit_check_request_def get_rate_limiter_def)
    moreover have "\<forall>l\<in>set (l' # ls). rl_ip l = ip @ [junk ! 15]"
      using Suc.prems t(2) by (simp add: new_limiter_def arr)
    ultimately show ?case using Suc.IH [of "l' # ls"] by auto
  qed simp
  from this [of "[]"] show ?thesis by simp
qed

theorem long_address_unlimited_witness:
  "\<exists>ls. rl_run (config_set_defaults\<lparr>enable_rate_limiting := 1\<rparr>)
     (replicate 1000000 \<lparr>rq_ip = ''192.168.100.100'', rq_memory = Some (replicate 16 (CHR ''x'')), rq_now = 0, rq_now' = 0\<rparr>) []
     = Some (replicate 1000000 (''192.168.100.100'', 0), ls)"
proof -
  have "length ''192.168.100.100'' = INET_ADDRSTRLEN - 1" by (simp add: INET_ADDRSTRLEN_def)
  from long_address_unlimited [OF _ _ _ this, of "config_set_defaults\<lparr>enable_rate_limiting := 1\<rparr>"
      "replicate 16 (CHR ''x'')" 1000000 0] show ?thesis
    by (auto simp: config_set_defaults_def c_string_def INET_ADDRSTRLEN_def)
qed

end
