(* ===== verification/Stats.thy ===== *)
theory Stats
  imports Prelude
begin

text \<open>
  The counters of \<^verbatim>\<open>src/monitor/stats.c\<close> and the state of the logger,
  \<^verbatim>\<open>src/monitor/logger.c\<close>.  Every function runs under its mutex.  What is printed is
  not modelled, except the split of the uptime in \<open>stats_print\<close>.
\<close>

record stats =
  total_connections :: size_t
  stat_active :: size_t
  stat_requests :: size_t
  bytes_transferred :: size_t
  start_time :: time_t

definition stats_init :: "time_t \<Rightarrow> stats" where
  "stats_init now = \<lparr>total_connections = 0, stat_active = 0, stat_requests = 0, bytes_transferred = 0, start_time = now\<rparr>"

definition stats_increment_connections :: "stats \<Rightarrow> stats" where
  "stats_increment_connections s =
     s\<lparr>total_connections := total_connections s + 1, stat_active := stat_active s + 1\<rparr>"

definition stats_decrement_connections :: "stats \<Rightarrow> stats" where
  "stats_decrement_connections s =
     (if 0 < stat_active s then s\<lparr>stat_active := stat_active s - 1\<rparr> else s)"

definition stats_increment_requests :: "stats \<Rightarrow> stats" where
  "stats_increment_requests s = s\<lparr>stat_requests := stat_requests s + 1\<rparr>"

definition stats_add_bytes_transferred :: "size_t \<Rightarrow> stats \<Rightarrow> stats" where
  "stats_add_bytes_transferred bytes s = s\<lparr>bytes_transferred := bytes_transferred s + bytes\<rparr>"

text \<open>The uptime as \<open>stats_print\<close> splits it: days, hours, minutes, seconds.\<close>

definition uptime_parts :: "time_t \<Rightarrow> stats \<Rightarrow> c_int \<times> c_int \<times> c_int \<times> c_int" where
  "uptime_parts now s =
     (let uptime = now - start_time s
      in (wrap32 (uptime sdiv 86400), wrap32 ((uptime smod 86400) sdiv 3600),
          wrap32 ((uptime smod 3600) sdiv 60), wrap32 (uptime smod 60)))"

subsection \<open>The logger\<close>

datatype log_target = Log_file string | Log_stderr

record logger =
  g_log_file :: "log_target option"
  g_log_level :: c_int

definition logger_off :: logger where
  "logger_off = \<lparr>g_log_file = None, g_log_level = 1\<rparr>"

text \<open>\<open>fopen_ok\<close> says whether the file can be opened for appending.\<close>

definition logger_init :: "(string \<Rightarrow> bool) \<Rightarrow> string option \<Rightarrow> c_int \<Rightarrow> logger \<Rightarrow> logger" where
  "logger_init fopen_ok file level lg =
     (let lg = lg\<lparr>g_log_level := level\<rparr>
      in case file of
        Some f \<Rightarrow> if 0 < length f then lg\<lparr>g_log_file := Some (if fopen_ok f then Log_file f else Log_stderr)\<rparr>
                  else lg\<lparr>g_log_file := Some Log_stderr\<rparr>
      | None \<Rightarrow> lg\<lparr>g_log_file := Some Log_stderr\<rparr>)"

definition level_str :: "string list" where
  "level_str = [''DEBUG'', ''INFO'', ''WARN'', ''ERROR'']"

text \<open>What \<open>logger_log\<close> writes: its target and its level name, nothing when the message is
  below the level or no file is set.  The outer \<^const>\<open>None\<close> is a read outside
  \<open>level_str\<close>.\<close>

definition logger_log :: "c_int \<Rightarrow> string \<Rightarrow> logger \<Rightarrow> (log_target \<times> string \<times> string) option option" where
  "logger_log level msg lg =
     (case g_log_file lg of None \<Rightarrow> Some None
      | Some t \<Rightarrow>
          if level < g_log_level lg then Some None
          else if 0 \<le> level \<and> level < 4 then Some (Some (t, level_str ! nat level, msg)) else None)"

definition logger_cleanup :: "logger \<Rightarrow> logger" where
  "logger_cleanup lg =
     (case g_log_file lg of Some (Log_file f) \<Rightarrow> lg\<lparr>g_log_file := None\<rparr> | _ \<Rightarrow> lg)"

end
