(* ===== verification/Network.thy ===== *)
theory Network
  imports Proxy_Types Stats
begin

text \<open>
  The socket helpers of \<^verbatim>\<open>src/utils/network.c\<close> and the world they act on.  The
  operating system answers from scripts: what the next \<open>recv\<close> or \<open>send\<close> of a descriptor
  returns, what the next connection attempt and the next \<open>select\<close> bring.  The world records
  what the program did to it: the bytes accepted by each descriptor, the hosts dialled and
  the descriptors still open.  An exhausted script answers end of file, or an error.
\<close>

subsection \<open>The world\<close>

text \<open>\<open>Closed\<close> is the end of the file.  \<open>Accepts n\<close> is a \<open>send\<close> that takes
  \<open>n + 1\<close> bytes, or all of them when there are fewer.\<close>

datatype recv_answer = Data "u8 list" | Closed | Recv_again | Recv_error
datatype send_answer = Accepts nat | Send_again | Send_error

text \<open>\<open>socket\<close> gave a descriptor (or failed), \<open>gethostbyname\<close> knew the host, \<open>connect\<close>
  succeeded.\<close>

datatype dial_answer = No_socket | Socket c_int bool bool

text \<open>A \<open>select\<close> on the two ends of a tunnel: a timeout or an error, or which ends are
  readable.\<close>

datatype select_answer = Quiet | Ready bool bool

record world =
  recv_script :: "c_int \<Rightarrow> recv_answer list"
  send_script :: "c_int \<Rightarrow> send_answer list"
  dial_script :: "dial_answer list"
  select_script :: "select_answer list"
  accepted :: "c_int \<Rightarrow> u8 list"
  dialled :: "(string \<times> nat) list"
  open_fds :: "c_int list"
  w_stats :: stats

subsection \<open>System calls\<close>

text \<open>\<open>recv\<close> into a buffer of \<open>n\<close> bytes: the bytes read ([] when the call returned zero or
  less) and whether it failed.  What does not fit stays in the socket.\<close>

definition sys_recv :: "c_int \<Rightarrow> nat \<Rightarrow> world \<Rightarrow> recv_answer \<times> world" where
  "sys_recv fd n w =
     (case recv_script w fd of
        [] \<Rightarrow> (Closed, w)
      | Data d # rest \<Rightarrow>
          (Data (take n d), w\<lparr>recv_script := (recv_script w)
             (fd := (if drop n d = [] then rest else Data (drop n d) # rest))\<rparr>)
      | r # rest \<Rightarrow> (r, w\<lparr>recv_script := (recv_script w)(fd := rest)\<rparr>))"

text \<open>\<open>send\<close> of some bytes, at least one: how many were taken.\<close>

definition sys_send :: "c_int \<Rightarrow> u8 list \<Rightarrow> world \<Rightarrow> send_answer \<times> world" where
  "sys_send fd d w =
     (case send_script w fd of
        [] \<Rightarrow> (Send_error, w)
      | Accepts k # rest \<Rightarrow>
          (Accepts (min k (length d - 1)),
           w\<lparr>send_script := (send_script w)(fd := rest),
             accepted := (accepted w)(fd := accepted w fd @ take (Suc k) d)\<rparr>)
      | r # rest \<Rightarrow> (r, w\<lparr>send_script := (send_script w)(fd := rest)\<rparr>))"

definition sys_close :: "c_int \<Rightarrow> world \<Rightarrow> world" where
  "sys_close fd w = w\<lparr>open_fds := remove1 fd (open_fds w)\<rparr>"

text \<open>The helpers of a tunnel see only bytes: \<open>recv\<close> returned \<open>n > 0\<close> bytes, or did not.\<close>

definition recv_bytes :: "c_int \<Rightarrow> nat \<Rightarrow> world \<Rightarrow> u8 list option \<times> world" where
  "recv_bytes fd n w =
     (case sys_recv fd n w of
        (Data d, w') \<Rightarrow> (if d = [] then (None, w') else (Some d, w'))
      | (r, w') \<Rightarrow> (None, w'))"

subsection \<open>The functions of network.c\<close>

definition set_nonblocking :: "c_int \<Rightarrow> c_int \<Rightarrow> c_int" where
  "set_nonblocking getfl setfl = (if getfl = -1 then -1 else setfl)"

text \<open>The loop of \<open>send_all\<close>: \<^const>\<open>None\<close> for the return of -1, else the total sent.  Each
  round consumes one answer of the script; \<open>EAGAIN\<close> starts over.\<close>

function send_loop :: "c_int \<Rightarrow> u8 list \<Rightarrow> nat \<Rightarrow> world \<Rightarrow> nat option \<times> world" where
  "send_loop fd d sent w =
     (if d = [] then (Some sent, w)
      else case sys_send fd d w of
        (Accepts k, w') \<Rightarrow> send_loop fd (drop (Suc k) d) (sent + Suc k) w'
      | (Send_again, w') \<Rightarrow> send_loop fd d sent w'
      | (Send_error, w') \<Rightarrow> (None, w'))"
  by pat_completeness auto
termination
  by (relation "measure (\<lambda>(fd, d, sent, w). length (send_script w fd))")
    (auto simp: sys_send_def split: list.splits send_answer.splits)

declare send_loop.simps [simp del]

definition send_all :: "c_int \<Rightarrow> u8 list \<Rightarrow> world \<Rightarrow> c_int \<times> world" where
  "send_all fd d w = (case send_loop fd d 0 w of (Some n, w') \<Rightarrow> (int n, w') | (None, w') \<Rightarrow> (-1, w'))"

text \<open>What is left to read, as a measure of the loops that read.\<close>

definition recv_budget :: "c_int \<Rightarrow> world \<Rightarrow> nat" where
  "recv_budget fd w = (\<Sum>a\<leftarrow>recv_script w fd. case a of Data d \<Rightarrow> Suc (length d) | _ \<Rightarrow> 1)"

lemma sys_recv_shorter:
  "(r, w') = sys_recv fd n w \<Longrightarrow> r \<noteq> Closed \<Longrightarrow> 0 < n \<Longrightarrow> recv_budget fd w' < recv_budget fd w"
  by (auto simp: sys_recv_def recv_budget_def split: list.splits recv_answer.splits if_splits)

text \<open>The loop of \<open>recv_all\<close> with the bytes read so far.\<close>

function recv_loop :: "c_int \<Rightarrow> nat \<Rightarrow> u8 list \<Rightarrow> world \<Rightarrow> u8 list option \<times> world" where
  "recv_loop fd len buf w =
     (if len \<le> length buf then (Some buf, w)
      else case sys_recv fd (len - length buf) w of
        (Data d, w') \<Rightarrow> if d = [] then (Some buf, w') else recv_loop fd len (buf @ d) w'
      | (Closed, w') \<Rightarrow> (Some buf, w')
      | (Recv_again, w') \<Rightarrow> recv_loop fd len buf w'
      | (Recv_error, w') \<Rightarrow> (None, w'))"
  by pat_completeness auto
termination
  by (relation "measure (\<lambda>(fd, len, buf, w). recv_budget fd w)") (auto dest!: sys_recv_shorter)

declare recv_loop.simps [simp del]

definition recv_all :: "c_int \<Rightarrow> nat \<Rightarrow> world \<Rightarrow> u8 list option \<times> world" where
  "recv_all fd len w = recv_loop fd len [] w"

text \<open>The port goes through \<open>htons\<close>: its low 16 bits.\<close>

definition connect_to_host :: "string \<Rightarrow> c_int \<Rightarrow> world \<Rightarrow> c_int \<times> world" where
  "connect_to_host host p w =
     (case dial_script w of
        [] \<Rightarrow> (-1, w)
      | a # rest \<Rightarrow>
          (let w = w\<lparr>dial_script := rest\<rparr>
           in case a of
             No_socket \<Rightarrow> (-1, w)
           | Socket fd known connected \<Rightarrow>
               (let w = w\<lparr>open_fds := fd # open_fds w\<rparr>
                in if \<not> known then (-1, sys_close fd w)
                   else
                     let w = w\<lparr>dialled := dialled w @ [(host, nat (p mod 65536))]\<rparr>
                     in if \<not> connected then (-1, sys_close fd w) else (fd, w))))"

text \<open>\<open>create_server_socket\<close>: what \<open>socket\<close> returned and whether each later call succeeds.\<close>

definition create_server_socket ::
  "c_int \<Rightarrow> bool \<Rightarrow> (string \<Rightarrow> bool) \<Rightarrow> bool \<Rightarrow> bool \<Rightarrow> string \<Rightarrow> world \<Rightarrow> c_int \<times> world" where
  "create_server_socket sock opt_ok pton_ok bind_ok listen_ok addr w =
     (let w = (if 0 \<le> sock then w\<lparr>open_fds := sock # open_fds w\<rparr> else w)
      in if sock = 0 then (-1, w)
         else if \<not> opt_ok then (-1, sys_close sock w)
         else if addr \<noteq> ''0.0.0.0'' \<and> \<not> pton_ok addr then (-1, sys_close sock w)
         else if \<not> bind_ok then (-1, sys_close sock w)
         else if \<not> listen_ok then (-1, sys_close sock w)
         else (sock, w))"

subsection \<open>What is delivered\<close>

text \<open>Calls on sockets leave everything else alone.\<close>

definition same_rest :: "world \<Rightarrow> world \<Rightarrow> bool" where
  "same_rest w w' \<longleftrightarrow> dial_script w' = dial_script w \<and> select_script w' = select_script w \<and>
     dialled w' = dialled w \<and> open_fds w' = open_fds w \<and> w_stats w' = w_stats w"

lemma same_rest_refl [simp]: "same_rest w w"
  by (simp add: same_rest_def)

lemma same_rest_trans: "same_rest w1 w2 \<Longrightarrow> same_rest w2 w3 \<Longrightarrow> same_rest w1 w3"
  by (simp add: same_rest_def)

lemma sys_send_rest: "sys_send fd d w = (r, w') \<Longrightarrow> same_rest w w' \<and> recv_script w' = recv_script w"
  by (auto simp: sys_send_def same_rest_def split: list.splits send_answer.splits)

lemma sys_recv_rest: "sys_recv fd n w = (r, w') \<Longrightarrow> same_rest w w' \<and> accepted w' = accepted w \<and>
    send_script w' = send_script w \<and> (\<forall>fd'. fd' \<noteq> fd \<longrightarrow> recv_script w' fd' = recv_script w fd')"
  by (auto simp: sys_recv_def same_rest_def split: list.splits recv_answer.splits if_splits)

lemma send_loop_spec:
  "send_loop fd d sent w = (r, w') \<Longrightarrow>
     \<exists>k \<le> length d. accepted w' = (accepted w)(fd := accepted w fd @ take k d) \<and>
       (case r of Some n \<Rightarrow> n = sent + length d \<and> k = length d | None \<Rightarrow> k < length d) \<and>
       same_rest w w' \<and> recv_script w' = recv_script w"
proof (induction fd d sent w arbitrary: r w' rule: send_loop.induct)
  case (1 fd d sent w)
  show ?case
  proof (cases "d = []")
    case True
    with 1(3) have "r = Some sent" "w' = w" by (simp_all add: send_loop.simps [of fd "[]"])
    with True show ?thesis by (simp add: fun_upd_idem)
  next
    case False
    obtain a w1 where a: "sys_send fd d w = (a, w1)" by fastforce
    note rest = sys_send_rest [OF a]
    show ?thesis
    proof (cases a)
      case (Accepts k)
      have k: "k < length d" "accepted w1 = (accepted w)(fd := accepted w fd @ take (Suc k) d)"
        using a False Accepts by (auto simp: sys_send_def min_def split: list.splits send_answer.splits)
          (cases d; simp)+
      from 1(3) False a Accepts have "send_loop fd (drop (Suc k) d) (sent + Suc k) w1 = (r, w')"
        by (simp add: send_loop.simps [of fd d])
      from 1(1) [OF False a [symmetric] Accepts this] obtain j where
        j: "j \<le> length (drop (Suc k) d)" "accepted w' = (accepted w1)(fd := accepted w1 fd @ take j (drop (Suc k) d))"
        "case r of Some n \<Rightarrow> n = sent + Suc k + length (drop (Suc k) d) \<and> j = length (drop (Suc k) d) | None \<Rightarrow> j < length (drop (Suc k) d)"
        "same_rest w1 w'" "recv_script w' = recv_script w1" by blast
      have "take (Suc k) d @ take j (drop (Suc k) d) = take (Suc k + j) d" by (rule take_add [symmetric])
      then have "accepted w' = (accepted w)(fd := accepted w fd @ take (Suc k + j) d)"
        using j(2) k(2) by simp
      with j(1,3-5) k(1) rest show ?thesis
        by (intro exI [of _ "Suc k + j"]) (auto intro: same_rest_trans split: option.splits)
    next
      case Send_again
      with 1(3) False a have "send_loop fd d sent w1 = (r, w')" by (simp add: send_loop.simps [of fd d])
      from 1(2) [OF False a [symmetric] Send_again this] obtain k where k: "k \<le> length d"
        "accepted w' = (accepted w1)(fd := accepted w1 fd @ take k d)"
        "case r of Some n \<Rightarrow> n = sent + length d \<and> k = length d | None \<Rightarrow> k < length d"
        "same_rest w1 w'" "recv_script w' = recv_script w1" by blast
      moreover have "accepted w1 = accepted w"
        using a Send_again by (auto simp: sys_send_def split: list.splits send_answer.splits)
      moreover have "same_rest w w'" using same_rest_trans rest k(4) by blast
      ultimately show ?thesis using rest by (intro exI [of _ k]) simp
    next
      case Send_error
      moreover have "accepted w1 = accepted w"
        using a Send_error by (auto simp: sys_send_def split: list.splits send_answer.splits)
      ultimately show ?thesis using 1(3) False a rest
        by (intro exI [of _ 0]) (auto simp: send_loop.simps [of fd d] fun_upd_idem)
    qed
  qed
qed

lemma send_all_spec:
  assumes "send_all fd d w = (r, w')"
  shows "\<exists>k \<le> length d. accepted w' = (accepted w)(fd := accepted w fd @ take k d) \<and>
    (r = int (length d) \<and> k = length d \<or> r = -1 \<and> k < length d)"
    and "same_rest w w'" "recv_script w' = recv_script w"
proof -
  obtain s w1 where s: "send_loop fd d 0 w = (s, w1)" by fastforce
  from send_loop_spec [OF s] obtain k where k: "k \<le> length d" "accepted w1 = (accepted w)(fd := accepted w fd @ take k d)"
    "case s of Some n \<Rightarrow> n = 0 + length d \<and> k = length d | None \<Rightarrow> k < length d"
    "same_rest w w1" "recv_script w1 = recv_script w" by blast
  moreover from s assms have "w' = w1" "r = (case s of Some n \<Rightarrow> int n | None \<Rightarrow> -1)"
    by (auto simp: send_all_def split: option.splits)
  ultimately show "\<exists>k \<le> length d. accepted w' = (accepted w)(fd := accepted w fd @ take k d) \<and>
    (r = int (length d) \<and> k = length d \<or> r = -1 \<and> k < length d)"
    "same_rest w w'" "recv_script w' = recv_script w"
    by (auto split: option.splits intro!: exI [of _ k])
qed

text \<open>A descriptor that takes at least \<open>n\<close> more sends and does not fail.\<close>

definition willing :: "nat \<Rightarrow> send_answer list \<Rightarrow> bool" where
  "willing n ss \<longleftrightarrow> Send_error \<notin> set ss \<and> n \<le> length (filter (\<lambda>a. \<exists>k. a = Accepts k) ss)"

lemma willing_simps [simp]:
  "willing n [] \<longleftrightarrow> n = 0" "willing n (Accepts k # ss) \<longleftrightarrow> willing (n - 1) ss"
  "willing n (Send_again # ss) \<longleftrightarrow> willing n ss" "\<not> willing n (Send_error # ss)"
  by (auto simp: willing_def)

lemma willing_replicate [simp]: "willing n (replicate m (Accepts k)) \<longleftrightarrow> n \<le> m"
  by (auto simp: willing_def)

lemma willing_mono: "willing n ss \<Longrightarrow> m \<le> n \<Longrightarrow> willing m ss"
  by (simp add: willing_def)

lemma send_loop_willing:
  "willing (length d + m) (send_script w fd) \<Longrightarrow>
     \<exists>w'. send_loop fd d sent w = (Some (sent + length d), w') \<and> willing m (send_script w' fd) \<and>
       (\<forall>fd'. fd' \<noteq> fd \<longrightarrow> send_script w' fd' = send_script w fd')"
proof (induction "length (send_script w fd)" arbitrary: d sent w rule: less_induct)
  case less
  show ?case
  proof (cases "d = []")
    case True
    with less.prems show ?thesis by (simp add: send_loop.simps [of fd "[]"])
  next
    case False
    then have pos: "0 < length d + m" by simp
    then obtain a ss where s: "send_script w fd = a # ss" using less.prems by (cases "send_script w fd") auto
    show ?thesis
    proof (cases a)
      case (Accepts k)
      let ?k = "min k (length d - 1)"
      define w1 where "w1 = w\<lparr>send_script := (send_script w)(fd := ss),
        accepted := (accepted w)(fd := accepted w fd @ take (Suc k) d)\<rparr>"
      have w1: "send_script w1 fd = ss" "\<forall>fd'. fd' \<noteq> fd \<longrightarrow> send_script w1 fd' = send_script w fd'"
        by (simp_all add: w1_def)
      have d: "length (drop (Suc ?k) d) + m \<le> length d + m - 1" "sent + Suc ?k + length (drop (Suc ?k) d) = sent + length d"
        using False by (cases d; simp)+
      have "willing (length (drop (Suc ?k) d) + m) (send_script w1 fd)"
        using less.prems s Accepts w1(1) d(1) by (auto intro: willing_mono)
      from less.hyps [OF _ this, of "sent + Suc ?k"] obtain w' where
        "send_loop fd (drop (Suc ?k) d) (sent + Suc ?k) w1 = (Some (sent + length d), w')"
        "willing m (send_script w' fd)" "\<forall>fd'. fd' \<noteq> fd \<longrightarrow> send_script w' fd' = send_script w1 fd'"
        unfolding w1(1) s d(2) by auto
      moreover have "sys_send fd d w = (Accepts ?k, w1)" by (simp add: sys_send_def s Accepts w1_def)
      ultimately show ?thesis using False w1(2) by (simp add: send_loop.simps [of fd d])
    next
      case Send_again
      define w1 where "w1 = w\<lparr>send_script := (send_script w)(fd := ss)\<rparr>"
      have w1: "send_script w1 fd = ss" "\<forall>fd'. fd' \<noteq> fd \<longrightarrow> send_script w1 fd' = send_script w fd'"
        by (simp_all add: w1_def)
      have "willing (length d + m) (send_script w1 fd)" using less.prems s Send_again w1(1) by simp
      from less.hyps [OF _ this, of sent] obtain w' where "send_loop fd d sent w1 = (Some (sent + length d), w')"
        "willing m (send_script w' fd)" "\<forall>fd'. fd' \<noteq> fd \<longrightarrow> send_script w' fd' = send_script w1 fd'"
        unfolding w1(1) s by auto
      moreover have "sys_send fd d w = (Send_again, w1)" by (simp add: sys_send_def s Send_again w1_def)
      ultimately show ?thesis using False w1(2) by (simp add: send_loop.simps [of fd d])
    next
      case Send_error
      with less.prems s show ?thesis by simp
    qed
  qed
qed

lemma send_all_willing:
  assumes "willing (length d + m) (send_script w fd)"
  shows "\<exists>w'. send_all fd d w = (int (length d), w') \<and> willing m (send_script w' fd) \<and>
    (\<forall>fd'. fd' \<noteq> fd \<longrightarrow> send_script w' fd' = send_script w fd')"
  using send_loop_willing [OF assms, of 0] by (auto simp: send_all_def)

lemma recv_bytes_sends: "recv_bytes fd n w = (x, w') \<Longrightarrow> send_script w' = send_script w"
proof -
  assume "recv_bytes fd n w = (x, w')"
  then obtain a where "sys_recv fd n w = (a, w')"
    by (auto simp: recv_bytes_def split: prod.splits recv_answer.splits if_splits)
  from sys_recv_rest [OF this] show ?thesis by simp
qed

text \<open>The bytes a descriptor will deliver before it closes, fails or has nothing ready; a
  \<open>recv\<close> of no bytes is the end of the file.\<close>

fun stream_of :: "recv_answer list \<Rightarrow> u8 list" where
  "stream_of [] = []"
| "stream_of (Data d # rest) = (if d = [] then [] else d @ stream_of rest)"
| "stream_of (_ # rest) = []"

definition stream :: "c_int \<Rightarrow> world \<Rightarrow> u8 list" where
  "stream fd w = stream_of (recv_script w fd)"

lemma recv_bytes_spec:
  assumes "recv_bytes fd n w = (Some d, w')"
  shows "d \<noteq> []" "length d \<le> n" "stream fd w = d @ stream fd w'" "same_rest w w'" "accepted w' = accepted w"
    and "\<forall>fd'. fd' \<noteq> fd \<longrightarrow> recv_script w' fd' = recv_script w fd'"
proof -
  from assms obtain d0 where r: "sys_recv fd n w = (Data d0, w')" "d0 = d" "d \<noteq> []"
    by (auto simp: recv_bytes_def split: prod.splits recv_answer.splits if_splits)
  with sys_recv_rest [OF r(1)]
  show "d \<noteq> []" "same_rest w w'" "accepted w' = accepted w" "\<forall>fd'. fd' \<noteq> fd \<longrightarrow> recv_script w' fd' = recv_script w fd'"
    by auto
  from r show "length d \<le> n" "stream fd w = d @ stream fd w'"
    by (auto simp: sys_recv_def stream_def split: list.splits recv_answer.splits if_splits)
qed

lemma recv_bytes_none:
  assumes "recv_bytes fd n w = (None, w')"
  shows "same_rest w w'" "accepted w' = accepted w" "\<forall>fd'. fd' \<noteq> fd \<longrightarrow> recv_script w' fd' = recv_script w fd'"
proof -
  from assms obtain a where "sys_recv fd n w = (a, w')"
    by (auto simp: recv_bytes_def split: prod.splits recv_answer.splits if_splits)
  from sys_recv_rest [OF this]
  show "same_rest w w'" "accepted w' = accepted w" "\<forall>fd'. fd' \<noteq> fd \<longrightarrow> recv_script w' fd' = recv_script w fd'"
    by blast+
qed

lemma recv_bytes_end: "recv_bytes fd n w = (None, w') \<Longrightarrow> 0 < n \<Longrightarrow> stream fd w = []"
  by (auto simp: recv_bytes_def sys_recv_def stream_def split: list.splits recv_answer.splits if_splits)

subsection \<open>Properties\<close>

text \<open>C36: \<open>send_all\<close> sends all or reports that it did not.  It returns the length exactly
  when the descriptor has taken every byte, and -1 exactly when it took a proper initial
  segment; partial sends and \<open>EAGAIN\<close> never reorder, drop or repeat a byte, and nothing else
  in the world changes.\<close>

theorem send_all_complete:
  "case send_all fd d w of (r, w') \<Rightarrow>
     \<exists>k \<le> length d. accepted w' = (accepted w)(fd := accepted w fd @ take k d) \<and>
       (if k = length d then r = int (length d) else r = -1) \<and>
       same_rest w w' \<and> recv_script w' = recv_script w"
proof -
  obtain r w' where s: "send_all fd d w = (r, w')" by fastforce
  from send_all_spec(1) [OF s] obtain k where k: "k \<le> length d"
    "accepted w' = (accepted w)(fd := accepted w fd @ take k d)"
    "r = int (length d) \<and> k = length d \<or> r = -1 \<and> k < length d" by blast
  with s send_all_spec(2,3) [OF s] show ?thesis by (auto intro!: exI [of _ k])
qed

end
