(* ===== verification/Tunnel.thy ===== *)
theory Tunnel
  imports Network
begin

text \<open>
  The bidirectional relay that three handlers run: \<open>relay_data\<close> and the loop of
  \<open>connection_handle\<close> in \<^verbatim>\<open>src/core/connection.c\<close>, the tunnel of a CONNECT request in
  \<^verbatim>\<open>src/protocols/http.c\<close> and the one of \<^verbatim>\<open>src/protocols/socks5.c\<close>.  The three
  differ in the size of the buffer and in the timeout of \<open>select\<close> only.
\<close>

text \<open>One transfer: -1 when the read or the write fails, else the counter and the global
  statistics grow by the bytes moved.\<close>

definition relay_data :: "nat \<Rightarrow> c_int \<Rightarrow> c_int \<Rightarrow> size_t \<Rightarrow> world \<Rightarrow> c_int \<times> size_t \<times> world" where
  "relay_data bufsize from_fd to_fd count w =
     (case recv_bytes from_fd bufsize w of
        (None, w) \<Rightarrow> (-1, count, w)
      | (Some d, w) \<Rightarrow>
          (case send_all to_fd d w of (r, w) \<Rightarrow>
             if r < 0 then (-1, count, w)
             else (0, count + of_nat (length d),
                   w\<lparr>w_stats := stats_add_bytes_transferred (of_nat (length d)) (w_stats w)\<rparr>)))"

text \<open>One round of the loop after \<open>select\<close>: the client end first; a failure skips the rest.\<close>

definition tunnel_round :: "nat \<Rightarrow> bool \<Rightarrow> bool \<Rightarrow> connection \<Rightarrow> world \<Rightarrow> bool \<times> connection \<times> world" where
  "tunnel_round bufsize from_client from_remote conn w =
     (let (r1, n1, w1) =
        (if from_client then relay_data bufsize (client_fd conn) (remote_fd conn) (bytes_sent conn) w
         else (0, bytes_sent conn, w));
        conn1 = conn\<lparr>bytes_sent := n1\<rparr>
      in if r1 < 0 then (False, conn1, w1)
         else
           let (r2, n2, w2) =
             (if from_remote then relay_data bufsize (remote_fd conn) (client_fd conn) (bytes_received conn) w1
              else (0, bytes_received conn, w1))
           in (0 \<le> r2, conn1\<lparr>bytes_received := n2\<rparr>, w2))"

fun tunnel_loop :: "nat \<Rightarrow> select_answer list \<Rightarrow> connection \<Rightarrow> world \<Rightarrow> connection \<times> world" where
  "tunnel_loop bufsize [] conn w = (conn, w\<lparr>select_script := []\<rparr>)"
| "tunnel_loop bufsize (Quiet # rest) conn w = (conn, w\<lparr>select_script := rest\<rparr>)"
| "tunnel_loop bufsize (Ready c r # rest) conn w =
     (case tunnel_round bufsize c r conn w of (go, conn, w) \<Rightarrow>
        if go then tunnel_loop bufsize rest conn w else (conn, w\<lparr>select_script := rest\<rparr>))"

definition tunnel :: "nat \<Rightarrow> connection \<Rightarrow> world \<Rightarrow> connection \<times> world" where
  "tunnel bufsize conn w = tunnel_loop bufsize (select_script w) conn w"

subsection \<open>What a tunnel delivers\<close>

lemma relay_data_spec:
  assumes "relay_data bufsize from_fd to_fd cnt w = (r, cnt', w')" "from_fd \<noteq> to_fd"
  shows "\<exists>k \<le> length (stream from_fd w).
      accepted w' = (accepted w)(to_fd := accepted w to_fd @ take k (stream from_fd w)) \<and>
      (r = 0 \<longrightarrow> stream from_fd w' = drop k (stream from_fd w) \<and> cnt' = cnt + of_nat k \<and>
         bytes_transferred (w_stats w') = bytes_transferred (w_stats w) + of_nat k) \<and>
      (r \<noteq> 0 \<longrightarrow> r = -1 \<and> cnt' = cnt \<and> w_stats w' = w_stats w)"
    and "\<forall>fd. fd \<noteq> from_fd \<longrightarrow> stream fd w' = stream fd w"
    and "open_fds w' = open_fds w" "dialled w' = dialled w" "dial_script w' = dial_script w"
    and "select_script w' = select_script w"
proof -
  have all: "(\<exists>k \<le> length (stream from_fd w).
      accepted w' = (accepted w)(to_fd := accepted w to_fd @ take k (stream from_fd w)) \<and>
      (r = 0 \<longrightarrow> stream from_fd w' = drop k (stream from_fd w) \<and> cnt' = cnt + of_nat k \<and>
         bytes_transferred (w_stats w') = bytes_transferred (w_stats w) + of_nat k) \<and>
      (r \<noteq> 0 \<longrightarrow> r = -1 \<and> cnt' = cnt \<and> w_stats w' = w_stats w)) \<and>
    (\<forall>fd. fd \<noteq> from_fd \<longrightarrow> stream fd w' = stream fd w) \<and>
    open_fds w' = open_fds w \<and> dialled w' = dialled w \<and> dial_script w' = dial_script w \<and> select_script w' = select_script w"
  proof (cases "recv_bytes from_fd bufsize w")
    case (Pair x w1)
    show ?thesis
    proof (cases x)
      case None
      with Pair assms(1) recv_bytes_none [of from_fd bufsize w w1] show ?thesis
        by (auto simp: relay_data_def same_rest_def stream_def fun_upd_idem intro!: exI [of _ 0])
    next
      case (Some d)
      with Pair have rb: "recv_bytes from_fd bufsize w = (Some d, w1)" by simp
      note rcv = recv_bytes_spec [OF rb]
      obtain r2 w2 where s: "send_all to_fd d w1 = (r2, w2)" by fastforce
      from send_all_spec [OF s] obtain k where k: "k \<le> length d"
        "accepted w2 = (accepted w)(to_fd := accepted w to_fd @ take k d)"
        "r2 = int (length d) \<and> k = length d \<or> r2 = -1 \<and> k < length d" "same_rest w1 w2" "recv_script w2 = recv_script w1"
        using rcv(5) by auto
      have str: "take k d = take k (stream from_fd w)" "k \<le> length (stream from_fd w)"
        using k(1) rcv(3) by simp_all
      have out: "(r, cnt', w') = (if r2 < 0 then (-1, cnt, w2)
          else (0, cnt + of_nat (length d), w2\<lparr>w_stats := stats_add_bytes_transferred (of_nat (length d)) (w_stats w2)\<rparr>))"
        using assms(1) rb s by (simp add: relay_data_def)
      have rest: "w_stats w2 = w_stats w" "open_fds w2 = open_fds w" "dialled w2 = dialled w"
        "dial_script w2 = dial_script w" "select_script w2 = select_script w"
        using rcv(4) k(4) by (simp_all add: same_rest_def)
      have others: "\<forall>fd. fd \<noteq> from_fd \<longrightarrow> recv_script w2 fd = recv_script w fd"
        using rcv(6) k(5) by simp
      show ?thesis
      proof (cases "r2 < 0")
        case True
        with out k str rest others show ?thesis
          by (auto simp: stream_def intro!: exI [of _ k])
      next
        case False
        then have "k = length d" using k(3) by auto
        with False out k(2,5) str rest others rcv(3) show ?thesis
          by (auto simp: stream_def stats_add_bytes_transferred_def intro!: exI [of _ k])
      qed
    qed
  qed
  then show "\<exists>k \<le> length (stream from_fd w).
      accepted w' = (accepted w)(to_fd := accepted w to_fd @ take k (stream from_fd w)) \<and>
      (r = 0 \<longrightarrow> stream from_fd w' = drop k (stream from_fd w) \<and> cnt' = cnt + of_nat k \<and>
         bytes_transferred (w_stats w') = bytes_transferred (w_stats w) + of_nat k) \<and>
      (r \<noteq> 0 \<longrightarrow> r = -1 \<and> cnt' = cnt \<and> w_stats w' = w_stats w)"
    "\<forall>fd. fd \<noteq> from_fd \<longrightarrow> stream fd w' = stream fd w"
    "open_fds w' = open_fds w" "dialled w' = dialled w" "dial_script w' = dial_script w"
    "select_script w' = select_script w" by blast+
qed

text \<open>From \<open>(conn, w)\<close> to \<open>(conn', w')\<close> the tunnel delivered \<open>i\<close> bytes to the remote end and \<open>j\<close>
  to the client, and counted \<open>i'\<close> and \<open>j'\<close> of them.\<close>

definition delivered :: "nat \<Rightarrow> nat \<Rightarrow> nat \<Rightarrow> nat \<Rightarrow> connection \<Rightarrow> world \<Rightarrow> connection \<Rightarrow> world \<Rightarrow> bool" where
  "delivered i j i' j' conn w conn' w' \<longleftrightarrow>
     (let c = client_fd conn; r = remote_fd conn in
      i \<le> length (stream c w) \<and> j \<le> length (stream r w) \<and> i' \<le> i \<and> j' \<le> j \<and>
      accepted w' = (accepted w)(r := accepted w r @ take i (stream c w), c := accepted w c @ take j (stream r w)) \<and>
      conn' = conn\<lparr>bytes_sent := bytes_sent conn + of_nat i', bytes_received := bytes_received conn + of_nat j'\<rparr> \<and>
      bytes_transferred (w_stats w') = bytes_transferred (w_stats w) + of_nat (i' + j') \<and>
      open_fds w' = open_fds w \<and> dialled w' = dialled w \<and> dial_script w' = dial_script w)"

lemma tunnel_round_spec:
  assumes "tunnel_round bufsize a b conn w = (go, conn', w')" "client_fd conn \<noteq> remote_fd conn"
  shows "\<exists>i j i' j'. delivered i j i' j' conn w conn' w' \<and>
    (go \<longrightarrow> i' = i \<and> j' = j \<and> stream (client_fd conn) w' = drop i (stream (client_fd conn) w) \<and>
       stream (remote_fd conn) w' = drop j (stream (remote_fd conn) w))"
proof -
  let ?c = "client_fd conn" and ?r = "remote_fd conn"
  obtain r1 n1 w1 where 1: "(if a then relay_data bufsize ?c ?r (bytes_sent conn) w else (0, bytes_sent conn, w)) = (r1, n1, w1)"
    by (metis prod_cases3)
  have "\<exists>i \<le> length (stream ?c w). accepted w1 = (accepted w)(?r := accepted w ?r @ take i (stream ?c w)) \<and>
      (r1 = 0 \<longrightarrow> stream ?c w1 = drop i (stream ?c w) \<and> n1 = bytes_sent conn + of_nat i \<and>
         bytes_transferred (w_stats w1) = bytes_transferred (w_stats w) + of_nat i) \<and>
      (r1 \<noteq> 0 \<longrightarrow> r1 = -1 \<and> n1 = bytes_sent conn \<and> w_stats w1 = w_stats w) \<and>
      stream ?r w1 = stream ?r w \<and> open_fds w1 = open_fds w \<and> dialled w1 = dialled w \<and> dial_script w1 = dial_script w"
  proof (cases a)
    case True
    with 1 have rel: "relay_data bufsize ?c ?r (bytes_sent conn) w = (r1, n1, w1)" by simp
    note spec = relay_data_spec [OF rel assms(2)]
    have "stream ?r w1 = stream ?r w" using spec(2) assms(2) by simp
    with spec(1,3-5) show ?thesis by simp
  next
    case False
    with 1 show ?thesis by (auto simp: fun_upd_idem intro!: exI [of _ 0])
  qed
  then obtain i where i: "i \<le> length (stream ?c w)"
    "accepted w1 = (accepted w)(?r := accepted w ?r @ take i (stream ?c w))"
    "r1 = 0 \<Longrightarrow> stream ?c w1 = drop i (stream ?c w) \<and> n1 = bytes_sent conn + of_nat i \<and>
       bytes_transferred (w_stats w1) = bytes_transferred (w_stats w) + of_nat i"
    "r1 \<noteq> 0 \<Longrightarrow> r1 = -1 \<and> n1 = bytes_sent conn \<and> w_stats w1 = w_stats w"
    "stream ?r w1 = stream ?r w" "open_fds w1 = open_fds w" "dialled w1 = dialled w" "dial_script w1 = dial_script w"
    by blast
  show ?thesis
  proof (cases "r1 = 0")
    case False
    with assms(1) 1 i(4) have "go = False" "conn' = conn\<lparr>bytes_sent := bytes_sent conn\<rparr>" "w' = w1"
      by (auto simp: tunnel_round_def Let_def split: prod.splits)
    moreover from this(2,3) have "delivered i 0 0 0 conn w conn' w'"
      unfolding delivered_def Let_def using i(1,2,5-8) i(4) [OF False] assms(2) by (simp add: fun_upd_idem)
    ultimately show ?thesis by blast
  next
    case True
    obtain r2 n2 w2 where 2: "(if b then relay_data bufsize ?r ?c (bytes_received conn) w1 else (0, bytes_received conn, w1)) = (r2, n2, w2)"
      by (metis prod_cases3)
    have "\<exists>j \<le> length (stream ?r w1). accepted w2 = (accepted w1)(?c := accepted w1 ?c @ take j (stream ?r w1)) \<and>
        (r2 = 0 \<longrightarrow> stream ?r w2 = drop j (stream ?r w1) \<and> n2 = bytes_received conn + of_nat j \<and>
           bytes_transferred (w_stats w2) = bytes_transferred (w_stats w1) + of_nat j) \<and>
        (r2 \<noteq> 0 \<longrightarrow> r2 = -1 \<and> n2 = bytes_received conn \<and> w_stats w2 = w_stats w1) \<and>
        stream ?c w2 = stream ?c w1 \<and> open_fds w2 = open_fds w1 \<and> dialled w2 = dialled w1 \<and> dial_script w2 = dial_script w1"
    proof (cases b)
      case True
      with 2 have rel: "relay_data bufsize ?r ?c (bytes_received conn) w1 = (r2, n2, w2)" by simp
      note spec = relay_data_spec [OF rel assms(2) [symmetric]]
      have "stream ?c w2 = stream ?c w1" using spec(2) assms(2) by simp
      with spec(1,3-5) show ?thesis by simp
    next
      case False
      with 2 show ?thesis by (auto simp: fun_upd_idem intro!: exI [of _ 0])
    qed
    then obtain j where j: "j \<le> length (stream ?r w1)"
      "accepted w2 = (accepted w1)(?c := accepted w1 ?c @ take j (stream ?r w1))"
      "r2 = 0 \<Longrightarrow> stream ?r w2 = drop j (stream ?r w1) \<and> n2 = bytes_received conn + of_nat j \<and>
         bytes_transferred (w_stats w2) = bytes_transferred (w_stats w1) + of_nat j"
      "r2 \<noteq> 0 \<Longrightarrow> r2 = -1 \<and> n2 = bytes_received conn \<and> w_stats w2 = w_stats w1"
      "stream ?c w2 = stream ?c w1" "open_fds w2 = open_fds w1" "dialled w2 = dialled w1" "dial_script w2 = dial_script w1"
      by blast
    have res: "go = (0 \<le> r2)" "conn' = conn\<lparr>bytes_sent := n1, bytes_received := n2\<rparr>" "w' = w2"
      using assms(1) 1 2 True by (auto simp: tunnel_round_def Let_def split: prod.splits)
    show ?thesis
    proof (cases "r2 = 0")
      case True2: True
      with res i j True assms(2) show ?thesis
        by (intro exI [of _ i] exI [of _ j]) (simp add: delivered_def Let_def ac_simps)
    next
      case False
      have "delivered i j i 0 conn w conn' w'"
        unfolding delivered_def Let_def res(2,3)
        using i(1,2,5-8) i(3) [OF True] j(1,2,5-8) j(4) [OF False] assms(2) by simp
      moreover have "\<not> go" using res(1) j(4) [OF False] by simp
      ultimately show ?thesis by blast
    qed
  qed
qed

lemma delivered_trans:
  assumes "delivered i j i j conn w conn1 w1" "delivered k l k' l' conn1 w1 conn2 w2"
    and ne: "client_fd conn \<noteq> remote_fd conn"
    and rest: "stream (client_fd conn) w1 = drop i (stream (client_fd conn) w)"
      "stream (remote_fd conn) w1 = drop j (stream (remote_fd conn) w)"
  shows "delivered (i + k) (j + l) (i + k') (j + l') conn w conn2 w2"
proof -
  note 1 = assms(1) [unfolded delivered_def Let_def] and 2 = assms(2) [unfolded delivered_def Let_def]
  have same: "client_fd conn1 = client_fd conn" "remote_fd conn1 = remote_fd conn" using 1 by simp_all
  have "accepted w2 = (accepted w)(remote_fd conn := accepted w (remote_fd conn) @ take (i + k) (stream (client_fd conn) w),
      client_fd conn := accepted w (client_fd conn) @ take (j + l) (stream (remote_fd conn) w))"
    using 1 2 ne unfolding same rest by (simp add: take_add fun_upd_twist)
  moreover have "conn2 = conn\<lparr>bytes_sent := bytes_sent conn + of_nat (i + k'),
      bytes_received := bytes_received conn + of_nat (j + l')\<rparr>" using 1 2 by (simp add: add.assoc)
  moreover have "bytes_transferred (w_stats w2) = bytes_transferred (w_stats w) + of_nat (i + k' + (j + l'))"
    using 1 2 by (simp add: ac_simps)
  moreover have "i + k \<le> length (stream (client_fd conn) w)" "j + l \<le> length (stream (remote_fd conn) w)"
    using 1 2 unfolding same rest by auto
  ultimately show ?thesis using 1 2 by (simp add: delivered_def)
qed

lemma tunnel_loop_spec:
  "tunnel_loop bufsize ss conn w = (conn', w') \<Longrightarrow> client_fd conn \<noteq> remote_fd conn \<Longrightarrow>
     \<exists>i j i' j'. delivered i j i' j' conn w conn' w'"
proof (induction bufsize ss conn w rule: tunnel_loop.induct)
  case (1 bufsize conn w)
  then show ?case by (intro exI [of _ 0]) (auto simp: delivered_def Let_def fun_upd_idem)
next
  case (2 bufsize rest conn w)
  then show ?case by (intro exI [of _ 0]) (auto simp: delivered_def Let_def fun_upd_idem)
next
  case (3 bufsize c r rest conn w)
  obtain go conn1 w1 where round: "tunnel_round bufsize c r conn w = (go, conn1, w1)" by (metis prod_cases3)
  from tunnel_round_spec [OF round 3(3)] obtain i j i' j' where
    d: "delivered i j i' j' conn w conn1 w1"
    "go \<Longrightarrow> i' = i \<and> j' = j \<and> stream (client_fd conn) w1 = drop i (stream (client_fd conn) w) \<and>
       stream (remote_fd conn) w1 = drop j (stream (remote_fd conn) w)" by blast
  have same: "client_fd conn1 = client_fd conn" "remote_fd conn1 = remote_fd conn"
    using d(1) by (simp_all add: delivered_def Let_def)
  show ?case
  proof (cases go)
    case True
    with 3(2) round have "tunnel_loop bufsize rest conn1 w1 = (conn', w')" by simp
    from 3(1) [OF round [symmetric] refl True this] same 3(3) obtain k l k' l' where
      "delivered k l k' l' conn1 w1 conn' w'" by auto
    with delivered_trans [of i j conn w conn1 w1] d True 3(3) show ?thesis by blast
  next
    case False
    with 3(2) round have "conn' = conn1" "w' = w1\<lparr>select_script := rest\<rparr>" by simp_all
    with d(1) show ?thesis by (intro exI [of _ i] exI [of _ j] exI [of _ i'] exI [of _ j']) (simp add: delivered_def Let_def)
  qed
qed

lemma tunnel_spec:
  "tunnel bufsize conn w = (conn', w') \<Longrightarrow> client_fd conn \<noteq> remote_fd conn \<Longrightarrow>
     \<exists>i j i' j'. delivered i j i' j' conn w conn' w'"
  unfolding tunnel_def by (rule tunnel_loop_spec)

subsection \<open>Properties\<close>

text \<open>A small world for the examples: descriptor 4 is the client, 5 the remote end.\<close>

definition demo_world :: world where
  "demo_world = \<lparr>recv_script = (\<lambda>fd. if fd = 4 then [Data [1, 2, 3], Closed] else if fd = 5 then [Data [9]] else []),
     send_script = (\<lambda>fd. if fd = 4 then [Accepts 9] else if fd = 5 then [Accepts 0, Send_again, Accepts 9] else []),
     dial_script = [], select_script = [Ready True True, Ready True False, Ready False True],
     accepted = (\<lambda>_. []), dialled = [], open_fds = [5, 4], w_stats = stats_init 0\<rparr>"

definition demo_conn :: connection where
  "demo_conn = \<lparr>client_fd = 4, remote_fd = 5, created_at = 0, bytes_sent = 0, bytes_received = 0,
     client_ip = ''10.0.0.1'', authenticated = 0\<rparr>"

text \<open>C8: a tunnel is faithful.  Whatever \<open>select\<close>, \<open>recv\<close> and \<open>send\<close> answer, each end is
  given an initial segment of the bytes that the other end sent, in order, without loss,
  repetition or mixing; every other descriptor is left alone, no descriptor is opened or
  closed, and the connection and the global statistics count no byte that was not
  delivered.\<close>

theorem tunnel_delivers_prefixes:
  assumes "tunnel bufsize conn w = (conn', w')" "client_fd conn = c" "remote_fd conn = r" "c \<noteq> r"
  obtains i j i' j' where
    "i \<le> length (stream c w)" "j \<le> length (stream r w)" "i' \<le> i" "j' \<le> j"
    and "accepted w' r = accepted w r @ take i (stream c w)"
    and "accepted w' c = accepted w c @ take j (stream r w)"
    and "\<And>fd. fd \<noteq> c \<Longrightarrow> fd \<noteq> r \<Longrightarrow> accepted w' fd = accepted w fd"
    and "bytes_sent conn' = bytes_sent conn + of_nat i'" "bytes_received conn' = bytes_received conn + of_nat j'"
    and "bytes_transferred (w_stats w') = bytes_transferred (w_stats w) + of_nat (i' + j')"
    and "open_fds w' = open_fds w"
proof -
  have "client_fd conn \<noteq> remote_fd conn" using assms by simp
  from tunnel_spec [OF assms(1) this] obtain i j i' j' where "delivered i j i' j' conn w conn' w'" by blast
  with assms(2-4) that [of i j i' j'] show thesis by (simp add: delivered_def Let_def)
qed

theorem tunnel_delivers_prefixes_witness:
  "\<exists>i \<le> 3. accepted (snd (tunnel 2 demo_conn demo_world)) 5 = take i [1, 2, 3]"
proof -
  have s: "stream 4 demo_world = [1, 2, 3]" "accepted demo_world 5 = []"
    "client_fd demo_conn = 4" "remote_fd demo_conn = 5" "(4::c_int) \<noteq> 5"
    by (simp_all add: demo_world_def demo_conn_def stream_def)
  obtain i where "i \<le> length (stream 4 demo_world)"
    "accepted (snd (tunnel 2 demo_conn demo_world)) 5 = accepted demo_world 5 @ take i (stream 4 demo_world)"
    by (rule tunnel_delivers_prefixes [OF surjective_pairing [of "tunnel 2 demo_conn demo_world"] s(3-5)]) blast
  with s show ?thesis by (intro exI [of _ i]) simp
qed

end
