(* ===== verification/Session.thy ===== *)
theory Session
  imports Auth Cache_LRU Url_Filter Tunnel
begin

text \<open>
  What a handler of a connection works on: the global configuration and the state of the
  components that \<^verbatim>\<open>src/protocols\<close> and \<^verbatim>\<open>src/core/connection.c\<close> call, with the
  world of the sockets.  A handler is a function from the connection and this state to its
  return value, the connection and the state; \<^const>\<open>None\<close> is a run that left the behaviour
  that C defines (a write past an array, a read of something never written).
\<close>

record proxy =
  p_net :: world
  p_config :: proxy_config
  p_users :: "credentials list"
  p_filter :: filter_state
  p_cache :: "cache_t option"
  p_logger :: logger
  p_log :: "(log_target \<times> string \<times> string) list"

type_synonym handled = "(c_int \<times> connection \<times> proxy) option"

definition on_net :: "(world \<Rightarrow> 'a \<times> world) \<Rightarrow> proxy \<Rightarrow> 'a \<times> proxy" where
  "on_net f P = (case f (p_net P) of (r, w) \<Rightarrow> (r, P\<lparr>p_net := w\<rparr>))"

text \<open>A line of the log, at a level that \<open>logger_log\<close> has a name for.\<close>

definition log_line :: "c_int \<Rightarrow> string \<Rightarrow> proxy \<Rightarrow> proxy" where
  "log_line level msg P =
     (case logger_log level msg (p_logger P) of Some (Some l) \<Rightarrow> P\<lparr>p_log := p_log P @ [l]\<rparr> | _ \<Rightarrow> P)"

text \<open>Bytes read as the characters of a C string, which ends at the first zero.\<close>

definition c_text :: "u8 list \<Rightarrow> string" where
  "c_text bs = takeWhile (\<lambda>c. c \<noteq> NUL) (map (\<lambda>b. char_of (unat b)) bs)"

definition show_int :: "int \<Rightarrow> string" where
  "show_int i = (if i < 0 then CHR ''-'' # show_nat (nat (- i)) else show_nat (nat i))"

lemma c_string_c_text [simp]: "c_string (c_text bs)"
  by (auto simp: c_string_def c_text_def dest: set_takeWhileD)

lemma c_text_bytes_of: "c_string s \<Longrightarrow> c_text (bytes_of s) = s"
  by (simp add: c_text_def c_string_def takeWhile_eq_all_conv) blast

lemma on_net_frame [simp]:
  "on_net f P = (r, P') \<Longrightarrow> p_config P' = p_config P \<and> p_users P' = p_users P \<and> p_filter P' = p_filter P \<and>
     p_cache P' = p_cache P \<and> p_logger P' = p_logger P \<and> p_log P' = p_log P \<and> f (p_net P) = (r, p_net P')"
  by (auto simp: on_net_def split: prod.splits)

lemma log_line_frame [simp]:
  "p_net (log_line l msg P) = p_net P" "p_config (log_line l msg P) = p_config P"
  "p_users (log_line l msg P) = p_users P" "p_filter (log_line l msg P) = p_filter P"
  "p_cache (log_line l msg P) = p_cache P" "p_logger (log_line l msg P) = p_logger P"
  by (simp_all add: log_line_def split: option.split)

text \<open>One message that arrives whole, and one reply that is taken whole.\<close>

lemma recv_whole:
  assumes "recv_script w fd = Data d # rest" "d \<noteq> []" "length d \<le> n"
  shows "recv_bytes fd n w = (Some d, w\<lparr>recv_script := (recv_script w)(fd := rest)\<rparr>)"
  using assms by (simp add: recv_bytes_def sys_recv_def)

lemma send_whole:
  assumes "send_script w fd = Accepts k # rest" "d \<noteq> []" "length d \<le> Suc k"
  shows "send_all fd d w = (int (length d), w\<lparr>send_script := (send_script w)(fd := rest),
    accepted := (accepted w)(fd := accepted w fd @ d)\<rparr>)"
proof -
  have "min k (length d - 1) = length d - 1" using assms(3) by simp
  with assms have "sys_send fd d w = (Accepts (length d - 1), w\<lparr>send_script := (send_script w)(fd := rest),
    accepted := (accepted w)(fd := accepted w fd @ d)\<rparr>)" by (simp add: sys_send_def)
  with assms(2) show ?thesis
    by (simp add: send_all_def send_loop.simps [of fd d] send_loop.simps [of fd "[]"])
qed

end
