(* ===== verification/Socks5.thy ===== *)
theory Socks5
  imports Session
begin

text \<open>
  The SOCKS5 handler of \<^verbatim>\<open>src/protocols/socks5.c\<close>: the negotiation of the method,
  the login, and the request.  Every read of the buffer is guarded by the number of bytes
  received, so what the buffer held before plays no part.
\<close>

subsection \<open>Constants\<close>

definition SOCKS5_VERSION :: u8 where "SOCKS5_VERSION = 5"
definition SOCKS5_AUTH_NONE :: u8 where "SOCKS5_AUTH_NONE = 0"
definition SOCKS5_AUTH_USERPASS :: u8 where "SOCKS5_AUTH_USERPASS = 2"
definition SOCKS5_AUTH_NO_ACCEPTABLE :: u8 where "SOCKS5_AUTH_NO_ACCEPTABLE = 255"

lemmas socks5_constants =
  SOCKS5_VERSION_def SOCKS5_AUTH_NONE_def SOCKS5_AUTH_USERPASS_def SOCKS5_AUTH_NO_ACCEPTABLE_def

subsection \<open>The handshake\<close>

fun select_method :: "bool \<Rightarrow> u8 list \<Rightarrow> u8" where
  "select_method auth [] = SOCKS5_AUTH_NO_ACCEPTABLE"
| "select_method auth (method # ms) =
     (if auth \<and> method = SOCKS5_AUTH_USERPASS then SOCKS5_AUTH_USERPASS
      else if \<not> auth \<and> method = SOCKS5_AUTH_NONE then SOCKS5_AUTH_NONE
      else select_method auth ms)"

text \<open>The login after the method was chosen (RFC 1929).\<close>

definition socks5_login :: "connection \<Rightarrow> proxy \<Rightarrow> handled" where
  "socks5_login conn P =
     (case on_net (recv_bytes (client_fd conn) 256) P of
        (None, P) \<Rightarrow> Some (-1, conn, P)
      | (Some buf, P) \<Rightarrow>
          (let n = length buf; username_len = unat (buf ! 1) in
           if n < 3 then Some (-1, conn, P)
           else if buf ! 0 \<noteq> 1 then Some (-1, conn, P)
           else if n < 2 + username_len + 1 then Some (-1, conn, P)
           else
             let name = c_text (take username_len (drop 2 buf));
                 password_len = unat (buf ! (2 + username_len))
             in if n < 2 + username_len + 1 + password_len then Some (-1, conn, P)
                else
                  let pass = c_text (take password_len (drop (2 + username_len + 1) buf))
                  in case auth_verify (p_users P) (Some name) (Some pass) of
                    None \<Rightarrow> None
                  | Some auth_result \<Rightarrow>
                      (case on_net (send_all (client_fd conn) [1, if auth_result = 0 then 0 else 1]) P of
                         (r, P) \<Rightarrow>
                           if r < 0 then Some (-1, conn, P)
                           else if auth_result \<noteq> 0 then Some (-1, conn, P)
                           else Some (0, conn\<lparr>authenticated := 1\<rparr>, P))))"

definition socks5_handle_handshake :: "connection \<Rightarrow> proxy \<Rightarrow> handled" where
  "socks5_handle_handshake conn P =
     (case on_net (recv_bytes (client_fd conn) 256) P of
        (None, P) \<Rightarrow> Some (-1, conn, P)
      | (Some buf, P) \<Rightarrow>
          (let n = length buf; num_methods = unat (buf ! 1) in
           if n < 2 then Some (-1, conn, P)
           else if buf ! 0 \<noteq> SOCKS5_VERSION then Some (-1, conn, P)
           else if n < 2 + num_methods then Some (-1, conn, P)
           else
             let selected = select_method (enable_auth (p_config P) \<noteq> 0) (take num_methods (drop 2 buf))
             in case on_net (send_all (client_fd conn) [SOCKS5_VERSION, selected]) P of
               (r, P) \<Rightarrow>
                 if r < 0 then Some (-1, conn, P)
                 else if selected = SOCKS5_AUTH_NO_ACCEPTABLE then Some (-1, conn, P)
                 else if selected = SOCKS5_AUTH_USERPASS then socks5_login conn P
                 else Some (0, conn, P)))"

subsection \<open>The request\<close>

datatype parsed_address = Malformed | Unsupported | Address string c_int

text \<open>\<open>host\<close> and \<open>port\<close>; of a domain request of four bytes the code reads one byte that was not
  received, and refuses whatever it holds.\<close>

definition socks5_parse_address :: "u8 list \<Rightarrow> parsed_address" where
  "socks5_parse_address buf =
     (let n = length buf; atyp = buf ! 3 in
      if atyp = 1 then
        if n < 10 then Malformed
        else Address (show_nat (unat (buf ! 4)) @ ''.'' @ show_nat (unat (buf ! 5)) @ ''.'' @
                      show_nat (unat (buf ! 6)) @ ''.'' @ show_nat (unat (buf ! 7)))
               (int (unat (buf ! 8)) * 256 + int (unat (buf ! 9)))
      else if atyp = 3 then
        let domain_len = (if n < 5 then 0 else unat (buf ! 4)) in
        if n < 5 + domain_len + 2 then Malformed
        else Address (c_text (take domain_len (drop 5 buf)))
               (int (unat (buf ! (5 + domain_len))) * 256 + int (unat (buf ! (5 + domain_len + 1))))
      else Unsupported)"

definition socks5_reply :: "u8 \<Rightarrow> u8 list" where
  "socks5_reply rep = [SOCKS5_VERSION, rep, 0, 1, 0, 0, 0, 0, 0, 0]"

text \<open>\<open>sockname fd\<close> are the four bytes of the address and the two of the port that
  \<open>getsockname\<close> reports.\<close>

definition socks5_connect ::
  "(c_int \<Rightarrow> u8 list) \<Rightarrow> string \<Rightarrow> c_int \<Rightarrow> connection \<Rightarrow> proxy \<Rightarrow> c_int \<times> connection \<times> proxy" where
  "socks5_connect sockname host p conn P =
     (case on_net (connect_to_host host p) P of
        (fd, P) \<Rightarrow>
          (let conn = conn\<lparr>remote_fd := fd\<rparr> in
           if fd < 0 then
             (case on_net (send_all (client_fd conn) (socks5_reply 4)) P of (_, P) \<Rightarrow> (-1, conn, P))
           else
             (case on_net (send_all (client_fd conn) ([SOCKS5_VERSION, 0, 0, 1] @ sockname fd)) P of
                (r, P) \<Rightarrow>
                  if r < 0 then (-1, conn, P)
                  else
                    (case on_net (tunnel 512 conn) P of (conn, P) \<Rightarrow> (0, conn, P)))))"

definition socks5_handle_request :: "(c_int \<Rightarrow> u8 list) \<Rightarrow> connection \<Rightarrow> proxy \<Rightarrow> c_int \<times> connection \<times> proxy" where
  "socks5_handle_request sockname conn P =
     (case on_net (recv_bytes (client_fd conn) 512) P of
        (None, P) \<Rightarrow> (-1, conn, P)
      | (Some buf, P) \<Rightarrow>
          if length buf < 4 then (-1, conn, P)
          else if buf ! 0 \<noteq> SOCKS5_VERSION then (-1, conn, P)
          else case socks5_parse_address buf of
            Malformed \<Rightarrow> (-1, conn, P)
          | Unsupported \<Rightarrow>
              (case on_net (send_all (client_fd conn) (socks5_reply 8)) P of (_, P) \<Rightarrow> (-1, conn, P))
          | Address host p \<Rightarrow>
              (let P = (if enable_logging (p_config P) \<noteq> 0
                        then log_line 1 (''[SOCKS5] '' @ client_ip conn @ '' CONNECT '' @ host @ '':'' @ show_int p) P
                        else P);
                   cmd = buf ! 1
               in if cmd = 1 then socks5_connect sockname host p conn P
                  else if cmd = 2 \<or> cmd = 3 then
                    (case on_net (send_all (client_fd conn) (socks5_reply 7)) P of (_, P) \<Rightarrow> (-1, conn, P))
                  else (-1, conn, P)))"

subsection \<open>What the handshake decides\<close>

lemma select_method_spec:
  "select_method auth ms =
     (if auth then (if SOCKS5_AUTH_USERPASS \<in> set ms then SOCKS5_AUTH_USERPASS else SOCKS5_AUTH_NO_ACCEPTABLE)
      else (if SOCKS5_AUTH_NONE \<in> set ms then SOCKS5_AUTH_NONE else SOCKS5_AUTH_NO_ACCEPTABLE))"
  by (induction ms) auto

lemma login_ok:
  assumes "socks5_login conn P = Some (0, conn', P')"
  shows "conn' = conn\<lparr>authenticated := 1\<rparr>"
    and "\<exists>name pass. c_string name \<and> c_string pass \<and> auth_verify (p_users P) (Some name) (Some pass) = Some 0"
proof -
  obtain r P1 where r: "on_net (recv_bytes (client_fd conn) 256) P = (r, P1)" by fastforce
  with assms obtain buf where buf: "r = Some buf" by (cases r) (auto simp: socks5_login_def)
  let ?name = "c_text (take (unat (buf ! 1)) (drop 2 buf))"
  let ?pass = "c_text (take (unat (buf ! (2 + unat (buf ! 1)))) (drop (2 + unat (buf ! 1) + 1) buf))"
  from assms r buf obtain x where x: "auth_verify (p_users P1) (Some ?name) (Some ?pass) = Some x"
    by (auto simp: socks5_login_def Let_def split: if_splits option.splits)
  obtain r2 P2 where s: "on_net (send_all (client_fd conn) [1, if x = 0 then 0 else 1]) P1 = (r2, P2)" by fastforce
  from assms r buf x s have "x = 0 \<and> conn' = conn\<lparr>authenticated := 1\<rparr>"
    by (auto simp: socks5_login_def Let_def split: if_splits)
  then show "conn' = conn\<lparr>authenticated := 1\<rparr>" by simp
  have "auth_verify (p_users P) (Some ?name) (Some ?pass) = Some 0"
    using x \<open>x = 0 \<and> _\<close> on_net_frame [OF r] by simp
  then show "\<exists>name pass. c_string name \<and> c_string pass \<and> auth_verify (p_users P) (Some name) (Some pass) = Some 0"
    using c_string_c_text by blast
qed

lemma handshake_gate:
  assumes "socks5_handle_handshake conn P = Some (0, conn', P')" "enable_auth (p_config P) \<noteq> 0"
  shows "conn' = conn\<lparr>authenticated := 1\<rparr>"
    and "\<exists>name pass. c_string name \<and> c_string pass \<and> auth_verify (p_users P) (Some name) (Some pass) = Some 0"
proof -
  obtain r P1 where r: "on_net (recv_bytes (client_fd conn) 256) P = (r, P1)" by fastforce
  with assms obtain buf where buf: "r = Some buf" by (cases r) (auto simp: socks5_handle_handshake_def)
  let ?m = "select_method (enable_auth (p_config P1) \<noteq> 0) (take (unat (buf ! 1)) (drop 2 buf))"
  obtain r2 P2 where s: "on_net (send_all (client_fd conn) [SOCKS5_VERSION, ?m]) P1 = (r2, P2)" by fastforce
  have m: "?m = SOCKS5_AUTH_USERPASS \<or> ?m = SOCKS5_AUTH_NO_ACCEPTABLE"
    using assms(2) on_net_frame [OF r] by (simp add: select_method_spec)
  with assms(1) r buf s have "socks5_login conn P2 = Some (0, conn', P')"
    by (auto simp: socks5_handle_handshake_def Let_def socks5_constants split: if_splits)
  from login_ok [OF this] on_net_frame [OF r] on_net_frame [OF s]
  show "conn' = conn\<lparr>authenticated := 1\<rparr>"
    "\<exists>name pass. c_string name \<and> c_string pass \<and> auth_verify (p_users P) (Some name) (Some pass) = Some 0"
    by simp_all
qed

text \<open>The two messages of a client that logs in.\<close>

definition greeting :: "u8 list \<Rightarrow> u8 list" where
  "greeting ms = [SOCKS5_VERSION, of_nat (length ms)] @ ms"

definition login_message :: "u8 list \<Rightarrow> u8 list \<Rightarrow> u8 list" where
  "login_message u p = [1, of_nat (length u)] @ u @ [of_nat (length p)] @ p"

lemma unat_of_nat_byte: "n < 256 \<Longrightarrow> unat (of_nat n :: u8) = n"
  by (simp add: unat_of_nat take_bit_nat_eq_self)

lemma login_parts:
  assumes "length u < 256" "length p < 256"
  shows "unat (login_message u p ! 1) = length u" "login_message u p ! 0 = 1"
    "take (length u) (drop 2 (login_message u p)) = u"
    "unat (login_message u p ! (2 + length u)) = length p"
    "take (length p) (drop (2 + length u + 1) (login_message u p)) = p"
    "length (login_message u p) = 3 + length u + length p"
  using assms by (simp_all add: login_message_def unat_of_nat_byte nth_append)

lemma login_decides:
  assumes "recv_script (p_net P) (client_fd conn) = Data (login_message u p) # rest"
    and "length u + length p \<le> 253" "send_script (p_net P) (client_fd conn) = Accepts (Suc k) # ss"
    and "auth_verify (p_users P) (Some (c_text u)) (Some (c_text p)) = Some x"
  shows "\<exists>P'. socks5_login conn P =
      Some (if x = 0 then 0 else -1, if x = 0 then conn\<lparr>authenticated := 1\<rparr> else conn, P') \<and>
    accepted (p_net P') (client_fd conn) = accepted (p_net P) (client_fd conn) @ [1, if x = 0 then 0 else 1]"
proof -
  let ?fd = "client_fd conn"
  note parts = login_parts [of u p]
  have r: "recv_bytes ?fd 256 (p_net P) =
      (Some (login_message u p), (p_net P)\<lparr>recv_script := (recv_script (p_net P))(?fd := rest)\<rparr>)"
    using assms(2) by (intro recv_whole [OF assms(1)]) (simp_all add: login_message_def)
  define w1 where "w1 = (p_net P)\<lparr>recv_script := (recv_script (p_net P))(?fd := rest)\<rparr>"
  have "send_script w1 ?fd = Accepts (Suc k) # ss" using assms(3) by (simp add: w1_def)
  note s = send_whole [OF this, of "[1, if x = 0 then 0 else 1]", simplified]
  show ?thesis
    using r [folded w1_def] s assms(2,4) parts
    by (simp add: socks5_login_def on_net_def Let_def w1_def [symmetric]) (simp add: w1_def)
qed

lemma handshake_offers_login:
  assumes "recv_script (p_net P) (client_fd conn) = Data (greeting ms) # rest" "length ms \<le> 254"
    and "enable_auth (p_config P) \<noteq> 0" "SOCKS5_AUTH_USERPASS \<in> set ms"
    and "send_script (p_net P) (client_fd conn) = Accepts (Suc k) # ss"
  shows "socks5_handle_handshake conn P = socks5_login conn (P\<lparr>p_net := (p_net P)\<lparr>
    recv_script := (recv_script (p_net P))(client_fd conn := rest),
    send_script := (send_script (p_net P))(client_fd conn := ss),
    accepted := (accepted (p_net P))(client_fd conn := accepted (p_net P) (client_fd conn) @ [5, 2])\<rparr>\<rparr>)"
proof -
  let ?fd = "client_fd conn"
  have g: "greeting ms ! 0 = SOCKS5_VERSION" "unat (greeting ms ! 1) = length ms" "drop 2 (greeting ms) = ms"
    "length (greeting ms) = 2 + length ms"
    using assms(2) by (simp_all add: greeting_def unat_of_nat_byte)
  have r: "recv_bytes ?fd 256 (p_net P) =
      (Some (greeting ms), (p_net P)\<lparr>recv_script := (recv_script (p_net P))(?fd := rest)\<rparr>)"
    using assms(2) by (intro recv_whole [OF assms(1)]) (simp_all add: greeting_def)
  define w1 where "w1 = (p_net P)\<lparr>recv_script := (recv_script (p_net P))(?fd := rest)\<rparr>"
  have "send_script w1 ?fd = Accepts (Suc k) # ss" using assms(5) by (simp add: w1_def)
  note s = send_whole [OF this, of "[5, 2]", simplified]
  have m: "select_method True ms = 2" using assms(4) by (simp add: select_method_spec socks5_constants)
  show ?thesis
    using r [folded w1_def] s g m assms(3)
    by (simp add: socks5_handle_handshake_def on_net_def Let_def socks5_constants w1_def [symmetric]) (simp add: w1_def)
qed

text \<open>The buffer holds 256 bytes, a login may have 513: a longer one is refused unread,
  whatever it says, and without an answer.\<close>

lemma long_login_refused:
  assumes "recv_script (p_net P) (client_fd conn) = Data (login_message u p) # rest"
    and "length u < 256" "length p < 256" "253 < length u + length p"
  shows "\<exists>P'. socks5_login conn P = Some (-1, conn, P') \<and> accepted (p_net P') = accepted (p_net P)"
proof -
  let ?m = "login_message u p" and ?b = "take 256 (login_message u p)"
  note parts = login_parts [OF assms(2,3)]
  obtain w where w: "recv_bytes (client_fd conn) 256 (p_net P) = (Some ?b, w)" "accepted w = accepted (p_net P)"
    using assms(1) by (auto simp: recv_bytes_def sys_recv_def login_message_def)
  have b: "length ?b = 256" "?b ! 0 = 1" "unat (?b ! 1) = length u"
    "length u < 254 \<Longrightarrow> unat (?b ! (2 + length u)) = length p"
    using parts(1,2,4,6) assms(4) by simp_all
  have "socks5_login conn P = Some (-1, conn, P\<lparr>p_net := w\<rparr>)"
  proof (cases "length u < 254")
    case True
    with w(1) b assms(4) show ?thesis
      by (simp add: socks5_login_def on_net_def Let_def del: length_take)
  next
    case False
    with w(1) b(1-3) show ?thesis
      by (simp add: socks5_login_def on_net_def Let_def del: length_take)
  qed
  with w(2) show ?thesis by simp
qed

subsection \<open>What a request asks for\<close>

text \<open>The request of a client (RFC 1928): a version, the command, a reserved byte, the target
  and the port.\<close>

datatype target = IPv4 u8 u8 u8 u8 | Domain "u8 list"

fun target_bytes :: "target \<Rightarrow> u8 list" where
  "target_bytes (IPv4 a b c d) = [1, a, b, c, d]"
| "target_bytes (Domain name) = [3, of_nat (length name)] @ name"

fun target_host :: "target \<Rightarrow> string" where
  "target_host (IPv4 a b c d) = show_nat (unat a) @ ''.'' @ show_nat (unat b) @ ''.'' @
     show_nat (unat c) @ ''.'' @ show_nat (unat d)"
| "target_host (Domain name) = c_text name"

fun target_ok :: "target \<Rightarrow> bool" where
  "target_ok (IPv4 a b c d) = True"
| "target_ok (Domain name) = (length name < 256)"

definition request_message :: "u8 \<Rightarrow> target \<Rightarrow> nat \<Rightarrow> u8 list" where
  "request_message cmd t p = [SOCKS5_VERSION, cmd, 0] @ target_bytes t @ [of_nat (p div 256), of_nat (p mod 256)]"

lemma port_bytes:
  assumes "p < 65536"
  shows "int (unat (of_nat (p div 256) :: u8)) * 256 + int (unat (of_nat (p mod 256) :: u8)) = int p"
proof -
  have "p div 256 < 256" "p mod 256 < 256" using assms by auto
  moreover have "int (p div 256) * 256 + int (p mod 256) = int (p div 256 * 256 + p mod 256)"
    by (simp only: of_nat_add of_nat_mult of_nat_numeral)
  ultimately show ?thesis by (simp add: unat_of_nat_byte del: of_nat_mod)
qed

lemma parse_request:
  assumes "target_ok t" "p < 65536"
  shows "socks5_parse_address (request_message cmd t p) = Address (target_host t) (int p)"
proof (cases t)
  case (IPv4 a b c d)
  with port_bytes [OF assms(2)] show ?thesis
    by (simp add: socks5_parse_address_def request_message_def Let_def)
next
  case (Domain name)
  with assms(1) have n: "unat (of_nat (length name) :: u8) = length name" by (simp add: unat_of_nat_byte)
  have nth: "([5, cmd, 0, 3, of_nat (length name)] @ name @ [x, y]) ! (5 + length name) = x"
    "([5, cmd, 0, 3, of_nat (length name)] @ name @ [x, y]) ! (5 + length name + 1) = y" for x y :: u8
    by (simp_all add: nth_append)
  from Domain n nth port_bytes [OF assms(2)] show ?thesis
    by (simp add: socks5_parse_address_def request_message_def Let_def SOCKS5_VERSION_def)
qed

lemma connect_known:
  assumes "dial_script w = Socket fd True True # ds"
  shows "connect_to_host host p w = (fd, w\<lparr>dial_script := ds, open_fds := fd # open_fds w,
    dialled := dialled w @ [(host, nat (p mod 65536))]\<rparr>)"
  using assms by (simp add: connect_to_host_def)

lemma request_connects:
  assumes "recv_script (p_net P) (client_fd conn) = Data (request_message 1 t p) # rest"
    and "target_ok t" "p < 65536" "dial_script (p_net P) = Socket fd True True # ds" "0 \<le> fd"
    and "send_script (p_net P) (client_fd conn) = Accepts k # ss" "9 \<le> k" "length (sockname fd) = 6"
  shows "\<exists>conn' P' w. socks5_handle_request sockname conn P = (0, conn', P') \<and>
    tunnel 512 (conn\<lparr>remote_fd := fd\<rparr>) w = (conn', p_net P') \<and>
    dialled w = dialled (p_net P) @ [(target_host t, p)] \<and> open_fds w = fd # open_fds (p_net P) \<and>
    recv_script w = (recv_script (p_net P))(client_fd conn := rest) \<and>
    accepted w = (accepted (p_net P))(client_fd conn :=
      accepted (p_net P) (client_fd conn) @ [5, 0, 0, 1] @ sockname fd)"
proof -
  let ?c = "client_fd conn" and ?m = "request_message 1 t p"
  have m: "?m ! 0 = SOCKS5_VERSION" "?m ! 1 = 1" "4 \<le> length ?m" "length ?m \<le> 512" "?m \<noteq> []"
    using assms(2) by (cases t; simp add: request_message_def)+
  define w1 where "w1 = (p_net P)\<lparr>recv_script := (recv_script (p_net P))(?c := rest)\<rparr>"
  have r: "recv_bytes ?c 512 (p_net P) = (Some ?m, w1)"
    unfolding w1_def by (rule recv_whole [OF assms(1) m(5,4)])
  define w2 where "w2 = w1\<lparr>dial_script := ds, open_fds := fd # open_fds w1,
    dialled := dialled w1 @ [(target_host t, p)]\<rparr>"
  have "dial_script w1 = Socket fd True True # ds" using assms(4) by (simp add: w1_def)
  from connect_known [OF this, of "target_host t" "int p"] have c: "connect_to_host (target_host t) (int p) w1 = (fd, w2)"
    using assms(3) by (simp add: w2_def nat_mod_distrib)
  define w3 where "w3 = w2\<lparr>send_script := (send_script w2)(?c := ss),
    accepted := (accepted w2)(?c := accepted w2 ?c @ [5, 0, 0, 1] @ sockname fd)\<rparr>"
  have "send_script w2 ?c = Accepts k # ss" using assms(6) by (simp add: w2_def w1_def)
  from send_whole [OF this, of "[SOCKS5_VERSION, 0, 0, 1] @ sockname fd"] assms(7,8)
  have s: "send_all ?c ([SOCKS5_VERSION, 0, 0, 1] @ sockname fd) w2 = (10, w3)"
    by (simp add: w3_def SOCKS5_VERSION_def)
  obtain conn' w4 where t: "tunnel 512 (conn\<lparr>remote_fd := fd\<rparr>) w3 = (conn', w4)" by fastforce
  define P2 where "P2 = (if enable_logging (p_config P) \<noteq> 0
    then log_line 1 (''[SOCKS5] '' @ client_ip conn @ '' CONNECT '' @ target_host t @ '':'' @ show_int (int p)) (P\<lparr>p_net := w1\<rparr>)
    else P\<lparr>p_net := w1\<rparr>)"
  have P2: "p_net P2 = w1" by (simp add: P2_def)
  have "socks5_handle_request sockname conn P = socks5_connect sockname (target_host t) (int p) conn P2"
    using r m(1-3) parse_request [OF assms(2,3), of 1]
    by (simp add: socks5_handle_request_def on_net_def P2_def Let_def)
  also have "\<dots> = (0, conn', P2\<lparr>p_net := w4\<rparr>)"
    using c s t assms(5) by (simp add: socks5_connect_def on_net_def P2 Let_def)
  finally show ?thesis
    using t by (intro exI [of _ conn'] exI [of _ "P2\<lparr>p_net := w4\<rparr>"] exI [of _ w3])
      (simp add: w3_def w2_def w1_def)
qed

subsection \<open>Properties\<close>

text \<open>C15: the login decides.  When the proxy requires authentication and a client offers the
  method and sends a name and a password, the handshake succeeds exactly when some entry of
  the credential list holds them together, read up to their first zero byte; the client is
  told so, and only then is the connection marked as authenticated.\<close>

theorem socks5_login_decides:
  assumes "enable_auth (p_config P) \<noteq> 0" "list_all cred_wf (p_users P)"
    and "recv_script (p_net P) (client_fd conn) = Data (greeting ms) # Data (login_message u p) # rest"
    and "length ms \<le> 254" "SOCKS5_AUTH_USERPASS \<in> set ms" "length u + length p \<le> 253"
    and "send_script (p_net P) (client_fd conn) = Accepts (Suc j) # Accepts (Suc k) # ss"
    and "ok = ((c_text u, c_text p) \<in> account ` set (p_users P))"
  shows "\<exists>P'. socks5_handle_handshake conn P =
      Some (if ok then 0 else -1, if ok then conn\<lparr>authenticated := 1\<rparr> else conn, P') \<and>
    accepted (p_net P') (client_fd conn) =
      accepted (p_net P) (client_fd conn) @ [5, 2] @ [1, if ok then 0 else 1]"
proof -
  have "auth_verify (p_users P) (Some (c_text u)) (Some (c_text p)) = Some (if ok then 0 else -1)"
    using assms(2,8) by (simp add: auth_verify_account)
  then show ?thesis
    using handshake_offers_login [OF assms(3,4,1,5,7)]
      login_decides [of "P\<lparr>p_net := (p_net P)\<lparr>recv_script := (recv_script (p_net P))(client_fd conn := Data (login_message u p) # rest),
        send_script := (send_script (p_net P))(client_fd conn := Accepts (Suc k) # ss),
        accepted := (accepted (p_net P))(client_fd conn := accepted (p_net P) (client_fd conn) @ [5, 2])\<rparr>\<rparr>"
        conn u p rest k ss "if ok then 0 else -1"] assms(6)
    by (cases ok) simp_all
qed

definition demo_proxy :: proxy where
  "demo_proxy = \<lparr>p_net = demo_world, p_config = config_set_defaults\<lparr>enable_auth := 1, enable_logging := 0\<rparr>,
     p_users = [\<lparr>username = ''bob'' @ [NUL], password = ''pw'' @ [NUL]\<rparr>], p_filter = filter_none,
     p_cache = None, p_logger = logger_off, p_log = []\<rparr>"

theorem socks5_login_decides_witness:
  "\<exists>P'. socks5_handle_handshake demo_conn (demo_proxy\<lparr>p_net := demo_world\<lparr>
      recv_script := (\<lambda>_. [Data (greeting [0, 2]), Data (login_message (bytes_of ''bob'') (bytes_of ''pw''))]),
      send_script := (\<lambda>_. [Accepts 1, Accepts 1])\<rparr>\<rparr>) =
    Some (0, demo_conn\<lparr>authenticated := 1\<rparr>, P')"
proof -
  let ?P = "demo_proxy\<lparr>p_net := demo_world\<lparr>
      recv_script := (\<lambda>_. [Data (greeting [0, 2]), Data (login_message (bytes_of ''bob'') (bytes_of ''pw''))]),
      send_script := (\<lambda>_. [Accepts 1, Accepts 1])\<rparr>\<rparr>"
  have ok: "list_all cred_wf (p_users ?P)" "True = ((c_text (bytes_of ''bob''), c_text (bytes_of ''pw'')) \<in> account ` set (p_users ?P))"
    by (simp_all add: demo_proxy_def cred_wf_def account_def cstr_def c_text_bytes_of c_string_def)
  show ?thesis
    using socks5_login_decides [OF _ ok(1) _ _ _ _ _ ok(2), of demo_conn "[0, 2]" "[]" 0 0 "[]"]
    by (auto simp: demo_proxy_def config_set_defaults_def SOCKS5_AUTH_USERPASS_def)
qed

text \<open>C16: a request is carried out as asked.  For a CONNECT request to an IPv4 address or a
  domain name, at any port, the handler dials that host at that port, tells the client the
  local address with a success reply, and then each end receives an initial segment of what
  the other end sends; the only descriptor opened is that of the remote end.\<close>

theorem socks5_connect_relays:
  assumes "recv_script (p_net P) (client_fd conn) = Data (request_message 1 t p) # rest"
    and "target_ok t" "p < 65536" "dial_script (p_net P) = Socket fd True True # ds" "0 \<le> fd" "fd \<noteq> client_fd conn"
    and "send_script (p_net P) (client_fd conn) = Accepts k # ss" "9 \<le> k" "length (sockname fd) = 6"
  obtains conn' P' i j where "socks5_handle_request sockname conn P = (0, conn', P')"
    and "dialled (p_net P') = dialled (p_net P) @ [(target_host t, p)]"
    and "accepted (p_net P') (client_fd conn) = accepted (p_net P) (client_fd conn) @
      [5, 0, 0, 1] @ sockname fd @ take j (stream fd (p_net P))"
    and "accepted (p_net P') fd = accepted (p_net P) fd @ take i (stream_of rest)"
    and "open_fds (p_net P') = fd # open_fds (p_net P)"
proof -
  from request_connects [where sockname = sockname, OF assms(1-5,7-9)] obtain conn' P' w where
    1: "socks5_handle_request sockname conn P = (0, conn', P')"
    "tunnel 512 (conn\<lparr>remote_fd := fd\<rparr>) w = (conn', p_net P')"
    "dialled w = dialled (p_net P) @ [(target_host t, p)]" "open_fds w = fd # open_fds (p_net P)"
    "recv_script w = (recv_script (p_net P))(client_fd conn := rest)"
    "accepted w = (accepted (p_net P))(client_fd conn :=
      accepted (p_net P) (client_fd conn) @ [5, 0, 0, 1] @ sockname fd)" by blast
  have "stream (client_fd conn) w = stream_of rest" "stream fd w = stream fd (p_net P)"
    using 1(5) assms(6) by (simp_all add: stream_def)
  moreover from tunnel_spec [OF 1(2)] assms(6) obtain i j i' j' where
    "delivered i j i' j' (conn\<lparr>remote_fd := fd\<rparr>) w conn' (p_net P')" by auto
  ultimately show thesis
    using assms(6) 1(1,3,4,6) that [OF 1(1), of j i] by (simp add: delivered_def Let_def)
qed

theorem socks5_connect_relays_witness:
  "\<exists>conn' P'. socks5_handle_request (\<lambda>_. [10, 0, 0, 1, 4, 0]) demo_conn (demo_proxy\<lparr>p_net := demo_world\<lparr>
      recv_script := (\<lambda>_. [Data (request_message 1 (IPv4 10 0 0 7) 443)]),
      send_script := (\<lambda>_. [Accepts 9]), dial_script := [Socket 5 True True], open_fds := [4]\<rparr>\<rparr>) = (0, conn', P') \<and>
    dialled (p_net P') = [(''10.0.0.7'', 443)]"
proof -
  let ?P = "demo_proxy\<lparr>p_net := demo_world\<lparr>
      recv_script := (\<lambda>_. [Data (request_message 1 (IPv4 10 0 0 7) 443)]),
      send_script := (\<lambda>_. [Accepts 9]), dial_script := [Socket 5 True True], open_fds := [4]\<rparr>\<rparr>"
  have h: "target_host (IPv4 10 0 0 7) = ''10.0.0.7''" by code_simp
  have P: "recv_script (p_net ?P) (client_fd demo_conn) = [Data (request_message 1 (IPv4 10 0 0 7) 443)]"
    "dial_script (p_net ?P) = [Socket 5 True True]" "(5::c_int) \<noteq> client_fd demo_conn" "(0::c_int) \<le> 5"
    "target_ok (IPv4 10 0 0 7)" "(443::nat) < 65536" "dialled (p_net ?P) = []"
    "send_script (p_net ?P) (client_fd demo_conn) = [Accepts 9]" "(9::nat) \<le> 9" "length [10, 0, 0, 1, 4, 0 :: u8] = 6"
    by (simp_all add: demo_conn_def demo_world_def)
  obtain conn' P' where "socks5_handle_request (\<lambda>_. [10, 0, 0, 1, 4, 0]) demo_conn ?P = (0, conn', P')"
    "dialled (p_net P') = dialled (p_net ?P) @ [(target_host (IPv4 10 0 0 7), 443)]"
    by (rule socks5_connect_relays [where sockname = "\<lambda>_. [10, 0, 0, 1, 4, 0]", OF P(1,5,6,2,4,3,8,9)]) (simp_all add: P(10))
  with h P(7) show ?thesis by simp
qed

end
