(* ===== verification/Http.thy ===== *)
theory Http
  imports Session
begin

text \<open>
  The HTTP handler of \<^verbatim>\<open>src/protocols/http.c\<close>: the parser of the request and the
  handler with its gates (credentials, URL filter), the CONNECT tunnel, the cache and the
  forwarding of a response.  \<^const>\<open>None\<close> is a run that C leaves undefined: a word too long for
  its array, or a use of \<open>host\<close> although nothing was stored in it.
\<close>

subsection \<open>Parsing\<close>

definition METHOD_SIZE :: nat where "METHOD_SIZE = 16"
definition VERSION_SIZE :: nat where "VERSION_SIZE = 16"

text \<open>One \<open>%s\<close> of \<open>sscanf\<close> into an array: the inner \<^const>\<open>None\<close> is no word left.\<close>

definition scan_into :: "nat \<Rightarrow> string \<Rightarrow> (string \<times> string) option option" where
  "scan_into cap s =
     (case scan_word s of None \<Rightarrow> Some None
      | Some (w, r) \<Rightarrow> if length w < cap then Some (Some (w, r)) else None)"

record request =
  rq_method :: string
  rq_url :: string
  rq_version :: string
  rq_host :: "string option"
  rq_port :: c_int

text \<open>\<open>host_port\<close>, cut at 255 characters, split at its first colon.\<close>

definition split_host_port :: "string \<Rightarrow> string \<times> c_int" where
  "split_host_port text =
     (let host_port = take (MAX_HOSTNAME - 1) text
      in case strchr_split (CHR '':'') host_port of
        Some (h, p) \<Rightarrow> (h, atoi p)
      | None \<Rightarrow> (host_port, 80))"

text \<open>What the host comes from; \<^const>\<open>None\<close> leaves \<open>host\<close> and \<open>port\<close> as they were.\<close>

definition find_host :: "string \<Rightarrow> string \<Rightarrow> (string \<times> c_int) option" where
  "find_host buffer url =
     (case strcasestr buffer ''Host:'' of
        Some h \<Rightarrow>
          (let host_header = dropWhile (\<lambda>c. c = CHR '' '') (drop 5 h)
           in map_option (\<lambda>host_end. split_host_port (upto host_header host_end)) (strstr host_header CRLF))
      | None \<Rightarrow>
          if starts_with ''http://'' url then
            map_option (\<lambda>(h, _). split_host_port h) (strchr_split (CHR ''/'') (drop 7 url))
          else None)"

definition http_parse_request :: "string \<Rightarrow> request option option" where
  "http_parse_request buffer =
     (if strstr buffer CRLF = None then Some None
      else case scan_into METHOD_SIZE buffer of
        None \<Rightarrow> None | Some None \<Rightarrow> Some None
      | Some (Some (m, s1)) \<Rightarrow>
         (case scan_into MAX_PATH s1 of
            None \<Rightarrow> None | Some None \<Rightarrow> Some None
          | Some (Some (u, s2)) \<Rightarrow>
             (case scan_into VERSION_SIZE s2 of
                None \<Rightarrow> None | Some None \<Rightarrow> Some None
              | Some (Some (v, _)) \<Rightarrow>
                  Some (Some \<lparr>rq_method = m, rq_url = u, rq_version = v,
                    rq_host = map_option fst (find_host buffer u),
                    rq_port = (case find_host buffer u of Some (_, p) \<Rightarrow> p | None \<Rightarrow> 80)\<rparr>))))"

subsection \<open>Answers\<close>

definition bad_request :: string where
  "bad_request = ''HTTP/1.1 400 Bad Request'' @ CRLF @ ''Content-Type: text/html'' @ CRLF @
     ''Connection: close'' @ CRLF @ CRLF @ ''<html><body><h1>400 Bad Request</h1></body></html>'' @ CRLF"

definition auth_required :: string where
  "auth_required = ''HTTP/1.1 407 Proxy Authentication Required'' @ CRLF @
     ''Proxy-Authenticate: Basic realm='' @ [CHR 0x22] @ ''Proxy'' @ [CHR 0x22] @ CRLF @ ''Connection: close'' @ CRLF @ CRLF"

definition forbidden :: string where
  "forbidden = ''HTTP/1.1 403 Forbidden'' @ CRLF @ ''Content-Type: text/html'' @ CRLF @
     ''Connection: close'' @ CRLF @ CRLF @
     ''<html><body><h1>403 Forbidden - Content Blocked</h1></body></html>'' @ CRLF"

definition bad_gateway :: string where
  "bad_gateway = ''HTTP/1.1 502 Bad Gateway'' @ CRLF @ ''Connection: close'' @ CRLF @ CRLF"

definition established :: string where
  "established = ''HTTP/1.1 200 Connection Established'' @ CRLF @ CRLF"

text \<open>An answer to the client, sent without a look at the result, and the end with -1.\<close>

definition answer :: "connection \<Rightarrow> string \<Rightarrow> proxy \<Rightarrow> proxy" where
  "answer conn text P = snd (on_net (send_all (client_fd conn) (bytes_of text)) P)"

definition refuse :: "connection \<Rightarrow> string \<Rightarrow> proxy \<Rightarrow> handled" where
  "refuse conn text P = Some (-1, conn, answer conn text P)"

subsection \<open>The gates\<close>

text \<open>The check of the credentials: whether the request passes.\<close>

definition http_auth :: "string \<Rightarrow> proxy \<Rightarrow> bool option" where
  "http_auth buffer P =
     (case strcasestr buffer ''Proxy-Authorization:'' of
        None \<Rightarrow> Some False
      | Some auth_header \<Rightarrow>
          (case auth_parse_basic 128 128 (Some auth_header) of
             None \<Rightarrow> None
           | Some None \<Rightarrow> Some False
           | Some (Some (u, p)) \<Rightarrow> map_option (\<lambda>r. r = 0) (auth_verify (p_users P) (Some u) (Some p))))"

subsection \<open>CONNECT\<close>

definition connect_target :: "request \<Rightarrow> (string \<times> c_int) option" where
  "connect_target rq =
     (case strchr_split (CHR '':'') (rq_url rq) of
        Some (h, p) \<Rightarrow> map_option (\<lambda>h. (h, atoi p)) (strcpy MAX_HOSTNAME h)
      | None \<Rightarrow> map_option (\<lambda>h. (h, rq_port rq)) (rq_host rq))"

definition http_connect :: "request \<Rightarrow> connection \<Rightarrow> proxy \<Rightarrow> handled" where
  "http_connect rq conn P =
     (case connect_target rq of None \<Rightarrow> None
      | Some (h, p) \<Rightarrow>
          (case on_net (connect_to_host h p) P of (fd, P) \<Rightarrow>
             (let conn = conn\<lparr>remote_fd := fd\<rparr> in
              if fd < 0 then refuse conn bad_gateway P
              else
                (case on_net (tunnel BUFFER_SIZE conn) (answer conn established P) of
                   (conn, P) \<Rightarrow> Some (0, conn, P)))))"

subsection \<open>The response\<close>

text \<open>The buffer that collects a response for the cache: \<open>rs_data\<close> are the bytes written so
  far, \<^const>\<open>None\<close> when there is no buffer.\<close>

record response =
  rs_data :: "u8 list option"
  rs_size :: size_t
  rs_capacity :: size_t

definition response_start :: "bool \<Rightarrow> response" where
  "response_start wanted = \<lparr>rs_data = (if wanted then Some [] else None), rs_size = 0, rs_capacity = of_nat BUFFER_SIZE\<rparr>"

text \<open>One chunk; \<^const>\<open>None\<close> is a \<open>memcpy\<close> past the buffer.  \<open>ok\<close> is the success of \<open>realloc\<close>.\<close>

definition response_store :: "bool \<Rightarrow> u8 list \<Rightarrow> response \<Rightarrow> response option" where
  "response_store ok d rs =
     (case rs_data rs of None \<Rightarrow> Some rs
      | Some old \<Rightarrow>
          (let rs = (if rs_capacity rs < rs_size rs + of_nat (length d) then
                       rs\<lparr>rs_capacity := rs_capacity rs * 2, rs_data := (if ok then Some old else None)\<rparr>
                     else rs)
           in case rs_data rs of None \<Rightarrow> Some rs
              | Some old \<Rightarrow>
                  if unat (rs_size rs) + length d \<le> unat (rs_capacity rs) then
                    Some (rs\<lparr>rs_data := Some (take (unat (rs_size rs)) old @ d), rs_size := rs_size rs + of_nat (length d)\<rparr>)
                  else None))"

definition count_received :: "u8 list \<Rightarrow> connection \<Rightarrow> connection" where
  "count_received d conn = conn\<lparr>bytes_received := bytes_received conn + of_nat (length d)\<rparr>"

definition count_transferred :: "u8 list \<Rightarrow> proxy \<Rightarrow> proxy" where
  "count_transferred d P =
     P\<lparr>p_net := (p_net P)\<lparr>w_stats := stats_add_bytes_transferred (of_nat (length d)) (w_stats (p_net P))\<rparr>\<rparr>"

lemma recv_bytes_data: "recv_bytes fd n w = (Some d, w') \<Longrightarrow> sys_recv fd n w = (Data d, w')"
  by (auto simp: recv_bytes_def split: prod.splits recv_answer.splits if_splits)

lemma recv_budget_less:
  assumes "on_net (recv_bytes fd n) P = (Some d, P1)" "0 < n"
  shows "recv_budget fd (p_net P1) < recv_budget fd (p_net P)"
proof -
  have "sys_recv fd n (p_net P) = (Data d, p_net P1)"
    using on_net_frame [OF assms(1)] by (intro recv_bytes_data) simp
  from sys_recv_shorter [OF this [symmetric]] assms(2) show ?thesis by simp
qed

lemma send_budget:
  assumes "on_net (send_all to d) P = (r, P1)"
  shows "recv_budget fd (p_net P1) = recv_budget fd (p_net P)"
proof -
  have "send_all to d (p_net P) = (r, p_net P1)" using on_net_frame [OF assms] by simp
  from send_all_spec(3) [OF this] show ?thesis by (simp add: recv_budget_def)
qed

lemma budget_counted [simp]: "recv_budget fd (p_net (count_transferred d P)) = recv_budget fd (p_net P)"
  by (simp add: count_transferred_def recv_budget_def)

lemma remote_counted [simp]:
  "remote_fd (count_received d conn) = remote_fd conn" "client_fd (count_received d conn) = client_fd conn"
  by (simp_all add: count_received_def)

text \<open>The loop that forwards the response, one pass for each \<open>recv\<close>; the \<open>k\<close>-th pass
  sees the \<open>realloc\<close> answer \<open>m k\<close>.\<close>

function forward_loop ::
  "(nat \<Rightarrow> bool) \<Rightarrow> nat \<Rightarrow> connection \<Rightarrow> response \<Rightarrow> proxy \<Rightarrow> (connection \<times> response \<times> proxy) option" where
  "forward_loop m k conn rs P =
     (case on_net (recv_bytes (remote_fd conn) BUFFER_SIZE) P of
        (None, P1) \<Rightarrow> Some (conn, rs, P1)
      | (Some d, P1) \<Rightarrow>
          (case on_net (send_all (client_fd conn) d) P1 of (r, P2) \<Rightarrow>
             if r < 0 then Some (conn, rs, P2)
             else case response_store (m k) d rs of
               None \<Rightarrow> None
             | Some rs \<Rightarrow> forward_loop m (Suc k) (count_received d conn) rs (count_transferred d P2)))"
  by pat_completeness auto
termination
proof (relation "measure (\<lambda>(m, k, conn, rs, P). recv_budget (remote_fd conn) (p_net P))", goal_cases)
  case (2 m k conn rs P x P1 d xa P2 rs')
  then have r: "on_net (recv_bytes (remote_fd conn) BUFFER_SIZE) P = (Some d, P1)"
    and s: "on_net (send_all (client_fd conn) d) P1 = (xa, P2)" by simp_all
  from recv_budget_less [OF r] send_budget [OF s, of "remote_fd conn"]
  show ?case by (simp add: BUFFER_SIZE_def)
qed simp

declare forward_loop.simps [simp del]

subsection \<open>The handler\<close>

text \<open>What the environment answers: the copy in \<open>cache_get\<close>, the clock, the allocations of
  \<open>cache_put\<close>, and those of the response buffer.\<close>

record http_env =
  he_get_malloc :: bool
  he_get_now :: time_t
  he_put_allocs :: put_allocs
  he_put_now :: time_t
  he_malloc :: bool
  he_realloc :: "nat \<Rightarrow> bool"

definition caches :: "request \<Rightarrow> proxy \<Rightarrow> bool" where
  "caches rq P \<longleftrightarrow> enable_caching (p_config P) \<noteq> 0 \<and> rq_method rq = ''GET''"

definition maybe_log :: "string \<Rightarrow> proxy \<Rightarrow> proxy" where
  "maybe_log msg P = (if enable_logging (p_config P) \<noteq> 0 then log_line 1 msg P else P)"

text \<open>The end of the handler: the response goes to the cache.  \<^const>\<open>None\<close> is an eviction
  loop that does not return.\<close>

definition store_response :: "http_env \<Rightarrow> request \<Rightarrow> response \<Rightarrow> proxy \<Rightarrow> proxy option" where
  "store_response env rq rs P =
     (case rs_data rs of
        Some data \<Rightarrow>
          if 0 < rs_size rs then
            (case cache_put (he_put_allocs env) (he_put_now env) (p_cache P) (Some (rq_url rq)) (Some data)
                (rs_size rs) (cache_ttl_seconds (p_config P)) of
               None \<Rightarrow> None
             | Some (_, g) \<Rightarrow> Some (maybe_log (''[CACHE STORE] '' @ rq_url rq @ '' ('' @ show_nat (unat (rs_size rs)) @ '' bytes)'')
                 (P\<lparr>p_cache := g\<rparr>)))
          else Some P
      | None \<Rightarrow> Some P)"

definition http_forward :: "http_env \<Rightarrow> request \<Rightarrow> u8 list \<Rightarrow> connection \<Rightarrow> proxy \<Rightarrow> handled" where
  "http_forward env rq req conn P =
     (case rq_host rq of None \<Rightarrow> None
      | Some h \<Rightarrow>
          (case on_net (connect_to_host h (rq_port rq)) P of (fd, P) \<Rightarrow>
             (let conn = conn\<lparr>remote_fd := fd\<rparr> in
              if fd < 0 then refuse conn bad_gateway P
              else
                (case on_net (send_all fd req) P of (r, P) \<Rightarrow>
                   if r < 0 then Some (-1, conn, P)
                   else
                     (case forward_loop (he_realloc env) 0 (conn\<lparr>bytes_sent := bytes_sent conn + of_nat (length req)\<rparr>)
                             (response_start (caches rq P \<and> he_malloc env)) P of
                        None \<Rightarrow> None
                      | Some (conn, rs, P) \<Rightarrow>
                          map_option (\<lambda>P. (0, conn, P)) (store_response env rq rs P))))))"

definition http_fetch :: "http_env \<Rightarrow> request \<Rightarrow> u8 list \<Rightarrow> connection \<Rightarrow> proxy \<Rightarrow> handled" where
  "http_fetch env rq req conn P =
     (if caches rq P then
        (case cache_get (he_get_malloc env) (he_get_now env) (p_cache P) (Some (rq_url rq)) of
           (Some (data, _), g) \<Rightarrow>
             Some (0, conn, snd (on_net (send_all (client_fd conn) data)
               (maybe_log (''[CACHE HIT] '' @ rq_url rq) (P\<lparr>p_cache := g\<rparr>))))
         | (None, g) \<Rightarrow> http_forward env rq req conn (P\<lparr>p_cache := g\<rparr>))
      else http_forward env rq req conn P)"

text \<open>The line about a request; \<open>host\<close> is read only when the line is written.\<close>

definition log_request :: "connection \<Rightarrow> request \<Rightarrow> proxy \<Rightarrow> proxy option" where
  "log_request conn rq P =
     (if enable_logging (p_config P) = 0 \<or> logger_log 1 [] (p_logger P) = Some None then Some P
      else map_option (\<lambda>h. log_line 1 (''['' @ client_ip conn @ ''] '' @ rq_method rq @ '' '' @ rq_url rq @ '' '' @ h) P)
        (rq_host rq))"

definition count_request :: "proxy \<Rightarrow> proxy" where
  "count_request P = P\<lparr>p_net := (p_net P)\<lparr>w_stats := stats_increment_requests (w_stats (p_net P))\<rparr>\<rparr>"

definition http_serve :: "http_env \<Rightarrow> request \<Rightarrow> u8 list \<Rightarrow> connection \<Rightarrow> proxy \<Rightarrow> handled" where
  "http_serve env rq req conn P =
     (if rq_method rq = ''CONNECT'' then http_connect rq conn P else http_fetch env rq req conn P)"

definition http_gates :: "http_env \<Rightarrow> request \<Rightarrow> u8 list \<Rightarrow> connection \<Rightarrow> proxy \<Rightarrow> handled" where
  "http_gates env rq req conn P =
     (case (if enable_auth (p_config P) \<noteq> 0 then http_auth (c_text req) P else Some True) of
        None \<Rightarrow> None
      | Some False \<Rightarrow> refuse conn auth_required P
      | Some True \<Rightarrow>
          (let conn = (if enable_auth (p_config P) \<noteq> 0 then conn\<lparr>authenticated := 1\<rparr> else conn)
           in case (if enable_filtering (p_config P) \<noteq> 0 then filter_check_url (p_filter P) (Some (rq_url rq)) else Some 0) of
             None \<Rightarrow> None
           | Some v \<Rightarrow> if v \<noteq> 0 then refuse conn forbidden P else http_serve env rq req conn P))"

definition http_handle_request :: "http_env \<Rightarrow> connection \<Rightarrow> proxy \<Rightarrow> handled" where
  "http_handle_request env conn P =
     (case on_net (recv_bytes (client_fd conn) (BUFFER_SIZE - 1)) P of
        (None, P) \<Rightarrow> Some (-1, conn, P)
      | (Some req, P) \<Rightarrow>
          (case http_parse_request (c_text req) of
             None \<Rightarrow> None
           | Some None \<Rightarrow> refuse conn bad_request P
           | Some (Some rq) \<Rightarrow>
               (case log_request conn rq P of None \<Rightarrow> None
                | Some P \<Rightarrow> http_gates env rq req conn (count_request P))))"

subsection \<open>What the response buffer holds\<close>

definition response_inv :: "response \<Rightarrow> bool" where
  "response_inv rs \<longleftrightarrow> (\<forall>b. rs_data rs = Some b \<longrightarrow>
     length b = unat (rs_size rs) \<and> unat (rs_size rs) \<le> unat (rs_capacity rs) \<and> BUFFER_SIZE \<le> unat (rs_capacity rs))"

lemma response_inv_start: "response_inv (response_start wanted)"
  by (simp add: response_inv_def response_start_def BUFFER_SIZE_def)

text \<open>One doubling is enough: a chunk is at most as large as the buffer ever was.\<close>

lemma response_store_spec:
  assumes "response_inv rs" "length d \<le> BUFFER_SIZE"
    and "\<And>b. rs_data rs = Some b \<Longrightarrow> length b + length d < 2 ^ 62"
  shows "\<exists>rs'. response_store ok d rs = Some rs' \<and> response_inv rs' \<and>
    (rs_data rs' = map_option (\<lambda>b. b @ d) (rs_data rs) \<or> rs_data rs' = None \<and> \<not> ok)"
proof (cases "rs_data rs")
  case None
  with assms(1) show ?thesis by (simp add: response_store_def)
next
  case (Some b)
  let ?n = "of_nat (length d) :: size_t"
  have inv: "length b = unat (rs_size rs)" "unat (rs_size rs) \<le> unat (rs_capacity rs)" "BUFFER_SIZE \<le> unat (rs_capacity rs)"
    using assms(1) Some by (simp_all add: response_inv_def)
  have bound: "unat (rs_size rs) + length d < 2 ^ 62" using assms(3) [OF Some] inv(1) by simp
  then have n: "unat ?n = length d" by (intro unat_of_nat_size) simp
  have sum: "unat (rs_size rs + ?n) = unat (rs_size rs) + length d"
    using bound n by (subst unat_plus_simple [THEN iffD1]) (simp_all add: no_olen_add_nat)
  show ?thesis
  proof (cases "rs_capacity rs < rs_size rs + ?n")
    case False
    then have "unat (rs_size rs) + length d \<le> unat (rs_capacity rs)"
      using sum by (simp add: word_less_nat_alt)
    with False Some inv sum show ?thesis by (simp add: response_store_def response_inv_def)
  next
    case True
    then have small: "unat (rs_capacity rs) < 2 ^ 62" using sum bound by (simp add: word_less_nat_alt)
    then have twice: "unat (rs_capacity rs * 2) = 2 * unat (rs_capacity rs)"
      by (subst unat_mult_lem [THEN iffD1]) simp_all
    have "unat (rs_size rs) + length d \<le> unat (rs_capacity rs * 2)"
      using twice inv assms(2) by simp
    with True Some inv sum twice show ?thesis by (simp add: response_store_def response_inv_def)
  qed
qed

subsection \<open>What forwarding delivers\<close>

text \<open>Everything but the traffic of the sockets and the count of bytes.\<close>

definition same_session :: "proxy \<Rightarrow> proxy \<Rightarrow> bool" where
  "same_session P P' \<longleftrightarrow> p_config P' = p_config P \<and> p_users P' = p_users P \<and> p_filter P' = p_filter P \<and>
     p_cache P' = p_cache P \<and> p_logger P' = p_logger P \<and> p_log P' = p_log P \<and>
     dialled (p_net P') = dialled (p_net P) \<and> open_fds (p_net P') = open_fds (p_net P) \<and>
     dial_script (p_net P') = dial_script (p_net P)"

lemma same_session_refl [simp]: "same_session P P"
  by (simp add: same_session_def)

lemma same_session_trans: "same_session P Q \<Longrightarrow> same_session Q R \<Longrightarrow> same_session P R"
  by (simp add: same_session_def)

lemma same_session_net:
  "on_net f P = (r, P') \<Longrightarrow> same_rest (p_net P) (p_net P') \<Longrightarrow> same_session P P'"
  using on_net_frame [of f P r P'] by (simp add: same_session_def same_rest_def)

lemma same_session_counted [simp]: "same_session P (count_transferred d Q) \<longleftrightarrow> same_session P Q"
  by (simp add: same_session_def count_transferred_def)

lemma p_net_counted [simp]:
  "accepted (p_net (count_transferred d P)) = accepted (p_net P)"
  "recv_script (p_net (count_transferred d P)) = recv_script (p_net P)"
  "send_script (p_net (count_transferred d P)) = send_script (p_net P)"
  by (simp_all add: count_transferred_def)

text \<open>From \<open>(conn, rs, P)\<close> the loop gave the client \<open>k\<close> bytes of what the remote end sends and
  collected \<open>k'\<close> of them.\<close>

definition forwarded :: "nat \<Rightarrow> nat \<Rightarrow> connection \<Rightarrow> response \<Rightarrow> proxy \<Rightarrow> connection \<Rightarrow> response \<Rightarrow> proxy \<Rightarrow> bool" where
  "forwarded k k' conn rs P conn' rs' P' \<longleftrightarrow>
     (let S = stream (remote_fd conn) (p_net P); c = client_fd conn in
      k' \<le> k \<and> k \<le> length S \<and> (k = length S \<longrightarrow> k' = k) \<and> response_inv rs' \<and> same_session P P' \<and>
      accepted (p_net P') = (accepted (p_net P))(c := accepted (p_net P) c @ take k S) \<and>
      conn' = conn\<lparr>bytes_received := bytes_received conn + of_nat k'\<rparr> \<and>
      (rs_data rs' = map_option (\<lambda>b. b @ take k' S) (rs_data rs) \<or> rs_data rs' = None))"

lemma forwarded_step:
  assumes "recv_bytes (remote_fd conn) n (p_net P) = (Some d, p_net P1)" "same_session P P1"
    and "accepted (p_net P2) = (accepted (p_net P1))(client_fd conn := accepted (p_net P1) (client_fd conn) @ d)"
    and "same_session P1 P2" "recv_script (p_net P2) = recv_script (p_net P1)"
    and "rs_data rs1 = map_option (\<lambda>b. b @ d) (rs_data rs) \<or> rs_data rs1 = None"
    and "forwarded k k' (count_received d conn) rs1 (count_transferred d P2) conn' rs' P'"
  shows "forwarded (length d + k) (length d + k') conn rs P conn' rs' P'"
proof -
  note r = recv_bytes_spec(3,5) [OF assms(1)]
  have S: "stream (remote_fd conn) (p_net P2) = stream (remote_fd conn) (p_net P1)"
    using assms(5) by (simp add: stream_def)
  have f: "let S = stream (remote_fd conn) (p_net P2); c = client_fd conn in
      k' \<le> k \<and> k \<le> length S \<and> (k = length S \<longrightarrow> k' = k) \<and> response_inv rs' \<and> same_session P2 P' \<and>
      accepted (p_net P') = (accepted (p_net P2))(c := accepted (p_net P2) c @ take k S) \<and>
      conn' = count_received d conn\<lparr>bytes_received := bytes_received (count_received d conn) + of_nat k'\<rparr> \<and>
      (rs_data rs' = map_option (\<lambda>b. b @ take k' S) (rs_data rs1) \<or> rs_data rs' = None)"
    using assms(7) by (simp add: forwarded_def stream_def Let_def same_session_def count_transferred_def)
  have "conn' = conn\<lparr>bytes_received := bytes_received conn + of_nat (length d + k')\<rparr>"
    using f by (simp add: count_received_def Let_def add.assoc)
  moreover have "accepted (p_net P') = (accepted (p_net P))(client_fd conn :=
      accepted (p_net P) (client_fd conn) @ take (length d + k) (stream (remote_fd conn) (p_net P)))"
    using f r assms(3) S by (simp add: Let_def)
  moreover have "same_session P P'"
    using same_session_trans [OF same_session_trans [OF assms(2,4)]] f by (simp add: Let_def)
  moreover have "rs_data rs' = map_option (\<lambda>b. b @ take (length d + k') (stream (remote_fd conn) (p_net P))) (rs_data rs)
      \<or> rs_data rs' = None"
    using f assms(6) r(1) S by (cases "rs_data rs") (auto simp: Let_def)
  ultimately show ?thesis
    using f r(1) S unfolding forwarded_def Let_def by simp
qed

lemma forward_loop_spec:
  "remote_fd conn \<noteq> client_fd conn \<Longrightarrow> response_inv rs \<Longrightarrow>
   (\<And>b. rs_data rs = Some b \<Longrightarrow> length b + length (stream (remote_fd conn) (p_net P)) < 2 ^ 62) \<Longrightarrow>
   \<exists>conn' rs' P' k k'. forward_loop m i conn rs P = Some (conn', rs', P') \<and> forwarded k k' conn rs P conn' rs' P' \<and>
     (willing (length (stream (remote_fd conn) (p_net P))) (send_script (p_net P) (client_fd conn)) \<longrightarrow>
        k = length (stream (remote_fd conn) (p_net P)) \<and>
        ((\<forall>j. m j) \<longrightarrow> rs_data rs \<noteq> None \<longrightarrow> rs_data rs' \<noteq> None))"
proof (induction m i conn rs P rule: forward_loop.induct)
  case (1 m i conn rs P)
  let ?r = "remote_fd conn" and ?c = "client_fd conn"
  let ?S = "stream ?r (p_net P)"
  obtain x P1 where x: "on_net (recv_bytes ?r BUFFER_SIZE) P = (x, P1)" by fastforce
  have rb: "recv_bytes ?r BUFFER_SIZE (p_net P) = (x, p_net P1)" using on_net_frame [OF x] by simp
  have sends: "send_script (p_net P1) = send_script (p_net P)" by (rule recv_bytes_sends [OF rb])
  show ?case
  proof (cases x)
    case None
    note eof = recv_bytes_end [OF rb [unfolded None]]
    have "same_session P P1" using same_session_net [OF x] recv_bytes_none [OF rb [unfolded None]] by simp
    then have "forwarded 0 0 conn rs P conn rs P1"
      using 1(3) eof recv_bytes_none [OF rb [unfolded None]]
      by (cases "rs_data rs") (simp_all add: forwarded_def Let_def BUFFER_SIZE_def fun_upd_idem)
    moreover have "forward_loop m i conn rs P = Some (conn, rs, P1)"
      using x None by (simp add: forward_loop.simps [of m i conn rs P])
    ultimately show ?thesis using eof by (auto simp: BUFFER_SIZE_def)
  next
    case (Some d)
    note rcv = recv_bytes_spec [OF rb [unfolded Some]]
    obtain r P2 where y: "on_net (send_all ?c d) P1 = (r, P2)" by fastforce
    have sb: "send_all ?c d (p_net P1) = (r, p_net P2)" using on_net_frame [OF y] by simp
    have same: "same_session P P1" "same_session P1 P2"
      using same_session_net [OF x] rcv(4) same_session_net [OF y] send_all_spec(2) [OF sb] by simp_all
    obtain j where j: "j \<le> length d" "accepted (p_net P2) = (accepted (p_net P1))(?c := accepted (p_net P1) ?c @ take j d)"
      "r = int (length d) \<and> j = length d \<or> r = -1 \<and> j < length d"
      using send_all_spec(1) [OF sb] by blast
    have scripts: "recv_script (p_net P2) = recv_script (p_net P1)" by (rule send_all_spec(3) [OF sb])
    show ?thesis
    proof (cases "r < 0")
      case True
      have "forward_loop m i conn rs P = Some (conn, rs, P2)"
        using x Some y True by (simp add: forward_loop.simps [of m i conn rs P])
      moreover have "forwarded j 0 conn rs P conn rs P2"
        using True 1(3) rcv(3,5) same_session_trans [OF same] j
        by (cases "rs_data rs") (auto simp: forwarded_def Let_def)
      moreover have "\<not> willing (length ?S) (send_script (p_net P) ?c)"
        using send_all_willing [of d "length (stream ?r (p_net P1))" "p_net P1" ?c] sb True rcv(3)
        by (auto simp: sends)
      ultimately show ?thesis by blast
    next
      case False
      then have full: "j = length d" using j(3) by auto
      have len: "length d \<le> BUFFER_SIZE" by (rule rcv(2))
      obtain rs1 where st: "response_store (m i) d rs = Some rs1" "response_inv rs1"
        "rs_data rs1 = map_option (\<lambda>b. b @ d) (rs_data rs) \<or> rs_data rs1 = None \<and> \<not> m i"
        using response_store_spec [OF 1(3) len, of "m i"] 1(4) rcv(3) by fastforce
      let ?conn = "count_received d conn" and ?P = "count_transferred d P2"
      have rest: "stream ?r (p_net ?P) = stream ?r (p_net P1)" using scripts by (simp add: stream_def)
      have size: "length b + length (stream ?r (p_net ?P)) < 2 ^ 62" if "rs_data rs1 = Some b" for b
        using that st(3) 1(4) rcv(3) rest by (cases "rs_data rs") auto
      note IH = 1(1) [OF x [symmetric] Some y [symmetric] False st(1), unfolded remote_counted, OF 1(2) st(2) size]
      obtain conn' rs' P' k k' where ih: "forward_loop m (Suc i) ?conn rs1 ?P = Some (conn', rs', P')"
        "forwarded k k' ?conn rs1 ?P conn' rs' P'"
        "willing (length (stream ?r (p_net P1))) (send_script (p_net P2) ?c) \<Longrightarrow>
          k = length (stream ?r (p_net P1)) \<and> ((\<forall>j. m j) \<longrightarrow> rs_data rs1 \<noteq> None \<longrightarrow> rs_data rs' \<noteq> None)"
        using IH [unfolded rest p_net_counted] by blast
      have "forward_loop m i conn rs P = Some (conn', rs', P')"
        using x Some y False st(1) ih(1) by (simp add: forward_loop.simps [of m i conn rs P])
      moreover have "forwarded (length d + k) (length d + k') conn rs P conn' rs' P'"
        using st(3) j(2) full
        by (intro forwarded_step [OF rb [unfolded Some] same(1) _ same(2) scripts _ ih(2)]) auto
      moreover have "willing (length ?S) (send_script (p_net P) ?c) \<Longrightarrow>
          willing (length (stream ?r (p_net P1))) (send_script (p_net P2) ?c)"
        using send_all_willing [of d "length (stream ?r (p_net P1))" "p_net P1" ?c] sb rcv(3)
        by (auto simp: sends)
      ultimately show ?thesis using ih(3) rcv(3) st(3) by fastforce
    qed
  qed
qed

end
