(* ===== verification/Http_Parse.thy ===== *)
theory Http_Parse
  imports Http
begin

text \<open>
  What \<open>http_parse_request\<close> (\<^verbatim>\<open>src/protocols/http.c\<close>) reads out of a request that a client
  wrote: the round trip between a request and its text.
\<close>

lemmas char_eval = to_lower_def code_def char_of_def is_space_def

subsection \<open>Scanning\<close>

definition word_text :: "string \<Rightarrow> bool" where
  "word_text w \<longleftrightarrow> w \<noteq> [] \<and> (\<forall>c\<in>set w. \<not> is_space c)"

lemma scan_word_text:
  assumes "word_text w" "is_space d"
  shows "scan_word (w @ d # r) = Some (w, d # r)"
proof -
  obtain c v where w: "w = c # v" using assms(1) by (cases w) (simp_all add: word_text_def)
  have "dropWhile is_space (w @ d # r) = w @ d # r" using assms(1) w by (simp add: word_text_def)
  moreover have "takeWhile (\<lambda>c. \<not> is_space c) (w @ d # r) = w" "dropWhile (\<lambda>c. \<not> is_space c) (w @ d # r) = d # r"
    using assms by (auto simp: word_text_def takeWhile_append dropWhile_append)
  ultimately show ?thesis using w by (simp add: scan_word_def)
qed

lemma scan_word_space: "is_space c \<Longrightarrow> scan_word (c # s) = scan_word s"
  by (simp add: scan_word_def)

lemma starts_with_stop: "d \<notin> set n \<Longrightarrow> starts_with n (p @ d # r) = starts_with n p"
proof (induction n p rule: starts_with.induct)
  case (2 a n)
  then show ?case by (cases n) auto
qed auto

text \<open>No occurrence crosses a character that the word does not have.\<close>

lemma strcasestr_skip:
  assumes "strcasestr p n = None" "to_lower d \<notin> to_lower ` set n" "n \<noteq> []"
  shows "strcasestr (p @ d # r) n = strcasestr r n"
  using assms(1)
proof (induction p)
  case Nil
  have "\<not> starts_with (map to_lower n) (to_lower d # map to_lower r)"
    using assms(2,3) starts_with_stop [of "to_lower d" "map to_lower n" "[]"] by (cases n) auto
  then show ?case by simp
next
  case (Cons c p)
  have "starts_with (map to_lower n) (map to_lower (c # p) @ to_lower d # map to_lower r)
      = starts_with (map to_lower n) (map to_lower (c # p))"
    using assms(2) by (intro starts_with_stop) auto
  with Cons show ?case by (auto split: if_splits)
qed

lemma strcasestr_here: "n \<noteq> [] \<Longrightarrow> strcasestr (n @ r) n = Some (n @ r)"
  by (cases n) simp_all

lemma strstr_CRLF:
  assumes "CR \<notin> set s"
  shows "strstr (s @ CRLF @ r) CRLF = Some (CRLF @ r)"
  using assms by (induction s) auto

subsection \<open>A request and its text\<close>

definition host_field :: "string \<Rightarrow> string option \<Rightarrow> string" where
  "host_field h t = h @ (case t of None \<Rightarrow> [] | Some t \<Rightarrow> CHR '':'' # t)"

definition request_text :: "string \<Rightarrow> string \<Rightarrow> string \<Rightarrow> string \<Rightarrow> string option \<Rightarrow> string \<Rightarrow> string" where
  "request_text m u v h t rest =
     (m @ '' '' @ u @ '' '' @ v) @ CRLF @ ''Host: '' @ host_field h t @ CRLF @ rest"

lemma split_host_field:
  assumes "CHR '':'' \<notin> set h" "length (host_field h t) < MAX_HOSTNAME"
  shows "split_host_port (host_field h t) = (h, case t of None \<Rightarrow> 80 | Some t \<Rightarrow> atoi t)"
proof -
  have short: "take (MAX_HOSTNAME - 1) (host_field h t) = host_field h t" using assms(2) by simp
  have "strchr_split (CHR '':'') (host_field h t) = map_option (\<lambda>t. (h, t)) t"
    using assms(1) by (cases t) (simp_all add: host_field_def strchr_split_append strchr_split_None)
  then show ?thesis unfolding split_host_port_def short by (cases t) (simp_all add: host_field_def)
qed

lemma find_host_field:
  assumes "strcasestr p ''Host:'' = None" "CR \<notin> set (host_field h t)"
    and "host_field h t \<noteq> []" "hd (host_field h t) \<noteq> CHR '' ''"
  shows "find_host (p @ CRLF @ ''Host: '' @ host_field h t @ CRLF @ rest) u = Some (split_host_port (host_field h t))"
proof -
  let ?f = "host_field h t"
  have stop: "to_lower CR \<notin> to_lower ` set ''Host:''" "to_lower LF \<notin> to_lower ` set ''Host:''"
    by (simp_all add: char_eval)
  have "strcasestr (p @ CR # LF # ''Host: '' @ ?f @ CRLF @ rest) ''Host:'' = strcasestr (LF # ''Host: '' @ ?f @ CRLF @ rest) ''Host:''"
    by (rule strcasestr_skip [OF assms(1) stop(1)]) simp
  also have "\<dots> = strcasestr ([] @ LF # ''Host: '' @ ?f @ CRLF @ rest) ''Host:''" by simp
  also have "\<dots> = strcasestr (''Host: '' @ ?f @ CRLF @ rest) ''Host:''"
    by (rule strcasestr_skip [OF _ stop(2)]) simp_all
  also have "\<dots> = strcasestr (''Host:'' @ (CHR '' '' # ?f @ CRLF @ rest)) ''Host:''" by simp
  also have "\<dots> = Some (''Host:'' @ (CHR '' '' # ?f @ CRLF @ rest))"
    by (rule strcasestr_here) simp
  finally have s: "strcasestr (p @ CRLF @ ''Host: '' @ ?f @ CRLF @ rest) ''Host:'' = Some (''Host:'' @ (CHR '' '' # ?f @ CRLF @ rest))"
    by simp
  have d: "dropWhile (\<lambda>c. c = CHR '' '') (drop 5 (''Host:'' @ (CHR '' '' # ?f @ CRLF @ rest))) = ?f @ CRLF @ rest"
    using assms(3,4) by (cases ?f) simp_all
  show ?thesis
    unfolding find_host_def s option.case Let_def d strstr_CRLF [OF assms(2)] option.map by simp
qed

definition writable :: "string \<Rightarrow> string \<Rightarrow> string \<Rightarrow> string \<Rightarrow> string option \<Rightarrow> bool" where
  "writable m u v h t \<longleftrightarrow> word_text m \<and> word_text u \<and> word_text v \<and>
     length m < METHOD_SIZE \<and> length u < MAX_PATH \<and> length v < VERSION_SIZE \<and>
     strcasestr (m @ '' '' @ u @ '' '' @ v) ''Host:'' = None \<and>
     CR \<notin> set (host_field h t) \<and> host_field h t \<noteq> [] \<and> hd (host_field h t) \<noteq> CHR '' '' \<and>
     CHR '':'' \<notin> set h \<and> length (host_field h t) < MAX_HOSTNAME"

lemma parse_request_text:
  assumes "writable m u v h t"
  shows "http_parse_request (request_text m u v h t rest) =
    Some (Some \<lparr>rq_method = m, rq_url = u, rq_version = v, rq_host = Some h,
                rq_port = (case t of None \<Rightarrow> 80 | Some t \<Rightarrow> atoi t)\<rparr>)"
proof -
  note w = assms [unfolded writable_def]
  let ?tail = "''Host: '' @ host_field h t @ CRLF @ rest"
  let ?full = "request_text m u v h t rest"
  have sp: "is_space (CHR '' '')" "is_space CR" by (simp_all add: is_space_def code_def)
  have layout: "?full = m @ CHR '' '' # u @ CHR '' '' # v @ CR # LF # ?tail" by (simp add: request_text_def)
  have crlf: "strstr ?full CRLF \<noteq> None"
  proof -
    have "?full = (m @ '' '' @ u @ '' '' @ v) @ CRLF @ ?tail" by (simp add: request_text_def)
    then show ?thesis unfolding strstr_None by blast
  qed
  have f: "find_host ?full u = Some (h, case t of None \<Rightarrow> 80 | Some t \<Rightarrow> atoi t)"
  proof -
    have "find_host ?full u = Some (split_host_port (host_field h t))"
      unfolding request_text_def by (rule find_host_field) (use w in simp_all)
    also have "split_host_port (host_field h t) = (h, case t of None \<Rightarrow> 80 | Some t \<Rightarrow> atoi t)"
      using w by (intro split_host_field) simp_all
    finally show ?thesis .
  qed
  let ?r3 = "CR # LF # ?tail" let ?r2 = "CHR '' '' # v @ ?r3" let ?r1 = "CHR '' '' # u @ ?r2"
  have s1: "scan_into METHOD_SIZE ?full = Some (Some (m, ?r1))"
    unfolding layout scan_into_def using w scan_word_text [OF _ sp(1), of m] by (simp del: append_Cons append_assoc)
  have s2: "scan_into MAX_PATH ?r1 = Some (Some (u, ?r2))"
    unfolding scan_into_def scan_word_space [OF sp(1)] using w scan_word_text [OF _ sp(1), of u]
    by (simp del: append_Cons append_assoc)
  have s3: "scan_into VERSION_SIZE ?r2 = Some (Some (v, ?r3))"
    unfolding scan_into_def scan_word_space [OF sp(1)] using w scan_word_text [OF _ sp(2), of v]
    by (simp del: append_Cons append_assoc)
  show ?thesis
    by (simp only: http_parse_request_def crlf if_False s1 s2 s3 option.case prod.case option.map f fst_conv)
qed

subsection \<open>Properties\<close>

text \<open>C24: the parser reads what was written.  A request line of three words that fit their
  arrays and hold no \<open>Host:\<close>, followed by a Host header, is parsed as exactly these words,
  the host up to the colon and the number after it, or port 80 when there is no colon; what
  follows the header plays no part.\<close>

theorem http_parse_roundtrip:
  assumes "writable m u v h t"
  shows "http_parse_request (request_text m u v h t rest) =
    Some (Some \<lparr>rq_method = m, rq_url = u, rq_version = v, rq_host = Some h,
                rq_port = (case t of None \<Rightarrow> 80 | Some t \<Rightarrow> atoi t)\<rparr>)"
  using assms by (rule parse_request_text)

lemma writable_demo: "writable ''GET'' ''/a'' ''HTTP/1.1'' ''ab'' (Some ''81'')"
  by (simp add: writable_def word_text_def host_field_def METHOD_SIZE_def MAX_PATH_def VERSION_SIZE_def
      MAX_HOSTNAME_def char_eval)

theorem http_parse_roundtrip_witness:
  "http_parse_request (request_text ''GET'' ''/a'' ''HTTP/1.1'' ''ab'' (Some ''81'') CRLF) =
    Some (Some \<lparr>rq_method = ''GET'', rq_url = ''/a'', rq_version = ''HTTP/1.1'', rq_host = Some ''ab'', rq_port = 81\<rparr>)"
proof -
  have "atoi ''81'' = 81" by code_simp
  then show ?thesis using http_parse_roundtrip [OF writable_demo, of CRLF] by simp
qed

text \<open>The URL filter does not look at the host.  The same page can be asked for by its path
  alone, with the host in the header; whatever the host, a forbidden word included, such a
  request passes the filter of \<open>filter_init\<close> and names that host as the one to connect to.\<close>

theorem http_filter_ignores_host:
  assumes "\<forall>k. m k \<noteq> None" "filter_init m cfg filter_none = (r, st)"
    and "CR \<notin> set h" "CHR '':'' \<notin> set h" "h \<noteq> []" "hd h \<noteq> CHR '' ''" "length h < MAX_HOSTNAME"
  shows "\<exists>rq. http_parse_request (request_text ''GET'' ''/'' ''HTTP/1.1'' h None CRLF) = Some (Some rq) \<and>
    rq_host rq = Some h \<and> filter_check_url st (Some (rq_url rq)) = Some 0"
proof -
  have "writable ''GET'' ''/'' ''HTTP/1.1'' h None"
    using assms(3-7) by (simp add: writable_def word_text_def host_field_def METHOD_SIZE_def MAX_PATH_def
        VERSION_SIZE_def char_eval)
  moreover have "filter_check_url st (Some ''/'') = Some 0"
    unfolding filter_check_words [OF assms(1,2)] by (auto simp: Cons_eq_append_conv)
  ultimately show ?thesis by (simp add: parse_request_text)
qed

theorem http_filter_ignores_host_witness:
  "\<exists>rq. http_parse_request (request_text ''GET'' ''/'' ''HTTP/1.1'' ''malware.com'' None CRLF) = Some (Some rq) \<and>
    rq_host rq = Some ''malware.com'' \<and>
    filter_check_url (snd (filter_init (\<lambda>_. Some (replicate 256 NUL)) config_set_defaults filter_none)) (Some (rq_url rq)) = Some 0"
  by (rule http_filter_ignores_host [OF _ surjective_pairing]) (simp_all add: MAX_HOSTNAME_def)

end
