(* ===== verification/Http_Fetch.thy ===== *)
theory Http_Fetch
  imports Http_Parse
begin

text \<open>
  What the HTTP handler of theory \<open>Http\<close> does for a request that passes its gates: the
  fetch of a page through the cache, a hit, what is forwarded and what is stored when one of
  the two ends goes away.
\<close>

subsection \<open>The gates\<close>

definition passes :: "request \<Rightarrow> u8 list \<Rightarrow> proxy \<Rightarrow> bool" where
  "passes rq req P \<longleftrightarrow>
     (enable_auth (p_config P) \<noteq> 0 \<longrightarrow> http_auth (c_text req) P = Some True) \<and>
     (enable_filtering (p_config P) \<noteq> 0 \<longrightarrow> filter_check_url (p_filter P) (Some (rq_url rq)) = Some 0)"

lemma answer_frame: "same_session P (answer conn msg P)"
proof -
  obtain r P' where a: "on_net (send_all (client_fd conn) (bytes_of msg)) P = (r, P')" by fastforce
  have "send_all (client_fd conn) (bytes_of msg) (p_net P) = (r, p_net P')" using on_net_frame [OF a] by simp
  from send_all_spec(2) [OF this] same_session_net [OF a] a show ?thesis by (simp add: answer_def)
qed

lemma refuse_frame: "refuse conn msg P = Some (r, conn', P') \<Longrightarrow> r = -1 \<and> conn' = conn \<and> same_session P P'"
  using answer_frame [of P conn msg] by (auto simp: refuse_def)

lemma recv_frame: "on_net (recv_bytes fd n) P = (x, P') \<Longrightarrow> same_session P P'"
  using same_session_net [of "recv_bytes fd n" P x P'] on_net_frame [of "recv_bytes fd n" P x P']
    recv_bytes_spec(4) [of fd n "p_net P" _ "p_net P'"] recv_bytes_none(1) [of fd n "p_net P" "p_net P'"]
  by (cases x) simp_all

lemma count_request_frame [simp]:
  "p_config (count_request P) = p_config P" "p_users (count_request P) = p_users P"
  "p_filter (count_request P) = p_filter P" "p_cache (count_request P) = p_cache P"
  "p_logger (count_request P) = p_logger P"
  "recv_script (p_net (count_request P)) = recv_script (p_net P)"
  "send_script (p_net (count_request P)) = send_script (p_net P)"
  "dial_script (p_net (count_request P)) = dial_script (p_net P)"
  "accepted (p_net (count_request P)) = accepted (p_net P)"
  "dialled (p_net (count_request P)) = dialled (p_net P)"
  "open_fds (p_net (count_request P)) = open_fds (p_net P)"
  by (simp_all add: count_request_def)

text \<open>Everything that the gates read, and what only a served request changes.\<close>

definition unserved :: "proxy \<Rightarrow> proxy \<Rightarrow> bool" where
  "unserved P P' \<longleftrightarrow> p_config P' = p_config P \<and> p_users P' = p_users P \<and> p_filter P' = p_filter P \<and>
     p_cache P' = p_cache P \<and> p_logger P' = p_logger P \<and>
     dialled (p_net P') = dialled (p_net P) \<and> open_fds (p_net P') = open_fds (p_net P) \<and>
     dial_script (p_net P') = dial_script (p_net P)"

lemma unservedI: "same_session P P' \<Longrightarrow> unserved P P'"
  by (simp add: unserved_def same_session_def)

lemma unserved_trans: "unserved P Q \<Longrightarrow> unserved Q R \<Longrightarrow> unserved P R"
  by (simp add: unserved_def)

lemma log_request_frame: "log_request conn rq P = Some Q \<Longrightarrow> unserved P Q \<and> p_net Q = p_net P"
  by (auto simp: log_request_def unserved_def split: if_splits)

text \<open>A run that served something, or touched the cache or a remote host, has passed.\<close>

lemma http_serves_passed:
  assumes "http_handle_request env conn P = Some (r, conn', P')"
    and "\<not> (r = -1 \<and> unserved P P' \<and> remote_fd conn' = remote_fd conn \<and> client_fd conn' = client_fd conn)"
  obtains req rq Q w where "recv_bytes (client_fd conn) (BUFFER_SIZE - 1) (p_net P) = (Some req, w)"
    and "http_parse_request (c_text req) = Some (Some rq)" "passes rq req P" "unserved P Q"
    and "http_serve env rq req (if enable_auth (p_config P) \<noteq> 0 then conn\<lparr>authenticated := 1\<rparr> else conn) Q =
      Some (r, conn', P')"
proof -
  obtain x P1 where x: "on_net (recv_bytes (client_fd conn) (BUFFER_SIZE - 1)) P = (x, P1)" by fastforce
  have 1: "unserved P P1" by (rule unservedI [OF recv_frame [OF x]])
  with assms x obtain req where req: "x = Some req" by (cases x) (auto simp: http_handle_request_def)
  obtain rq where rq: "http_parse_request (c_text req) = Some (Some rq)"
    using assms x req 1 refuse_frame unservedI unserved_trans
    by (fastforce simp: http_handle_request_def split: option.splits)
  with assms(1) x req obtain P2 where P2: "log_request conn rq P1 = Some P2"
    "http_gates env rq req conn (count_request P2) = Some (r, conn', P')"
    by (auto simp: http_handle_request_def split: option.splits)
  let ?Q = "count_request P2"
  have Q: "unserved P ?Q"
    using unserved_trans [OF 1] log_request_frame [OF P2(1)] by (simp add: unserved_def)
  have refused: "refuse c t ?Q = Some (r, conn', P') \<Longrightarrow> remote_fd c = remote_fd conn \<Longrightarrow> client_fd c = client_fd conn \<Longrightarrow> False" for c t
    using assms(2) refuse_frame [of c t ?Q r conn' P'] unserved_trans [OF Q unservedI] by blast
  have never: "refuse conn t ?Q \<noteq> Some (r, conn', P')" "refuse (conn\<lparr>authenticated := 1\<rparr>) t ?Q \<noteq> Some (r, conn', P')" for t
    using refused by force+
  have users: "p_users ?Q = p_users P" using Q by (simp add: unserved_def)
  have auth: "http_auth (c_text req) ?Q = http_auth (c_text req) P"
    unfolding http_auth_def users by (rule refl)
  have "passes rq req P \<and> http_serve env rq req (if enable_auth (p_config P) \<noteq> 0 then conn\<lparr>authenticated := 1\<rparr> else conn) ?Q
      = Some (r, conn', P')"
    using P2(2) never Q auth unfolding http_gates_def passes_def unserved_def
    by (auto simp del: count_request_frame simp: Let_def split: if_splits option.splits bool.splits)
  with that rq Q x req on_net_frame [OF x] show thesis by blast
qed

subsection \<open>Storing, then serving\<close>

lemma size_half:
  assumes "length v \<le> unat (mx :: size_t) div 2"
  shows "of_nat (length v) \<le> mx div 2" "length v < 2 ^ 64"
proof -
  have "unat mx < 2 ^ 64" using unsigned_less [of mx] by simp
  with assms show l: "length v < 2 ^ 64" by simp
  show "of_nat (length v) \<le> mx div 2"
    using assms unat_of_nat_size [OF l] by (simp add: word_le_nat_alt unat_div)
qed

text \<open>With allocations that succeed, a value that is not too large is stored and served until
  it expires.\<close>

definition allocates :: "put_allocs \<Rightarrow> cache_t \<Rightarrow> bool" where
  "allocates al c \<longleftrightarrow> fresh_in al c \<and> al_update al \<and> al_entry al \<noteq> None \<and> al_key al \<and> al_data al"

lemma put_serves:
  assumes "cache_wf c" "allocates al c" "v \<noteq> []" "length v \<le> unat (max_size c) div 2"
  shows "\<exists>c'. cache_put al now (Some c) (Some k) (Some v) (of_nat (length v)) ttl = Some (0, Some c') \<and>
    cache_wf c' \<and> kv_stored c' k = Some v \<and>
    (\<forall>t. ttl \<le> 0 \<or> t \<le> now + ttl \<longrightarrow> fst (kv_get (True, t) c' k) = Some v)"
proof -
  note sz = size_half [OF assms(4)]
  note nz = size_of_data [OF assms(3) sz(2)]
  obtain r c' where put: "put_step al now c k v (of_nat (length v)) ttl = Some (r, c')"
    using put_step_returns [OF assms(1)] by blast
  have fresh: "fresh_in al c" using assms(2) by (simp add: allocates_def)
  have wf: "cache_wf c'" using wf_put [OF assms(1) fresh _ _ put] nz by simp
  have "r = 0 \<and> (\<exists>a e. heap c' a = Some e \<and> ce_key e = k \<and> ce_data e = v \<and> ce_size e = of_nat (length v) \<and>
      ce_expiry e = new_expiry now ttl)"
    using assms(2) sz nz
    by (cases rule: put_step_cases [OF assms(1) fresh put]) (auto simp: allocates_def entry_def)
  then obtain a e where e: "r = 0" "heap c' a = Some e" "ce_key e = k" "ce_data e = v" "ce_size e = of_nat (length v)"
    "ce_expiry e = new_expiry now ttl" by blast
  have find: "bucket_find c' k = Some a"
    using bucket_find_live [OF wf, of a k] e by (auto simp: entry_def)
  have "fst (kv_get (True, t) c' k) = Some v" if "ttl \<le> 0 \<or> t \<le> now + ttl" for t
    using find e nz that by (auto simp: kv_get_step get_step_cases expired_def entry_def new_expiry_def)
  moreover have "cache_put al now (Some c) (Some k) (Some v) (of_nat (length v)) ttl = Some (0, Some c')"
    using put e(1) nz by (simp add: cache_put_def)
  moreover have "kv_stored c' k = Some v" using e wf by (auto simp: kv_stored_Some)
  ultimately show ?thesis using wf by blast
qed

lemma allocates_mono:
  "allocates al c \<Longrightarrow> heap c' \<subseteq>\<^sub>m heap c \<Longrightarrow> allocates al c'"
  unfolding allocates_def fresh_in_def map_le_def dom_def by (metis (mono_tags, lifting) mem_Collect_eq)

subsection \<open>A request that passes\<close>

lemma handle_passes:
  assumes "recv_script (p_net P) (client_fd conn) = Data req # rest" "req \<noteq> []" "length req < BUFFER_SIZE"
    and "http_parse_request (c_text req) = Some (Some rq)" "rq_host rq = Some h" "passes rq req P"
  obtains Q where "http_handle_request env conn P =
      http_serve env rq req (if enable_auth (p_config P) \<noteq> 0 then conn\<lparr>authenticated := 1\<rparr> else conn) Q"
    and "unserved P Q" "recv_script (p_net Q) = (recv_script (p_net P))(client_fd conn := rest)"
    and "send_script (p_net Q) = send_script (p_net P)" "dial_script (p_net Q) = dial_script (p_net P)"
    and "accepted (p_net Q) = accepted (p_net P)"
proof -
  define w1 where "w1 = (p_net P)\<lparr>recv_script := (recv_script (p_net P))(client_fd conn := rest)\<rparr>"
  let ?P1 = "P\<lparr>p_net := w1\<rparr>"
  have r: "recv_bytes (client_fd conn) (BUFFER_SIZE - 1) (p_net P) = (Some req, w1)"
    unfolding w1_def by (rule recv_whole [OF assms(1,2)]) (use assms(3) in simp)
  have "log_request conn rq ?P1 \<noteq> None" using assms(5) by (simp add: log_request_def)
  then obtain P2 where P2: "log_request conn rq ?P1 = Some P2" by blast
  let ?Q = "count_request P2"
  note f = log_request_frame [OF P2]
  have Q: "unserved P ?Q" "p_net P2 = w1" using f by (simp_all add: unserved_def w1_def)
  have users: "p_users ?Q = p_users P" and conf: "p_config ?Q = p_config P" and filt: "p_filter ?Q = p_filter P"
    using Q(1) by (simp_all add: unserved_def)
  have auth: "http_auth (c_text req) ?Q = http_auth (c_text req) P"
    unfolding http_auth_def users by (rule refl)
  have gate: "http_gates env rq req conn ?Q =
      http_serve env rq req (if enable_auth (p_config P) \<noteq> 0 then conn\<lparr>authenticated := 1\<rparr> else conn) ?Q"
    using assms(6) unfolding http_gates_def auth conf filt passes_def by (simp del: count_request_frame add: Let_def)
  have "http_handle_request env conn P = http_gates env rq req conn ?Q"
    using r assms(4) P2 by (simp add: http_handle_request_def on_net_def)
  with gate Q that show thesis by (simp add: w1_def)
qed

subsection \<open>Forwarding\<close>

text \<open>The state before the response is stored: the remote end got the request, the client
  \<open>k\<close> bytes of the answer, and \<open>k'\<close> of them were collected.\<close>

definition relayed :: "request \<Rightarrow> u8 list \<Rightarrow> string \<Rightarrow> c_int \<Rightarrow> nat \<Rightarrow> nat \<Rightarrow> connection \<Rightarrow> proxy \<Rightarrow> response \<Rightarrow> proxy \<Rightarrow> bool" where
  "relayed rq req h fd k k' conn P rs P2 \<longleftrightarrow>
     (let S = stream fd (p_net P); c = client_fd conn in
      k' \<le> k \<and> k \<le> length S \<and> (k = length S \<longrightarrow> k' = k) \<and> response_inv rs \<and>
      (rs_data rs = None \<or> rs_data rs = Some (take k' S)) \<and> (rs_data rs \<noteq> None \<longrightarrow> caches rq P) \<and>
      p_config P2 = p_config P \<and> p_cache P2 = p_cache P \<and> p_users P2 = p_users P \<and> p_filter P2 = p_filter P \<and>
      dialled (p_net P2) = dialled (p_net P) @ [(h, nat (rq_port rq mod 65536))] \<and>
      open_fds (p_net P2) = fd # open_fds (p_net P) \<and>
      accepted (p_net P2) = (accepted (p_net P))(fd := accepted (p_net P) fd @ req, c := accepted (p_net P) c @ take k S))"

lemma forward_begins:
  assumes "rq_host rq = Some h" "dial_script (p_net P) = Socket fd True True # ds" "0 \<le> fd" "fd \<noteq> client_fd conn"
    and "willing (length req) (send_script (p_net P) fd)"
  obtains conn2 P2 where "http_forward env rq req conn P =
      (case forward_loop (he_realloc env) 0 conn2 (response_start (caches rq P \<and> he_malloc env)) P2 of
         None \<Rightarrow> None | Some (c, rs, P) \<Rightarrow> map_option (\<lambda>P. (0, c, P)) (store_response env rq rs P))"
    and "remote_fd conn2 = fd" "client_fd conn2 = client_fd conn"
    and "p_config P2 = p_config P" "p_cache P2 = p_cache P" "p_users P2 = p_users P" "p_filter P2 = p_filter P"
    and "dialled (p_net P2) = dialled (p_net P) @ [(h, nat (rq_port rq mod 65536))]"
    and "open_fds (p_net P2) = fd # open_fds (p_net P)"
    and "accepted (p_net P2) = (accepted (p_net P))(fd := accepted (p_net P) fd @ req)"
    and "recv_script (p_net P2) = recv_script (p_net P)"
    and "send_script (p_net P2) (client_fd conn) = send_script (p_net P) (client_fd conn)"
proof -
  define w1 where "w1 = (p_net P)\<lparr>dial_script := ds, open_fds := fd # open_fds (p_net P),
    dialled := dialled (p_net P) @ [(h, nat (rq_port rq mod 65536))]\<rparr>"
  have c: "connect_to_host h (rq_port rq) (p_net P) = (fd, w1)"
    unfolding w1_def by (simp add: connect_to_host_def assms(2))
  have "willing (length req + 0) (send_script w1 fd)" using assms(5) by (simp add: w1_def)
  from send_all_willing [OF this] obtain w2 where s: "send_all fd req w1 = (int (length req), w2)"
    "\<forall>fd'. fd' \<noteq> fd \<longrightarrow> send_script w2 fd' = send_script w1 fd'" by blast
  from send_all_spec(1) [OF s(1)] have acc: "accepted w2 = (accepted w1)(fd := accepted w1 fd @ req)" by auto
  note rest = send_all_spec(2,3) [OF s(1)]
  let ?P2 = "P\<lparr>p_net := w2\<rparr>" and ?conn = "conn\<lparr>remote_fd := fd, bytes_sent := bytes_sent conn + of_nat (length req)\<rparr>"
  have "caches rq ?P2 = caches rq P" by (simp add: caches_def)
  then have fwd: "http_forward env rq req conn P =
      (case forward_loop (he_realloc env) 0 ?conn (response_start (caches rq P \<and> he_malloc env)) ?P2 of
         None \<Rightarrow> None | Some (c, rs, P) \<Rightarrow> map_option (\<lambda>P. (0, c, P)) (store_response env rq rs P))"
    using c s(1) assms(1,3) by (simp add: http_forward_def on_net_def Let_def)
  show thesis
    by (rule that [OF fwd]) (use acc rest s(2) assms(4) in \<open>simp_all add: w1_def same_rest_def\<close>)
qed

lemma forward_relays:
  assumes "rq_host rq = Some h" "dial_script (p_net P) = Socket fd True True # ds" "0 \<le> fd" "fd \<noteq> client_fd conn"
    and "willing (length req) (send_script (p_net P) fd)" "length (stream fd (p_net P)) < 2 ^ 62"
  shows "\<exists>conn' rs P2 k k'. http_forward env rq req conn P = map_option (\<lambda>P. (0, conn', P)) (store_response env rq rs P2) \<and>
    relayed rq req h fd k k' conn P rs P2 \<and>
    (willing (length (stream fd (p_net P))) (send_script (p_net P) (client_fd conn)) \<longrightarrow>
       k = length (stream fd (p_net P)) \<and>
       (caches rq P \<and> he_malloc env \<and> (\<forall>j. he_realloc env j) \<longrightarrow> rs_data rs \<noteq> None))"
proof -
  let ?S = "stream fd (p_net P)" and ?rs = "response_start (caches rq P \<and> he_malloc env)"
  obtain conn2 P2 where b: "http_forward env rq req conn P =
      (case forward_loop (he_realloc env) 0 conn2 ?rs P2 of
         None \<Rightarrow> None | Some (c, rs, P) \<Rightarrow> map_option (\<lambda>P. (0, c, P)) (store_response env rq rs P))"
    "remote_fd conn2 = fd" "client_fd conn2 = client_fd conn"
    "p_config P2 = p_config P" "p_cache P2 = p_cache P" "p_users P2 = p_users P" "p_filter P2 = p_filter P"
    "dialled (p_net P2) = dialled (p_net P) @ [(h, nat (rq_port rq mod 65536))]"
    "open_fds (p_net P2) = fd # open_fds (p_net P)"
    "accepted (p_net P2) = (accepted (p_net P))(fd := accepted (p_net P) fd @ req)"
    "recv_script (p_net P2) = recv_script (p_net P)"
    "send_script (p_net P2) (client_fd conn) = send_script (p_net P) (client_fd conn)"
    by (rule forward_begins [OF assms(1-5), of env])
  have S: "stream fd (p_net P2) = ?S" using b(11) by (simp add: stream_def)
  have ne: "remote_fd conn2 \<noteq> client_fd conn2" using assms(4) b(2,3) by simp
  have small: "length x + length (stream (remote_fd conn2) (p_net P2)) < 2 ^ 62" if "rs_data ?rs = Some x" for x
    using that assms(6) S b(2) by (simp add: response_start_def split: if_splits)
  note fwd = forward_loop_spec [of conn2 ?rs P2 "he_realloc env" 0, OF ne response_inv_start small, unfolded b(2,3,12) S]
  obtain conn' rs' P3 k k' where
    f: "forward_loop (he_realloc env) 0 conn2 ?rs P2 = Some (conn', rs', P3)" "forwarded k k' conn2 ?rs P2 conn' rs' P3"
    "willing (length ?S) (send_script (p_net P) (client_fd conn)) \<Longrightarrow> k = length ?S \<and>
      ((\<forall>j. he_realloc env j) \<longrightarrow> rs_data ?rs \<noteq> None \<longrightarrow> rs_data rs' \<noteq> None)"
    using fwd by blast
  have g: "k' \<le> k" "k \<le> length ?S" "k = length ?S \<longrightarrow> k' = k" "response_inv rs'" "same_session P2 P3"
    "accepted (p_net P3) = (accepted (p_net P2))(client_fd conn := accepted (p_net P2) (client_fd conn) @ take k ?S)"
    "rs_data rs' = map_option (\<lambda>b. b @ take k' ?S) (rs_data ?rs) \<or> rs_data rs' = None"
    using f(2) unfolding forwarded_def Let_def b(2,3) S by simp_all
  have "http_forward env rq req conn P = map_option (\<lambda>P. (0, conn', P)) (store_response env rq rs' P3)"
    using b(1) f(1) by simp
  moreover have "relayed rq req h fd k k' conn P rs' P3"
    using g(1-6) g(7) b(4-10) assms(4) unfolding relayed_def Let_def same_session_def
    by (auto simp: response_start_def split: if_splits)
  ultimately show ?thesis using f(3)
    by (intro exI [of _ conn'] exI [of _ rs'] exI [of _ P3] exI [of _ k] exI [of _ k']) (auto simp: response_start_def)
qed

lemma store_serves:
  assumes "response_inv rs" "rs_data rs = Some v" "v \<noteq> []" "p_cache P = Some c" "cache_wf c"
    and "allocates (he_put_allocs env) c" "length v \<le> unat (max_size c) div 2"
  shows "\<exists>P' c'. store_response env rq rs P = Some P' \<and> p_net P' = p_net P \<and> p_cache P' = Some c' \<and> cache_wf c' \<and>
    kv_stored c' (rq_url rq) = Some v \<and>
    (\<forall>t. cache_ttl_seconds (p_config P) \<le> 0 \<or> t \<le> he_put_now env + cache_ttl_seconds (p_config P) \<longrightarrow>
       fst (kv_get (True, t) c' (rq_url rq)) = Some v)"
proof -
  have size: "rs_size rs = of_nat (length v)" using assms(1,2) by (simp add: response_inv_def)
  have "0 < rs_size rs"
    using size_of_data(1) [OF assms(3) size_half(2) [OF assms(7)]] size by (simp add: word_gt_0)
  with put_serves [OF assms(5,6,3,7), of "he_put_now env" "rq_url rq" "cache_ttl_seconds (p_config P)"] assms(2,4) size
  show ?thesis by (auto simp: store_response_def maybe_log_def)
qed

lemma on_net_eq: "f (p_net P) = (r, w) \<Longrightarrow> on_net f P = (r, P\<lparr>p_net := w\<rparr>)"
  by (simp add: on_net_def)

lemma fetch_hit:
  assumes "caches rq Q" "cache_get (he_get_malloc env) (he_get_now env) (p_cache Q) (Some (rq_url rq)) = (Some (page, n), g)"
  shows "http_fetch env rq req conn Q = Some (0, conn, snd (on_net (send_all (client_fd conn) page)
    (maybe_log (''[CACHE HIT] '' @ rq_url rq) (Q\<lparr>p_cache := g\<rparr>))))"
  using assms by (simp add: http_fetch_def)

text \<open>A GET that misses goes to the remote host, with the cache as the lookup left it.\<close>

lemma miss_forwards:
  assumes "recv_script (p_net P) (client_fd conn) = Data req # rest" "req \<noteq> []" "length req < BUFFER_SIZE"
    and "http_parse_request (c_text req) = Some (Some rq)" "rq_host rq = Some h" "rq_method rq = ''GET''"
    and "passes rq req P" "enable_caching (p_config P) \<noteq> 0"
    and "p_cache P = Some c" "cache_wf c" "fst (kv_get (he_get_malloc env, he_get_now env) c (rq_url rq)) = None"
  obtains conn1 Q c1 where "http_handle_request env conn P = http_forward env rq req conn1 Q"
    and "client_fd conn1 = client_fd conn" "caches rq Q"
    and "p_cache Q = Some c1" "cache_wf c1" "heap c1 \<subseteq>\<^sub>m heap c" "max_size c1 = max_size c"
    and "p_config Q = p_config P" "dialled (p_net Q) = dialled (p_net P)" "accepted (p_net Q) = accepted (p_net P)"
    and "recv_script (p_net Q) = (recv_script (p_net P))(client_fd conn := rest)"
    and "send_script (p_net Q) = send_script (p_net P)" "dial_script (p_net Q) = dial_script (p_net P)"
proof -
  let ?conn = "if enable_auth (p_config P) \<noteq> 0 then conn\<lparr>authenticated := 1\<rparr> else conn"
  obtain Q where Q: "http_handle_request env conn P = http_serve env rq req ?conn Q" "unserved P Q"
    "recv_script (p_net Q) = (recv_script (p_net P))(client_fd conn := rest)"
    "send_script (p_net Q) = send_script (p_net P)" "dial_script (p_net Q) = dial_script (p_net P)"
    "accepted (p_net Q) = accepted (p_net P)"
    by (rule handle_passes [OF assms(1-5,7)])
  define c1 where "c1 = snd (kv_get (he_get_malloc env, he_get_now env) c (rq_url rq))"
  have c1: "cache_wf c1" "heap c1 \<subseteq>\<^sub>m heap c" "max_size c1 = max_size c"
    using wf_get [OF assms(10)] get_heap
    by (simp_all add: c1_def kv_get_step get_step_cases split: option.split)
  have get: "cache_get (he_get_malloc env) (he_get_now env) (Some c) (Some (rq_url rq)) = (None, Some c1)"
    using assms(11) by (simp add: c1_def kv_get_def cache_get_def split: prod.splits)
  have cached: "caches rq Q" using assms(6,8) Q(2) by (simp add: caches_def unserved_def)
  have "http_serve env rq req ?conn Q = http_forward env rq req ?conn (Q\<lparr>p_cache := Some c1\<rparr>)"
    using get Q(2) assms(6,9) cached by (simp add: http_serve_def http_fetch_def unserved_def)
  with Q(1) have served: "http_handle_request env conn P = http_forward env rq req ?conn (Q\<lparr>p_cache := Some c1\<rparr>)"
    by simp
  show thesis
    by (rule that [OF served _ _ _ c1]) (use Q cached in \<open>simp_all add: caches_def unserved_def\<close>)
qed

subsection \<open>A request for the examples\<close>

definition get_text :: string where
  "get_text = request_text ''GET'' ''http://h/'' ''HTTP/1.0'' ''h'' None CRLF"

definition get_parsed :: request where
  "get_parsed = \<lparr>rq_method = ''GET'', rq_url = ''http://h/'', rq_version = ''HTTP/1.0'', rq_host = Some ''h'', rq_port = 80\<rparr>"

definition demo_env :: http_env where
  "demo_env = \<lparr>he_get_malloc = True, he_get_now = 0, he_put_allocs = demo_allocs 7, he_put_now = 0,
     he_malloc = True, he_realloc = (\<lambda>_. True)\<rparr>"

text \<open>The remote end (5) will send \<open>page\<close>, the client (4) takes what \<open>ss\<close> says; caching is on.\<close>

definition get_proxy :: "recv_answer list \<Rightarrow> send_answer list \<Rightarrow> proxy" where
  "get_proxy page ss = \<lparr>p_net = \<lparr>recv_script = (\<lambda>fd. if fd = 4 then [Data (bytes_of get_text)] else if fd = 5 then page else []),
       send_script = (\<lambda>fd. if fd = 4 then ss else replicate 99 (Accepts 99)), dial_script = [Socket 5 True True],
       select_script = [], accepted = (\<lambda>_. []), dialled = [], open_fds = [4], w_stats = stats_init 0\<rparr>,
     p_config = config_set_defaults\<lparr>enable_caching := 1, enable_logging := 0\<rparr>, p_users = [], p_filter = filter_none,
     p_cache = Some demo_empty, p_logger = logger_off, p_log = []\<rparr>"

definition hit_cache :: cache_t where
  "hit_cache = put_insert 0 demo_empty 7 ''http://h/'' [7, 8] 2 60"

lemma get_parse: "http_parse_request (c_text (bytes_of get_text)) = Some (Some get_parsed)"
proof -
  have "c_string get_text" by (simp add: get_text_def request_text_def host_field_def c_string_def)
  then have "c_text (bytes_of get_text) = get_text" by (rule c_text_bytes_of)
  moreover have "writable ''GET'' ''http://h/'' ''HTTP/1.0'' ''h'' None"
    by (simp add: writable_def word_text_def host_field_def METHOD_SIZE_def MAX_PATH_def VERSION_SIZE_def
        MAX_HOSTNAME_def char_eval)
  ultimately show ?thesis
    using parse_request_text [of "''GET''" "''http://h/''" "''HTTP/1.0''" "''h''" None CRLF]
    by (simp add: get_text_def get_parsed_def)
qed

lemma bytes_of_get_text: "bytes_of get_text \<noteq> [] \<and> length (bytes_of get_text) = 35 \<and> length get_text = 35"
  by (simp add: get_text_def request_text_def host_field_def bytes_of_def)

lemma get_demo:
  "recv_script (p_net (get_proxy page ss)) (client_fd demo_conn) = [Data (bytes_of get_text)]"
  "bytes_of get_text \<noteq> []" "length (bytes_of get_text) < BUFFER_SIZE"
  "http_parse_request (c_text (bytes_of get_text)) = Some (Some get_parsed)"
  "rq_host get_parsed = Some ''h''" "rq_method get_parsed = ''GET''"
  "passes get_parsed (bytes_of get_text) (get_proxy page ss)" "enable_caching (p_config (get_proxy page ss)) \<noteq> 0"
  "p_cache (get_proxy page ss) = Some demo_empty" "cache_wf demo_empty"
  "fst (kv_get (he_get_malloc demo_env, he_get_now demo_env) demo_empty (rq_url get_parsed)) = None"
  "dial_script (p_net (get_proxy page ss)) = [Socket 5 True True]" "(0::c_int) \<le> 5" "(5::c_int) \<noteq> client_fd demo_conn"
  using demo_empty_wf bucket_find_None [OF demo_empty_wf]
  using get_parse bytes_of_get_text
  by (simp_all add: get_proxy_def demo_conn_def passes_def config_set_defaults_def get_parsed_def
      kv_get_step get_step_cases BUFFER_SIZE_def)

lemma hit_demo: "fst (kv_get (he_get_malloc demo_env, he_get_now demo_env) hit_cache (rq_url get_parsed)) = Some [7, 8]"
proof -
  have wf: "cache_wf hit_cache" unfolding hit_cache_def by (rule wf_put_insert [OF demo_empty_wf]) simp_all
  have "bucket_find hit_cache ''http://h/'' = Some 7"
    by (rule bucket_find_live [OF wf]) (simp_all add: hit_cache_def entry_def dom_def)
  then show ?thesis
    by (simp add: kv_get_step get_step_cases demo_env_def get_parsed_def expired_def hit_cache_def new_expiry_def)
qed

lemma http_hit_served:
  assumes "recv_script (p_net P) (client_fd conn) = Data req # rest" "req \<noteq> []" "length req < BUFFER_SIZE"
    and "http_parse_request (c_text req) = Some (Some rq)" "rq_host rq = Some h" "rq_method rq = ''GET''"
    and "passes rq req P" "enable_caching (p_config P) \<noteq> 0"
    and "p_cache P = Some c" "fst (kv_get (he_get_malloc env, he_get_now env) c (rq_url rq)) = Some page"
    and "willing (length page) (send_script (p_net P) (client_fd conn))"
  obtains conn' P' where "http_handle_request env conn P = Some (0, conn', P')"
    and "accepted (p_net P') = (accepted (p_net P))(client_fd conn := accepted (p_net P) (client_fd conn) @ page)"
    and "dialled (p_net P') = dialled (p_net P)" "open_fds (p_net P') = open_fds (p_net P)"
proof -
  let ?conn = "if enable_auth (p_config P) \<noteq> 0 then conn\<lparr>authenticated := 1\<rparr> else conn"
  obtain Q where Q: "http_handle_request env conn P = http_serve env rq req ?conn Q" "unserved P Q"
    "recv_script (p_net Q) = (recv_script (p_net P))(client_fd conn := rest)"
    "send_script (p_net Q) = send_script (p_net P)" "dial_script (p_net Q) = dial_script (p_net P)"
    "accepted (p_net Q) = accepted (p_net P)"
    by (rule handle_passes [OF assms(1-5,7)])
  obtain n g where get: "cache_get (he_get_malloc env) (he_get_now env) (Some c) (Some (rq_url rq)) = (Some (page, n), g)"
    using assms(10) by (auto simp: kv_get_def split: prod.splits)
  have cached: "caches rq Q" "p_cache Q = Some c" using assms(6,8,9) Q(2) by (simp_all add: caches_def unserved_def)
  let ?Q = "maybe_log (''[CACHE HIT] '' @ rq_url rq) (Q\<lparr>p_cache := g\<rparr>)"
  have net: "p_net ?Q = p_net Q" by (simp add: maybe_log_def)
  have "willing (length page + 0) (send_script (p_net Q) (client_fd conn))" using assms(11) Q(4) by simp
  from send_all_willing [OF this] obtain w where s: "send_all (client_fd conn) page (p_net Q) = (int (length page), w)"
    by blast
  have "http_serve env rq req ?conn Q = Some (0, ?conn, ?Q\<lparr>p_net := w\<rparr>)"
    using fetch_hit [OF cached(1) get [folded cached(2)], of req ?conn] on_net_eq [of "send_all (client_fd conn) page" ?Q, unfolded net, OF s]
      assms(6) by (simp add: http_serve_def)
  with Q(1) have served_by: "http_handle_request env conn P = Some (0, ?conn, ?Q\<lparr>p_net := w\<rparr>)" by simp
  from send_all_spec(1) [OF s] have "accepted w = (accepted (p_net Q))(client_fd conn := accepted (p_net Q) (client_fd conn) @ page)"
    by auto
  with send_all_spec(2) [OF s] Q(2,6) show thesis
    by (intro that [OF served_by]) (simp_all add: unserved_def same_rest_def)
qed

subsection \<open>Properties\<close>

text \<open>C7: a GET through an empty slot of the cache.  A request that passes the gates and is
  not cached is sent unchanged to the host and port it names; when both ends keep taking
  data, the client receives the whole answer, byte for byte, and the cache then serves
  exactly this answer for the URL until the lifetime is over.\<close>

theorem http_get_fetches:
  assumes "recv_script (p_net P) (client_fd conn) = Data req # rest" "req \<noteq> []" "length req < BUFFER_SIZE"
    and "http_parse_request (c_text req) = Some (Some rq)" "rq_host rq = Some h" "rq_method rq = ''GET''"
    and "passes rq req P" "enable_caching (p_config P) \<noteq> 0"
    and "p_cache P = Some c" "cache_wf c" "fst (kv_get (he_get_malloc env, he_get_now env) c (rq_url rq)) = None"
    and "dial_script (p_net P) = Socket fd True True # ds" "0 \<le> fd" "fd \<noteq> client_fd conn"
    and "willing (length req) (send_script (p_net P) fd)" "willing (length page) (send_script (p_net P) (client_fd conn))"
    and "page = stream fd (p_net P)" "page \<noteq> []" "length page \<le> unat (max_size c) div 2" "length page < 2 ^ 62"
    and "he_malloc env" "\<And>j. he_realloc env j" "allocates (he_put_allocs env) c"
  obtains conn' P' c' where "http_handle_request env conn P = Some (0, conn', P')"
    and "dialled (p_net P') = dialled (p_net P) @ [(h, nat (rq_port rq mod 65536))]"
    and "accepted (p_net P') fd = accepted (p_net P) fd @ req"
    and "accepted (p_net P') (client_fd conn) = accepted (p_net P) (client_fd conn) @ page"
    and "p_cache P' = Some c'" "cache_wf c'" "kv_stored c' (rq_url rq) = Some page"
    and "\<And>t. cache_ttl_seconds (p_config P) \<le> 0 \<or> t \<le> he_put_now env + cache_ttl_seconds (p_config P) \<Longrightarrow>
      fst (kv_get (True, t) c' (rq_url rq)) = Some page"
proof -
  obtain conn1 Q c1 where Q: "http_handle_request env conn P = http_forward env rq req conn1 Q"
    "client_fd conn1 = client_fd conn" "caches rq Q" "p_cache Q = Some c1" "cache_wf c1" "heap c1 \<subseteq>\<^sub>m heap c"
    "max_size c1 = max_size c" "p_config Q = p_config P" "dialled (p_net Q) = dialled (p_net P)"
    "accepted (p_net Q) = accepted (p_net P)" "recv_script (p_net Q) = (recv_script (p_net P))(client_fd conn := rest)"
    "send_script (p_net Q) = send_script (p_net P)" "dial_script (p_net Q) = dial_script (p_net P)"
    by (rule miss_forwards [OF assms(1-11)])
  have page: "stream fd (p_net Q) = page" using Q(11) assms(14,17) by (simp add: stream_def)
  have ready: "dial_script (p_net Q) = Socket fd True True # ds" "fd \<noteq> client_fd conn1"
    "willing (length req) (send_script (p_net Q) fd)" "length (stream fd (p_net Q)) < 2 ^ 62"
    using assms(12,14,15,20) Q(2,12,13) page by simp_all
  from forward_relays [OF assms(5) ready(1) assms(13) ready(2-4), of env] obtain conn' rs P2 k k' where
    f: "http_forward env rq req conn1 Q = map_option (\<lambda>P. (0, conn', P)) (store_response env rq rs P2)"
    "relayed rq req h fd k k' conn1 Q rs P2"
    "willing (length page) (send_script (p_net Q) (client_fd conn1)) \<longrightarrow> k = length page \<and>
      (caches rq Q \<and> he_malloc env \<and> (\<forall>j. he_realloc env j) \<longrightarrow> rs_data rs \<noteq> None)"
    unfolding page by blast
  have "k = length page" "rs_data rs \<noteq> None" using f(3) assms(16,21,22) Q(2,3,12) by simp_all
  with f(2) have g: "response_inv rs" "rs_data rs = Some page" "p_config P2 = p_config P" "p_cache P2 = Some c1"
    "dialled (p_net P2) = dialled (p_net P) @ [(h, nat (rq_port rq mod 65536))]"
    "accepted (p_net P2) fd = accepted (p_net P) fd @ req"
    "accepted (p_net P2) (client_fd conn) = accepted (p_net P) (client_fd conn) @ page"
    using Q(2,4,8-10) assms(14) unfolding relayed_def Let_def page by simp_all
  have "length page \<le> unat (max_size c1) div 2" using assms(19) Q(7) by simp
  from store_serves [OF g(1,2) assms(18) g(4) Q(5) allocates_mono [OF assms(23) Q(6)] this, of rq]
  obtain P' c' where st: "store_response env rq rs P2 = Some P'" "p_net P' = p_net P2" "p_cache P' = Some c'" "cache_wf c'"
    "kv_stored c' (rq_url rq) = Some page"
    "\<forall>t. cache_ttl_seconds (p_config P2) \<le> 0 \<or> t \<le> he_put_now env + cache_ttl_seconds (p_config P2) \<longrightarrow>
       fst (kv_get (True, t) c' (rq_url rq)) = Some page" by blast
  have served_by: "http_handle_request env conn P = Some (0, conn', P')"
    using Q(1) f(1) st(1) by simp
  show thesis
    by (rule that [OF served_by _ _ _ st(3-5)]) (use g(3,5-7) st(2) st(6) [rule_format] in simp_all)
qed

theorem http_get_fetches_witness:
  "\<exists>conn' P'. http_handle_request demo_env demo_conn (get_proxy [Data [1], Data [2, 3]] (replicate 9 (Accepts 9)))
     = Some (0, conn', P') \<and> accepted (p_net P') 4 = [1, 2, 3] \<and> dialled (p_net P') = [(''h'', 80)]"
proof -
  let ?P = "get_proxy [Data [1], Data [2, 3]] (replicate 9 (Accepts 9))"
  have w: "willing (length (bytes_of get_text)) (send_script (p_net ?P) 5)"
    "willing (length [1, 2, 3 :: u8]) (send_script (p_net ?P) (client_fd demo_conn))"
    by (simp_all add: get_proxy_def demo_conn_def bytes_of_get_text)
  have s: "[1, 2, 3] = stream 5 (p_net ?P)" by (simp add: get_proxy_def stream_def)
  have a: "he_malloc demo_env" "\<And>j. he_realloc demo_env j" "allocates (he_put_allocs demo_env) demo_empty"
    by (simp_all add: demo_env_def allocates_def fresh_in_def demo_allocs_def)
  obtain conn' P' where "http_handle_request demo_env demo_conn ?P = Some (0, conn', P')"
    "dialled (p_net P') = dialled (p_net ?P) @ [(''h'', nat (rq_port get_parsed mod 65536))]"
    "accepted (p_net P') (client_fd demo_conn) = accepted (p_net ?P) (client_fd demo_conn) @ [1, 2, 3]"
    by (rule http_get_fetches [OF get_demo w s _ _ _ a(1,2,3)]) simp_all
  then show ?thesis by (simp add: get_proxy_def demo_conn_def get_parsed_def)
qed

text \<open>C23: a hit.  When the cache serves a value for the URL of a GET request that passes the
  gates, the client receives exactly this value; no host is dialled, no descriptor is opened,
  and no other descriptor is given a byte.\<close>

theorem http_hit_serves:
  assumes "recv_script (p_net P) (client_fd conn) = Data req # rest" "req \<noteq> []" "length req < BUFFER_SIZE"
    and "http_parse_request (c_text req) = Some (Some rq)" "rq_host rq = Some h" "rq_method rq = ''GET''"
    and "passes rq req P" "enable_caching (p_config P) \<noteq> 0"
    and "p_cache P = Some c" "fst (kv_get (he_get_malloc env, he_get_now env) c (rq_url rq)) = Some page"
    and "willing (length page) (send_script (p_net P) (client_fd conn))"
  obtains conn' P' where "http_handle_request env conn P = Some (0, conn', P')"
    and "accepted (p_net P') = (accepted (p_net P))(client_fd conn := accepted (p_net P) (client_fd conn) @ page)"
    and "dialled (p_net P') = dialled (p_net P)" "open_fds (p_net P') = open_fds (p_net P)"
  using assms by (rule http_hit_served) (rule that)

theorem http_hit_serves_witness:
  "\<exists>conn' P'. http_handle_request demo_env demo_conn ((get_proxy [] [Accepts 9, Accepts 9])\<lparr>p_cache := Some hit_cache\<rparr>)
     = Some (0, conn', P') \<and> accepted (p_net P') 4 = [7, 8] \<and> dialled (p_net P') = []"
proof -
  let ?P = "(get_proxy [] [Accepts 9, Accepts 9])\<lparr>p_cache := Some hit_cache\<rparr>"
  have d: "recv_script (p_net ?P) (client_fd demo_conn) = [Data (bytes_of get_text)]" "passes get_parsed (bytes_of get_text) ?P"
    "enable_caching (p_config ?P) \<noteq> 0" "p_cache ?P = Some hit_cache"
    by (simp_all add: get_proxy_def demo_conn_def passes_def config_set_defaults_def)
  obtain conn' P' where "http_handle_request demo_env demo_conn ?P = Some (0, conn', P')"
    "accepted (p_net P') = (accepted (p_net ?P))(client_fd demo_conn := accepted (p_net ?P) (client_fd demo_conn) @ [7, 8])"
    "dialled (p_net P') = dialled (p_net ?P)"
    by (rule http_hit_serves [OF d(1) get_demo(2-6) d(2-4) hit_demo]) (auto simp: get_proxy_def demo_conn_def)
  then show ?thesis by (simp add: get_proxy_def demo_conn_def)
qed

text \<open>C22: the response buffer.  Whatever the chunks, the allocations and the client do, the
  forwarding loop ends without a write past the buffer; the client has received an initial
  segment of the answer, and what was collected for the cache is an initial segment of
  that, the whole of it when the answer was delivered completely.\<close>

theorem http_response_fits:
  assumes "remote_fd conn \<noteq> client_fd conn" "page = stream (remote_fd conn) (p_net P)" "length page < 2 ^ 62"
  shows "\<exists>conn' rs P' k k'. forward_loop m 0 conn (response_start wanted) P = Some (conn', rs, P') \<and>
    k' \<le> k \<and> k \<le> length page \<and> (k = length page \<longrightarrow> k' = k) \<and>
    accepted (p_net P') = (accepted (p_net P))(client_fd conn := accepted (p_net P) (client_fd conn) @ take k page) \<and>
    (rs_data rs = None \<or> rs_data rs = Some (take k' page) \<and> k' = unat (rs_size rs) \<and> k' \<le> unat (rs_capacity rs))"
proof -
  have small: "length b + length (stream (remote_fd conn) (p_net P)) < 2 ^ 62"
    if "rs_data (response_start wanted) = Some b" for b
    using that assms(2,3) by (simp add: response_start_def split: if_splits)
  from forward_loop_spec [of conn "response_start wanted" P m 0, OF assms(1) response_inv_start small]
  obtain conn' rs P' k k' where f: "forward_loop m 0 conn (response_start wanted) P = Some (conn', rs, P')"
    "forwarded k k' conn (response_start wanted) P conn' rs P'" by blast
  have g: "k' \<le> k" "k \<le> length page" "k = length page \<longrightarrow> k' = k" "response_inv rs"
    "accepted (p_net P') = (accepted (p_net P))(client_fd conn := accepted (p_net P) (client_fd conn) @ take k page)"
    "rs_data rs = map_option (\<lambda>b. b @ take k' page) (rs_data (response_start wanted)) \<or> rs_data rs = None"
    using f(2) assms(2) unfolding forwarded_def Let_def by simp_all
  have "rs_data rs = None \<or> rs_data rs = Some (take k' page)"
    using g(6) by (auto simp: response_start_def split: if_splits)
  moreover have "k' = unat (rs_size rs) \<and> k' \<le> unat (rs_capacity rs)" if "rs_data rs = Some (take k' page)"
    using g(1,2,4) that by (auto simp: response_inv_def)
  ultimately show ?thesis using f(1) g(1-3,5)
    by (intro exI [of _ conn'] exI [of _ rs] exI [of _ P'] exI [of _ k] exI [of _ k']) auto
qed

theorem http_response_fits_witness:
  "\<exists>conn' rs P' k. forward_loop (\<lambda>_. True) 0 demo_conn (response_start True)
      (get_proxy [Data [1], Data [2, 3]] [Accepts 0, Send_error]) = Some (conn', rs, P') \<and>
    k \<le> 3 \<and> accepted (p_net P') 4 = take k [1, 2, 3]"
proof -
  have c: "remote_fd demo_conn = 5" "client_fd demo_conn = 4" by (simp_all add: demo_conn_def)
  have s: "[1, 2, 3] = stream (remote_fd demo_conn) (p_net (get_proxy [Data [1], Data [2, 3]] [Accepts 0, Send_error]))"
    by (simp add: c get_proxy_def stream_def)
  have a: "accepted (p_net (get_proxy [Data [1], Data [2, 3]] [Accepts 0, Send_error])) 4 = []"
    by (simp add: get_proxy_def)
  let ?P = "get_proxy [Data [1], Data [2, 3]] [Accepts 0, Send_error]"
  have "remote_fd demo_conn \<noteq> client_fd demo_conn" "length [1, 2, 3 :: u8] < 2 ^ 62" by (simp_all add: c)
  from http_response_fits [OF this(1) s this(2), of "\<lambda>_. True" True] obtain conn' rs P' k where
    f: "forward_loop (\<lambda>_. True) 0 demo_conn (response_start True) ?P = Some (conn', rs, P')" "k \<le> length [1, 2, 3 :: u8]"
    "accepted (p_net P') = (accepted (p_net ?P))(client_fd demo_conn := accepted (p_net ?P) (client_fd demo_conn) @ take k [1, 2, 3])"
    by blast
  from f(3) have "accepted (p_net P') 4 = take k [1, 2, 3]" by (simp only: c a fun_upd_same append_Nil)
  moreover from f(2) have "k \<le> 3" by simp
  ultimately show ?thesis using f(1) by blast
qed

text \<open>Two chunks, of which the client takes only the first.\<close>

lemma forward_interrupted:
  assumes "recv_script (p_net P) fd = Data d # Data e # later" "remote_fd conn = fd" "fd \<noteq> client_fd conn"
    and "d \<noteq> []" "e \<noteq> []" "length d \<le> BUFFER_SIZE"
    and "send_script (p_net P) (client_fd conn) = Accepts a # Send_error # ss" "length d \<le> Suc a"
  shows "\<exists>conn' rs P'. forward_loop m 0 conn (response_start True) P = Some (conn', rs, P') \<and>
    response_inv rs \<and> rs_data rs = Some d \<and> p_config P' = p_config P \<and> p_cache P' = p_cache P"
proof -
  let ?c = "client_fd conn"
  define w1 where "w1 = (p_net P)\<lparr>recv_script := (recv_script (p_net P))(fd := Data e # later)\<rparr>"
  define w2 where "w2 = w1\<lparr>send_script := (send_script w1)(?c := Send_error # ss), accepted := (accepted w1)(?c := accepted w1 ?c @ d)\<rparr>"
  have r1: "on_net (recv_bytes fd BUFFER_SIZE) P = (Some d, P\<lparr>p_net := w1\<rparr>)"
    by (simp add: on_net_def recv_whole [OF assms(1,4,6)] w1_def)
  have "send_script w1 ?c = Accepts a # Send_error # ss" using assms(7) by (simp add: w1_def)
  from send_whole [OF this assms(4,8)] have s1: "on_net (send_all ?c d) (P\<lparr>p_net := w1\<rparr>) = (int (length d), P\<lparr>p_net := w2\<rparr>)"
    by (simp add: on_net_def w2_def)
  obtain rs where rs: "response_store (m 0) d (response_start True) = Some rs" "response_inv rs" "rs_data rs = Some d"
  proof -
    have "\<exists>rs. response_store (m 0) d (response_start True) = Some rs \<and> rs_data rs = Some d"
    proof -
      have l: "unat (of_nat (length d) :: size_t) = length d" "unat (of_nat BUFFER_SIZE :: size_t) = BUFFER_SIZE"
        using assms(6) by (auto intro!: unat_of_nat_size simp: BUFFER_SIZE_def)
      then have "\<not> (of_nat BUFFER_SIZE :: size_t) < 0 + of_nat (length d)"
        using assms(6) by (simp add: word_less_nat_alt)
      with l(2) assms(6) show ?thesis by (simp add: response_store_def response_start_def)
    qed
    with response_store_spec [OF response_inv_start assms(6), of True "m 0"] assms(6) that show thesis
      by (auto simp: response_start_def BUFFER_SIZE_def)
  qed
  let ?Q = "count_transferred d (P\<lparr>p_net := w2\<rparr>)" and ?conn = "count_received d conn"
  obtain e1 w3 where r2: "recv_bytes fd BUFFER_SIZE (p_net ?Q) = (Some e1, w3)" "send_script w3 = send_script (p_net ?Q)" "e1 \<noteq> []"
    using assms(5) by (auto simp: recv_bytes_def sys_recv_def w2_def w1_def count_transferred_def BUFFER_SIZE_def)
  have q: "on_net (recv_bytes fd BUFFER_SIZE) ?Q = (Some e1, ?Q\<lparr>p_net := w3\<rparr>)"
    by (simp only: on_net_def r2(1) prod.case)
  have "send_script w3 ?c = Send_error # ss" using r2(2) by (simp add: w2_def)
  then have "sys_send ?c e1 w3 = (Send_error, w3\<lparr>send_script := (send_script w3)(?c := ss)\<rparr>)" by (simp add: sys_send_def)
  with r2(3) have "fst (send_all ?c e1 w3) < 0" by (simp add: send_all_def send_loop.simps [of ?c e1])
  then obtain r w4 where s2: "on_net (send_all ?c e1) (?Q\<lparr>p_net := w3\<rparr>) = (r, ?Q\<lparr>p_net := w4\<rparr>)" "r < 0"
    by (cases "send_all ?c e1 w3") (simp add: on_net_def)
  have "forward_loop m (Suc 0) ?conn rs ?Q = Some (?conn, rs, ?Q\<lparr>p_net := w4\<rparr>)"
    using q s2 assms(2) by (simp add: forward_loop.simps [of m "Suc 0" ?conn rs])
  then have "forward_loop m 0 conn (response_start True) P = Some (?conn, rs, ?Q\<lparr>p_net := w4\<rparr>)"
    using r1 s1 rs(1) assms(2) by (simp add: forward_loop.simps [of m 0 conn])
  with rs show ?thesis by (simp add: count_transferred_def)
qed

text \<open>An answer that was cut off is cached as if it were complete.  When the client goes
  away after the first part of an answer, the handler reports success and the cache serves
  this part alone, a proper initial segment of the page, to everyone who asks for the URL.\<close>

theorem http_caches_truncated:
  assumes "recv_script (p_net P) (client_fd conn) = Data req # rest" "req \<noteq> []" "length req < BUFFER_SIZE"
    and "http_parse_request (c_text req) = Some (Some rq)" "rq_host rq = Some h" "rq_method rq = ''GET''"
    and "passes rq req P" "enable_caching (p_config P) \<noteq> 0"
    and "p_cache P = Some c" "cache_wf c" "fst (kv_get (he_get_malloc env, he_get_now env) c (rq_url rq)) = None"
    and "dial_script (p_net P) = Socket fd True True # ds" "0 \<le> fd" "fd \<noteq> client_fd conn"
    and "willing (length req) (send_script (p_net P) fd)"
    and "recv_script (p_net P) fd = Data d # Data e # later" "d \<noteq> []" "e \<noteq> []" "length d \<le> BUFFER_SIZE"
    and "send_script (p_net P) (client_fd conn) = Accepts a # Send_error # ss" "length d \<le> Suc a"
    and "he_malloc env" "allocates (he_put_allocs env) c" "length d \<le> unat (max_size c) div 2"
    and "cache_ttl_seconds (p_config P) \<le> 0 \<or> t \<le> he_put_now env + cache_ttl_seconds (p_config P)"
  shows "\<exists>conn' P' c'. http_handle_request env conn P = Some (0, conn', P') \<and> p_cache P' = Some c' \<and>
    fst (kv_get (True, t) c' (rq_url rq)) = Some d \<and> d \<noteq> stream fd (p_net P)"
proof -
  obtain conn1 Q c1 where Q: "http_handle_request env conn P = http_forward env rq req conn1 Q"
    "client_fd conn1 = client_fd conn" "caches rq Q" "p_cache Q = Some c1" "cache_wf c1" "heap c1 \<subseteq>\<^sub>m heap c"
    "max_size c1 = max_size c" "p_config Q = p_config P" "dialled (p_net Q) = dialled (p_net P)"
    "accepted (p_net Q) = accepted (p_net P)" "recv_script (p_net Q) = (recv_script (p_net P))(client_fd conn := rest)"
    "send_script (p_net Q) = send_script (p_net P)" "dial_script (p_net Q) = dial_script (p_net P)"
    by (rule miss_forwards [OF assms(1-11)])
  have ready: "dial_script (p_net Q) = Socket fd True True # ds" "fd \<noteq> client_fd conn1"
    "willing (length req) (send_script (p_net Q) fd)" using assms(12,14,15) Q(2,12,13) by simp_all
  obtain conn2 P2 where b: "http_forward env rq req conn1 Q =
      (case forward_loop (he_realloc env) 0 conn2 (response_start (caches rq Q \<and> he_malloc env)) P2 of
         None \<Rightarrow> None | Some (c, rs, P) \<Rightarrow> map_option (\<lambda>P. (0, c, P)) (store_response env rq rs P))"
    "remote_fd conn2 = fd" "client_fd conn2 = client_fd conn1" "p_config P2 = p_config Q" "p_cache P2 = p_cache Q"
    "recv_script (p_net P2) = recv_script (p_net Q)"
    "send_script (p_net P2) (client_fd conn1) = send_script (p_net Q) (client_fd conn1)"
    by (rule forward_begins [OF assms(5) ready(1) assms(13) ready(2,3), of env]) blast
  have ends: "recv_script (p_net P2) fd = Data d # Data e # later" "fd \<noteq> client_fd conn2"
    "send_script (p_net P2) (client_fd conn2) = Accepts a # Send_error # ss"
    using b(3,6,7) Q(2,11,12) assms(14,16,20) by simp_all
  from forward_interrupted [OF ends(1) b(2) ends(2) assms(17-19) ends(3) assms(21), of "he_realloc env"]
  obtain conn' rs P3 where f: "forward_loop (he_realloc env) 0 conn2 (response_start True) P2 = Some (conn', rs, P3)"
    "response_inv rs" "rs_data rs = Some d" "p_config P3 = p_config P" "p_cache P3 = Some c1"
    using b(4,5) Q(4,8) by auto
  have "length d \<le> unat (max_size c1) div 2" using assms(24) Q(7) by simp
  from store_serves [OF f(2,3) assms(17) f(5) Q(5) allocates_mono [OF assms(23) Q(6)] this, of rq]
  obtain P' c' where st: "store_response env rq rs P3 = Some P'" "p_cache P' = Some c'"
    "fst (kv_get (True, t) c' (rq_url rq)) = Some d" using assms(25) f(4) by auto
  have "http_handle_request env conn P = Some (0, conn', P')"
    using Q(1,3) b(1) f(1) st(1) assms(22) by simp
  moreover have "d \<noteq> stream fd (p_net P)" using assms(16-18) by (simp add: stream_def)
  ultimately show ?thesis using st(2,3) by blast
qed

theorem http_caches_truncated_witness:
  "\<exists>conn' P' c'. http_handle_request demo_env demo_conn (get_proxy [Data [1], Data [2, 3]] [Accepts 0, Send_error])
     = Some (0, conn', P') \<and> p_cache P' = Some c' \<and> fst (kv_get (True, 9) c' ''http://h/'') = Some [1]"
proof -
  let ?P = "get_proxy [Data [1], Data [2, 3]] [Accepts 0, Send_error]"
  have s: "willing (length (bytes_of get_text)) (send_script (p_net ?P) 5)" "recv_script (p_net ?P) 5 = Data [1] # Data [2, 3] # []"
    "send_script (p_net ?P) (client_fd demo_conn) = Accepts 0 # Send_error # []"
    by (simp_all add: get_proxy_def demo_conn_def bytes_of_get_text)
  have a: "he_malloc demo_env" "allocates (he_put_allocs demo_env) demo_empty"
    by (simp_all add: demo_env_def allocates_def fresh_in_def demo_allocs_def)
  have "rq_url get_parsed = ''http://h/''" by (simp add: get_parsed_def)
  with http_caches_truncated [OF get_demo s(1,2) _ _ _ s(3) _ a, of 9] show ?thesis
    by (auto simp: BUFFER_SIZE_def demo_env_def get_proxy_def config_set_defaults_def)
qed

end
