(* ===== verification/Connection.thy ===== *)
theory Connection
  imports Socks5 Http_Fetch
begin

text \<open>
  The life of one connection: \<open>connection_create\<close>, \<open>connection_destroy\<close> and
  \<open>connection_handle\<close> of \<^verbatim>\<open>src/core/connection.c\<close>, and the worker of
  \<^verbatim>\<open>src/core/server.c\<close> that runs them.  A pointer that may be NULL is an option.
\<close>

subsection \<open>Creating and destroying\<close>

text \<open>\<open>peer\<close> is the text that \<open>getpeername\<close> and \<open>inet_ntop\<close> leave in \<open>client_ip\<close>.\<close>

definition connection_create :: "bool \<Rightarrow> time_t \<Rightarrow> string \<Rightarrow> c_int \<Rightarrow> world \<Rightarrow> connection option \<times> world" where
  "connection_create m now peer fd w =
     (if \<not> m then (None, w)
      else (Some \<lparr>client_fd = fd, remote_fd = -1, created_at = now, bytes_sent = 0, bytes_received = 0,
                  client_ip = peer, authenticated = 0\<rparr>,
            w\<lparr>w_stats := stats_increment_connections (w_stats w)\<rparr>))"

definition connection_destroy :: "connection option \<Rightarrow> world \<Rightarrow> world" where
  "connection_destroy conn w =
     (case conn of None \<Rightarrow> w
      | Some conn \<Rightarrow>
          (let w = (if 0 \<le> client_fd conn then sys_close (client_fd conn) w else w)
           in if 0 \<le> remote_fd conn then sys_close (remote_fd conn) w else w))"

subsection \<open>Handling\<close>

definition tcp_relay :: "connection \<Rightarrow> proxy \<Rightarrow> c_int \<times> connection \<times> proxy" where
  "tcp_relay conn P =
     (case on_net (connect_to_host (backend_host (p_config P)) (backend_port (p_config P))) P of
        (fd, P) \<Rightarrow>
          (let conn = conn\<lparr>remote_fd := fd\<rparr> in
           if fd < 0 then (-1, conn, P)
           else (case on_net (tunnel BUFFER_SIZE conn) P of (conn, P) \<Rightarrow> (0, conn, P))))"

definition handle_mode :: "http_env \<Rightarrow> (c_int \<Rightarrow> u8 list) \<Rightarrow> connection \<Rightarrow> proxy \<Rightarrow> handled" where
  "handle_mode env sockname conn P =
     (case mode (p_config P) of
        PROXY_MODE_HTTP \<Rightarrow> http_handle_request env conn P
      | PROXY_MODE_HTTPS \<Rightarrow> http_handle_request env conn P
      | PROXY_MODE_SOCKS5 \<Rightarrow>
          (case socks5_handle_handshake conn P of
             None \<Rightarrow> None
           | Some (r, conn, P) \<Rightarrow>
               if r = 0 then Some (socks5_handle_request sockname conn P) else Some (-1, conn, P))
      | PROXY_MODE_TCP \<Rightarrow> Some (tcp_relay conn P)
      | PROXY_MODE_REVERSE \<Rightarrow> Some (tcp_relay conn P)
      | PROXY_MODE_TRANSPARENT \<Rightarrow> Some (-1, conn, P))"

definition connection_handle :: "http_env \<Rightarrow> (c_int \<Rightarrow> u8 list) \<Rightarrow> connection \<Rightarrow> proxy \<Rightarrow> handled" where
  "connection_handle env sockname conn P =
     (case (if enable_filtering (p_config P) \<noteq> 0 then filter_check_ip (p_filter P) (Some (client_ip conn)) else Some 0) of
        None \<Rightarrow> None
      | Some v \<Rightarrow> if v \<noteq> 0 then Some (-1, conn, P) else handle_mode env sockname conn P)"

text \<open>\<open>handle_connection_worker\<close>: the connection is handled, logged and destroyed.\<close>

definition handle_connection_worker :: "http_env \<Rightarrow> (c_int \<Rightarrow> u8 list) \<Rightarrow> connection \<Rightarrow> proxy \<Rightarrow> proxy option" where
  "handle_connection_worker env sockname conn P =
     (case connection_handle env sockname conn P of
        None \<Rightarrow> None
      | Some (r, conn, P) \<Rightarrow>
          (let P = (if enable_logging (p_config P) = 0 then P
                    else if r < 0 then log_line 2 (''Connection from '' @ client_ip conn @ '' failed'') P
                    else log_line 1 (''Connection from '' @ client_ip conn @ '' completed: sent='' @
                      show_nat (unat (bytes_sent conn)) @ '', recv='' @ show_nat (unat (bytes_received conn))) P)
           in Some (P\<lparr>p_net := connection_destroy (Some conn) (p_net P)\<rparr>)))"

subsection \<open>Who gets through\<close>

lemma send_frame: "on_net (send_all fd d) P = (x, P') \<Longrightarrow> same_session P P'"
  using same_session_net [of "send_all fd d" P x P'] on_net_frame [of "send_all fd d" P x P']
    send_all_spec(2) [of fd d "p_net P" x "p_net P'"] by simp

lemma login_frame: "socks5_login conn P = Some (r, conn', P') \<Longrightarrow> same_session P P' \<and> remote_fd conn' = remote_fd conn \<and> client_fd conn' = client_fd conn"
  by (auto simp: socks5_login_def Let_def split: prod.splits option.splits if_splits
      dest!: recv_frame send_frame intro: same_session_trans)

lemma handshake_frame:
  "socks5_handle_handshake conn P = Some (r, conn', P') \<Longrightarrow> same_session P P' \<and> remote_fd conn' = remote_fd conn \<and> client_fd conn' = client_fd conn"
  by (auto simp: socks5_handle_handshake_def Let_def split: prod.splits option.splits if_splits
      dest!: recv_frame send_frame login_frame intro: same_session_trans)

lemma parse_basic_c_string:
  assumes "auth_parse_basic n m header = Some (Some (u, p))"
  shows "c_string u" "c_string p"
proof -
  from assms obtain bytes :: "u8 list" where
    "strchr_split (CHR '':'') (takeWhile (\<lambda>c. c \<noteq> NUL) (map (\<lambda>b. char_of (unat b)) bytes)) = Some (u, p)"
    by (auto simp: auth_parse_basic_def strcpy_def Let_def split: option.splits if_splits)
  then have "takeWhile (\<lambda>c. c \<noteq> NUL) (map (\<lambda>b. char_of (unat b)) bytes) = u @ CHR '':'' # p"
    by (simp add: strchr_split_Some)
  then have "set u \<union> set p \<subseteq> set (takeWhile (\<lambda>c. c \<noteq> NUL) (map (\<lambda>b. char_of (unat b)) bytes))" by simp blast
  then show "c_string u" "c_string p" by (auto simp: c_string_def dest: set_takeWhileD)
qed

text \<open>The name and the password of a login message.\<close>

definition login_names :: "u8 list \<Rightarrow> string \<times> string" where
  "login_names buf =
     (c_text (take (unat (buf ! 1)) (drop 2 buf)),
      c_text (take (unat (buf ! (2 + unat (buf ! 1)))) (drop (2 + unat (buf ! 1) + 1) buf)))"

text \<open>What the client sends first presents a name and a password: in the SOCKS5 mode the
  message after the greeting, in the HTTP modes the \<open>Proxy-Authorization\<close> field of the
  request.\<close>

definition presents :: "connection \<Rightarrow> proxy \<Rightarrow> string \<times> string \<Rightarrow> bool" where
  "presents conn P names \<longleftrightarrow>
     (if mode (p_config P) = PROXY_MODE_SOCKS5 then
        (\<exists>buf. fst (recv_bytes (client_fd conn) 256 (snd (recv_bytes (client_fd conn) 256 (p_net P)))) = Some buf \<and>
           names = login_names buf)
      else
        (\<exists>req h. fst (recv_bytes (client_fd conn) (BUFFER_SIZE - 1) (p_net P)) = Some req \<and>
           strcasestr (c_text req) ''Proxy-Authorization:'' = Some h \<and>
           auth_parse_basic 128 128 (Some h) = Some (Some names)))"

definition logged_in :: "connection \<Rightarrow> proxy \<Rightarrow> bool" where
  "logged_in conn P \<longleftrightarrow> (\<exists>name pass. presents conn P (name, pass) \<and> c_string name \<and> c_string pass \<and>
     auth_verify (p_users P) (Some name) (Some pass) = Some 0)"

definition url_admitted :: "connection \<Rightarrow> proxy \<Rightarrow> bool" where
  "url_admitted conn P \<longleftrightarrow> (\<exists>req rq. fst (recv_bytes (client_fd conn) (BUFFER_SIZE - 1) (p_net P)) = Some req \<and>
     http_parse_request (c_text req) = Some (Some rq) \<and> filter_check_url (p_filter P) (Some (rq_url rq)) = Some 0)"

lemma recv_bytes_same:
  "recv_script w' fd = recv_script w fd \<Longrightarrow> fst (recv_bytes fd n w') = fst (recv_bytes fd n w)"
  by (simp add: recv_bytes_def sys_recv_def split: list.split recv_answer.split)

lemma login_presents:
  assumes "socks5_login conn P = Some (0, conn', P')"
  shows "\<exists>buf. fst (recv_bytes (client_fd conn) 256 (p_net P)) = Some buf \<and>
    auth_verify (p_users P) (Some (fst (login_names buf))) (Some (snd (login_names buf))) = Some 0"
proof -
  obtain x P1 where r: "on_net (recv_bytes (client_fd conn) 256) P = (x, P1)" by fastforce
  with assms obtain buf where buf: "x = Some buf" by (cases x) (auto simp: socks5_login_def)
  from assms r buf obtain y where y: "auth_verify (p_users P1) (Some (fst (login_names buf))) (Some (snd (login_names buf))) = Some y"
    by (auto simp: socks5_login_def login_names_def Let_def split: if_splits option.splits)
  obtain z P2 where s: "on_net (send_all (client_fd conn) [1, if y = 0 then 0 else 1]) P1 = (z, P2)" by fastforce
  from assms r buf y s have "y = 0"
    by (auto simp: socks5_login_def login_names_def Let_def split: if_splits)
  with y buf on_net_frame [OF r] show ?thesis by simp
qed

lemma handshake_presents:
  assumes "socks5_handle_handshake conn P = Some (0, conn', P')" "enable_auth (p_config P) \<noteq> 0"
    and "mode (p_config P) = PROXY_MODE_SOCKS5"
  shows "logged_in conn P"
proof -
  let ?fd = "client_fd conn"
  obtain x P1 where r: "on_net (recv_bytes ?fd 256) P = (x, P1)" by fastforce
  with assms obtain buf where buf: "x = Some buf" by (cases x) (auto simp: socks5_handle_handshake_def)
  let ?m = "select_method (enable_auth (p_config P1) \<noteq> 0) (take (unat (buf ! 1)) (drop 2 buf))"
  obtain z P2 where s: "on_net (send_all ?fd [SOCKS5_VERSION, ?m]) P1 = (z, P2)" by fastforce
  have "?m = SOCKS5_AUTH_USERPASS \<or> ?m = SOCKS5_AUTH_NO_ACCEPTABLE"
    using assms(2) on_net_frame [OF r] by (simp add: select_method_spec)
  with assms(1) r buf s have "socks5_login conn P2 = Some (0, conn', P')"
    by (auto simp: socks5_handle_handshake_def Let_def socks5_constants split: if_splits)
  from login_presents [OF this] obtain buf2 where b: "fst (recv_bytes ?fd 256 (p_net P2)) = Some buf2"
    "auth_verify (p_users P2) (Some (fst (login_names buf2))) (Some (snd (login_names buf2))) = Some 0" by blast
  have "recv_script (p_net P2) ?fd = recv_script (snd (recv_bytes ?fd 256 (p_net P))) ?fd"
    using on_net_frame [OF r] on_net_frame [OF s] send_all_spec(3) [of ?fd "[SOCKS5_VERSION, ?m]" "p_net P1" z "p_net P2"] by simp
  from recv_bytes_same [OF this, of 256] b(1)
  have "fst (recv_bytes ?fd 256 (snd (recv_bytes ?fd 256 (p_net P)))) = Some buf2" by simp
  moreover have "p_users P2 = p_users P" using on_net_frame [OF r] on_net_frame [OF s] by simp
  ultimately show ?thesis using b(2) assms(3)
    by (auto simp: logged_in_def presents_def login_names_def)
qed

lemma http_auth_admits:
  assumes "http_auth (c_text req) P = Some True" "fst (recv_bytes (client_fd conn) (BUFFER_SIZE - 1) (p_net P)) = Some req"
    and "mode (p_config P) \<noteq> PROXY_MODE_SOCKS5"
  shows "logged_in conn P"
proof -
  from assms(1) obtain h u p where h: "strcasestr (c_text req) ''Proxy-Authorization:'' = Some h"
    "auth_parse_basic 128 128 (Some h) = Some (Some (u, p))" "auth_verify (p_users P) (Some u) (Some p) = Some 0"
    by (auto simp: http_auth_def split: option.splits)
  from h(1,2) assms(2,3) have "presents conn P (u, p)" by (auto simp: presents_def)
  with h(3) parse_basic_c_string [OF h(2)] show ?thesis by (auto simp: logged_in_def)
qed

lemma mode_gate:
  assumes "handle_mode env sockname conn P = Some (r, conn', P')" "\<not> (r = -1 \<and> unserved P P')"
    and "mode (p_config P) \<in> {PROXY_MODE_HTTP, PROXY_MODE_HTTPS, PROXY_MODE_SOCKS5}" "enable_auth (p_config P) \<noteq> 0"
  shows "logged_in conn P"
proof (cases "mode (p_config P) = PROXY_MODE_SOCKS5")
  case True
  with assms(1) obtain r1 conn1 P1 where h: "socks5_handle_handshake conn P = Some (r1, conn1, P1)"
    by (auto simp: handle_mode_def split: option.splits)
  have "r1 = 0"
    using assms(1,2) True h handshake_frame [OF h] unservedI by (auto simp: handle_mode_def split: if_splits)
  with h handshake_presents [of conn P conn1 P1] assms(4) True show ?thesis by blast
next
  case False
  with assms(1,3) have "http_handle_request env conn P = Some (r, conn', P')" by (auto simp: handle_mode_def)
  from http_serves_passed [OF this] assms(2) obtain req rq w where
    "recv_bytes (client_fd conn) (BUFFER_SIZE - 1) (p_net P) = (Some req, w)" "passes rq req P" by metis
  with assms(4) http_auth_admits [of req P conn] False show ?thesis by (simp add: passes_def)
qed

lemma http_gate_url:
  assumes "handle_mode env sockname conn P = Some (r, conn', P')" "\<not> (r = -1 \<and> unserved P P')"
    and "mode (p_config P) \<in> {PROXY_MODE_HTTP, PROXY_MODE_HTTPS}" "enable_filtering (p_config P) \<noteq> 0"
  shows "url_admitted conn P"
proof -
  from assms(1,3) have "http_handle_request env conn P = Some (r, conn', P')" by (auto simp: handle_mode_def)
  from http_serves_passed [OF this] assms(2) obtain req rq w where
    "recv_bytes (client_fd conn) (BUFFER_SIZE - 1) (p_net P) = (Some req, w)"
    "http_parse_request (c_text req) = Some (Some rq)" "passes rq req P" by metis
  with assms(4) show ?thesis by (auto simp: passes_def url_admitted_def)
qed

text \<open>The connection was served: its handling succeeded, dialled a host, or changed the
  cache.\<close>

definition served :: "c_int \<Rightarrow> proxy \<Rightarrow> proxy \<Rightarrow> bool" where
  "served r P P' \<longleftrightarrow> r \<noteq> -1 \<or> dialled (p_net P') \<noteq> dialled (p_net P) \<or> p_cache P' \<noteq> p_cache P"

lemma handle_gate:
  assumes "connection_handle env sockname conn P = Some (r, conn', P')" "served r P P'"
  shows "enable_filtering (p_config P) \<noteq> 0 \<Longrightarrow> filter_check_ip (p_filter P) (Some (client_ip conn)) = Some 0"
    and "enable_auth (p_config P) \<noteq> 0 \<Longrightarrow> mode (p_config P) \<in> {PROXY_MODE_HTTP, PROXY_MODE_HTTPS, PROXY_MODE_SOCKS5} \<Longrightarrow>
      logged_in conn P"
    and "enable_filtering (p_config P) \<noteq> 0 \<Longrightarrow> mode (p_config P) \<in> {PROXY_MODE_HTTP, PROXY_MODE_HTTPS} \<Longrightarrow> url_admitted conn P"
proof -
  have passed: "\<not> (r = -1 \<and> unserved P P')" using assms(2) by (auto simp: unserved_def served_def)
  show "enable_filtering (p_config P) \<noteq> 0 \<Longrightarrow> filter_check_ip (p_filter P) (Some (client_ip conn)) = Some 0"
    using assms by (auto simp: connection_handle_def served_def split: option.splits if_splits)
  have m: "handle_mode env sockname conn P = Some (r, conn', P')"
    using assms by (auto simp: connection_handle_def served_def split: option.splits if_splits)
  show "enable_auth (p_config P) \<noteq> 0 \<Longrightarrow> mode (p_config P) \<in> {PROXY_MODE_HTTP, PROXY_MODE_HTTPS, PROXY_MODE_SOCKS5} \<Longrightarrow>
      logged_in conn P" using mode_gate [OF m passed] by blast
  show "enable_filtering (p_config P) \<noteq> 0 \<Longrightarrow> mode (p_config P) \<in> {PROXY_MODE_HTTP, PROXY_MODE_HTTPS} \<Longrightarrow> url_admitted conn P"
    using http_gate_url [OF m passed] by blast
qed

subsection \<open>Descriptors\<close>

text \<open>The kernel hands out descriptors that are not in use.\<close>

definition dial_ok :: "world \<Rightarrow> bool" where
  "dial_ok w \<longleftrightarrow> (\<forall>fd known ok. Socket fd known ok \<in> set (dial_script w) \<longrightarrow> 0 \<le> fd \<and> fd \<notin> set (open_fds w))"

text \<open>From \<open>w\<close> to \<open>w'\<close> at most the remote end of the connection was opened.\<close>

definition opens_remote :: "world \<Rightarrow> connection \<Rightarrow> world \<Rightarrow> bool" where
  "opens_remote w conn' w' \<longleftrightarrow>
     (remote_fd conn' < 0 \<and> open_fds w' = open_fds w \<or>
      0 \<le> remote_fd conn' \<and> remote_fd conn' \<notin> set (open_fds w) \<and> open_fds w' = remote_fd conn' # open_fds w)"

lemma connect_opens:
  assumes "connect_to_host host p w = (fd, w')" "dial_ok w"
  shows "fd < 0 \<and> open_fds w' = open_fds w \<or> 0 \<le> fd \<and> fd \<notin> set (open_fds w) \<and> open_fds w' = fd # open_fds w"
    and "set (dial_script w') \<subseteq> set (dial_script w)"
  using assms by (auto simp: connect_to_host_def dial_ok_def sys_close_def Let_def split: list.splits dial_answer.splits if_splits)

lemma session_fds: "same_session P P' \<Longrightarrow> open_fds (p_net P') = open_fds (p_net P)"
  by (simp add: same_session_def)

lemma session_dials: "same_session P P' \<Longrightarrow> dial_script (p_net P') = dial_script (p_net P)"
  by (simp add: same_session_def)

lemma tunnel_fds:
  assumes "on_net (tunnel n conn) P = (conn', P')" "client_fd conn \<noteq> remote_fd conn"
  shows "open_fds (p_net P') = open_fds (p_net P)" "remote_fd conn' = remote_fd conn" "client_fd conn' = client_fd conn"
    "dial_script (p_net P') = dial_script (p_net P)"
proof -
  have "tunnel n conn (p_net P) = (conn', p_net P')" using on_net_frame [OF assms(1)] by simp
  from tunnel_spec [OF this assms(2)] obtain i j i' j' where "delivered i j i' j' conn (p_net P) conn' (p_net P')" by blast
  then show "open_fds (p_net P') = open_fds (p_net P)" "remote_fd conn' = remote_fd conn" "client_fd conn' = client_fd conn"
    "dial_script (p_net P') = dial_script (p_net P)"
    by (simp_all add: delivered_def Let_def)
qed

lemma forward_loop_fds:
  "forward_loop m k conn rs P = Some (conn', rs', P') \<Longrightarrow>
     same_session P P' \<and> remote_fd conn' = remote_fd conn \<and> client_fd conn' = client_fd conn"
proof (induction m k conn rs P rule: forward_loop.induct)
  case (1 m i conn rs P)
  obtain x P1 where x: "on_net (recv_bytes (remote_fd conn) BUFFER_SIZE) P = (x, P1)" by fastforce
  show ?case
  proof (cases x)
    case None
    with 1(2) x recv_frame [OF x] show ?thesis by (simp add: forward_loop.simps [of m i conn rs P])
  next
    case (Some d)
    obtain r P2 where y: "on_net (send_all (client_fd conn) d) P1 = (r, P2)" by fastforce
    have PP2: "same_session P P2" by (rule same_session_trans [OF recv_frame [OF x] send_frame [OF y]])
    show ?thesis
    proof (cases "r < 0")
      case True
      with 1(2) x Some y PP2 show ?thesis by (simp add: forward_loop.simps [of m i conn rs P])
    next
      case False
      with 1(2) x Some y obtain rs1 where st: "response_store (m i) d rs = Some rs1"
        "forward_loop m (Suc i) (count_received d conn) rs1 (count_transferred d P2) = Some (conn', rs', P')"
        by (auto simp: forward_loop.simps [of m i conn rs P] split: option.splits)
      from 1(1) [OF x [symmetric] Some y [symmetric] False st(1) st(2)] show ?thesis
        using same_session_trans [OF PP2] by (simp add: same_session_def count_transferred_def)
    qed
  qed
qed

lemma store_fds: "store_response env rq rs P = Some P' \<Longrightarrow> p_net P' = p_net P"
  by (auto simp: store_response_def maybe_log_def split: option.splits if_splits)

text \<open>A connection that has no remote end yet and whose client end is open.\<close>

definition fresh_conn :: "connection \<Rightarrow> world \<Rightarrow> bool" where
  "fresh_conn conn w \<longleftrightarrow> remote_fd conn < 0 \<and> client_fd conn \<in> set (open_fds w) \<and> dial_ok w"

definition kept_open :: "connection \<Rightarrow> world \<Rightarrow> connection \<Rightarrow> world \<Rightarrow> bool" where
  "kept_open conn w conn' w' \<longleftrightarrow> client_fd conn' = client_fd conn \<and> opens_remote w conn' w' \<and>
     set (dial_script w') \<subseteq> set (dial_script w)"

lemma dial_session: "same_session P P' \<Longrightarrow> dial_ok (p_net P') = dial_ok (p_net P)"
  by (simp add: dial_ok_def same_session_def)

lemma connect_net:
  assumes "on_net (connect_to_host host p) P = (fd, P1)" "fresh_conn conn (p_net P)"
  shows "kept_open conn (p_net P) (conn\<lparr>remote_fd := fd\<rparr>) (p_net P1)" "0 \<le> fd \<Longrightarrow> fd \<noteq> client_fd conn"
  using connect_opens [of host p "p_net P" fd "p_net P1"] on_net_frame [OF assms(1)] assms(2)
  by (auto simp: kept_open_def opens_remote_def fresh_conn_def)

lemma kept_session:
  "kept_open conn w conn1 (p_net P1) \<Longrightarrow> same_session P1 P2 \<Longrightarrow> remote_fd conn2 = remote_fd conn1 \<Longrightarrow>
     client_fd conn2 = client_fd conn1 \<Longrightarrow> kept_open conn w conn2 (p_net P2)"
  by (simp add: kept_open_def opens_remote_def same_session_def)

lemma kept_tunnel:
  assumes "kept_open conn w conn1 (p_net P1)" "on_net (tunnel n conn1) P1 = (conn2, P2)" "client_fd conn1 \<noteq> remote_fd conn1"
  shows "kept_open conn w conn2 (p_net P2)"
  using assms(1) tunnel_fds [OF assms(2,3)] by (simp add: kept_open_def opens_remote_def)

lemma kept_refuse:
  "kept_open conn w conn1 (p_net P1) \<Longrightarrow> refuse conn1 t P1 = Some (r, conn2, P2) \<Longrightarrow> kept_open conn w conn2 (p_net P2)"
  using kept_session refuse_frame by blast

lemma tcp_keeps:
  assumes "tcp_relay conn P = (r, conn', P')" "fresh_conn conn (p_net P)"
  shows "kept_open conn (p_net P) conn' (p_net P')"
proof -
  obtain fd P1 where c: "on_net (connect_to_host (backend_host (p_config P)) (backend_port (p_config P))) P = (fd, P1)"
    by fastforce
  note k = connect_net [OF c assms(2)]
  show ?thesis
  proof (cases "fd < 0")
    case True
    with assms(1) c k(1) show ?thesis by (simp add: tcp_relay_def)
  next
    case False
    obtain conn2 P2 where t: "on_net (tunnel BUFFER_SIZE (conn\<lparr>remote_fd := fd\<rparr>)) P1 = (conn2, P2)" by fastforce
    have "client_fd (conn\<lparr>remote_fd := fd\<rparr>) \<noteq> remote_fd (conn\<lparr>remote_fd := fd\<rparr>)" using k(2) False by simp
    from kept_tunnel [OF k(1) t this] assms(1) c t False show ?thesis by (simp add: tcp_relay_def)
  qed
qed

lemma http_connect_keeps:
  assumes "http_connect rq conn P = Some (r, conn', P')" "fresh_conn conn (p_net P)"
  shows "kept_open conn (p_net P) conn' (p_net P')"
proof -
  obtain h p where hp: "connect_target rq = Some (h, p)" using assms(1) by (auto simp: http_connect_def split: option.splits)
  obtain fd P1 where c: "on_net (connect_to_host h p) P = (fd, P1)" by fastforce
  note k = connect_net [OF c assms(2)]
  show ?thesis
  proof (cases "fd < 0")
    case True
    with assms(1) hp c have "refuse (conn\<lparr>remote_fd := fd\<rparr>) bad_gateway P1 = Some (r, conn', P')"
      by (simp add: http_connect_def)
    from kept_refuse [OF k(1) this] show ?thesis .
  next
    case False
    let ?P2 = "answer (conn\<lparr>remote_fd := fd\<rparr>) established P1"
    obtain conn2 P3 where t: "on_net (tunnel BUFFER_SIZE (conn\<lparr>remote_fd := fd\<rparr>)) ?P2 = (conn2, P3)" by fastforce
    have "client_fd (conn\<lparr>remote_fd := fd\<rparr>) \<noteq> remote_fd (conn\<lparr>remote_fd := fd\<rparr>)" using k(2) False by simp
    from kept_tunnel [OF kept_session [OF k(1) answer_frame refl refl] t this] assms(1) hp c t False
    show ?thesis by (simp add: http_connect_def)
  qed
qed

lemma http_forward_keeps:
  assumes "http_forward env rq req conn P = Some (r, conn', P')" "fresh_conn conn (p_net P)"
  shows "kept_open conn (p_net P) conn' (p_net P')"
proof -
  obtain h where h: "rq_host rq = Some h" using assms(1) by (auto simp: http_forward_def split: option.splits)
  obtain fd P1 where c: "on_net (connect_to_host h (rq_port rq)) P = (fd, P1)" by fastforce
  note k = connect_net(1) [OF c assms(2)]
  show ?thesis
  proof (cases "fd < 0")
    case True
    with assms(1) h c have "refuse (conn\<lparr>remote_fd := fd\<rparr>) bad_gateway P1 = Some (r, conn', P')"
      by (simp add: http_forward_def)
    from kept_refuse [OF k this] show ?thesis .
  next
    case False
    obtain x P2 where s: "on_net (send_all fd req) P1 = (x, P2)" by fastforce
    note k2 = kept_session [OF k send_frame [OF s]]
    show ?thesis
    proof (cases "x < 0")
      case True
      with assms(1) h c s False have "conn' = conn\<lparr>remote_fd := fd\<rparr>" "P' = P2" by (simp_all add: http_forward_def)
      with k2 [of "conn\<lparr>remote_fd := fd\<rparr>"] show ?thesis by simp
    next
      case nf: False
      let ?conn = "conn\<lparr>remote_fd := fd, bytes_sent := bytes_sent conn + of_nat (length req)\<rparr>"
      from assms(1) h c s False nf obtain conn2 rs P3 where
        f: "forward_loop (he_realloc env) 0 ?conn (response_start (caches rq P2 \<and> he_malloc env)) P2 = Some (conn2, rs, P3)"
        "store_response env rq rs P3 = Some P'" "conn' = conn2"
        by (auto simp: http_forward_def split: option.splits)
      from forward_loop_fds [OF f(1)] have "kept_open conn (p_net P) conn2 (p_net P3)"
        using kept_session [OF k2 [of ?conn]] by simp
      with store_fds [OF f(2)] f(3) show ?thesis by simp
    qed
  qed
qed

lemma http_serve_keeps:
  assumes "http_serve env rq req conn P = Some (r, conn', P')" "fresh_conn conn (p_net P)"
  shows "kept_open conn (p_net P) conn' (p_net P')"
proof (cases "rq_method rq = ''CONNECT''")
  case True
  with assms http_connect_keeps show ?thesis by (simp add: http_serve_def)
next
  case False
  show ?thesis
  proof (cases "caches rq P")
    case True
    obtain x g where x: "cache_get (he_get_malloc env) (he_get_now env) (p_cache P) (Some (rq_url rq)) = (x, g)" by fastforce
    show ?thesis
    proof (cases x)
      case None
      with False True x assms http_forward_keeps [of env rq req conn "P\<lparr>p_cache := g\<rparr>" r conn' P'] show ?thesis
        by (simp add: http_serve_def http_fetch_def)
    next
      case (Some v)
      let ?Q = "maybe_log (''[CACHE HIT] '' @ rq_url rq) (P\<lparr>p_cache := g\<rparr>)"
      obtain y Q2 where s: "on_net (send_all (client_fd conn) (fst v)) ?Q = (y, Q2)" by fastforce
      have "open_fds (p_net Q2) = open_fds (p_net P)" "dial_script (p_net Q2) = dial_script (p_net P)"
        using session_fds [OF send_frame [OF s]] session_dials [OF send_frame [OF s]] by (simp_all add: maybe_log_def)
      moreover have "conn' = conn" "P' = Q2"
        using assms(1) False True x Some s by (auto simp: http_serve_def http_fetch_def split: prod.splits)
      ultimately show ?thesis using assms(2) by (simp add: kept_open_def opens_remote_def fresh_conn_def)
    qed
  next
    case nc: False
    with False assms http_forward_keeps show ?thesis by (simp add: http_serve_def http_fetch_def)
  qed
qed

lemma kept_start: "fresh_conn conn w \<Longrightarrow> remote_fd conn' = remote_fd conn \<Longrightarrow> client_fd conn' = client_fd conn \<Longrightarrow>
    open_fds w' = open_fds w \<Longrightarrow> dial_script w' = dial_script w \<Longrightarrow> kept_open conn w conn' w'"
  by (simp add: kept_open_def opens_remote_def fresh_conn_def)

lemma fresh_unserved:
  "fresh_conn conn (p_net P) \<Longrightarrow> unserved P Q \<Longrightarrow> remote_fd conn' = remote_fd conn \<Longrightarrow> client_fd conn' = client_fd conn \<Longrightarrow>
     fresh_conn conn' (p_net Q)"
  by (simp add: fresh_conn_def unserved_def dial_ok_def)

lemma kept_from:
  "kept_open conn1 (p_net Q) conn' w' \<Longrightarrow> open_fds (p_net Q) = open_fds (p_net P) \<Longrightarrow>
     dial_script (p_net Q) = dial_script (p_net P) \<Longrightarrow> client_fd conn1 = client_fd conn \<Longrightarrow>
     kept_open conn (p_net P) conn' w'"
  by (simp add: kept_open_def opens_remote_def)

lemma http_keeps:
  assumes "http_handle_request env conn P = Some (r, conn', P')" "fresh_conn conn (p_net P)"
  shows "kept_open conn (p_net P) conn' (p_net P')"
proof (cases "r = -1 \<and> unserved P P' \<and> remote_fd conn' = remote_fd conn \<and> client_fd conn' = client_fd conn")
  case True
  with assms(2) show ?thesis by (simp add: kept_start unserved_def)
next
  case False
  let ?conn = "if enable_auth (p_config P) \<noteq> 0 then conn\<lparr>authenticated := 1\<rparr> else conn"
  obtain req rq Q where Q: "unserved P Q" "http_serve env rq req ?conn Q = Some (r, conn', P')"
    using http_serves_passed [OF assms(1) False] by metis
  have "fresh_conn ?conn (p_net Q)" by (rule fresh_unserved [OF assms(2) Q(1)]) simp_all
  from http_serve_keeps [OF Q(2) this] show ?thesis
    by (rule kept_from) (use Q(1) in \<open>simp_all add: unserved_def\<close>)
qed

lemma socks5_connect_keeps:
  assumes "socks5_connect sockname host p conn P = (r, conn', P')" "fresh_conn conn (p_net P)"
  shows "kept_open conn (p_net P) conn' (p_net P')"
proof -
  obtain fd P1 where c: "on_net (connect_to_host host p) P = (fd, P1)" by fastforce
  note k = connect_net [OF c assms(2)]
  let ?conn = "conn\<lparr>remote_fd := fd\<rparr>"
  show ?thesis
  proof (cases "fd < 0")
    case True
    obtain x P2 where s: "on_net (send_all (client_fd conn) (socks5_reply 4)) P1 = (x, P2)" by fastforce
    with assms(1) c True have "conn' = ?conn" "P' = P2" by (simp_all add: socks5_connect_def)
    with kept_session [OF k(1) send_frame [OF s]] show ?thesis by simp
  next
    case False
    obtain x P2 where s: "on_net (send_all (client_fd conn) ([SOCKS5_VERSION, 0, 0, 1] @ sockname fd)) P1 = (x, P2)" by fastforce
    have k2: "kept_open conn (p_net P) ?conn (p_net P2)" by (rule kept_session [OF k(1) send_frame [OF s]]) simp_all
    show ?thesis
    proof (cases "x < 0")
      case True
      with assms(1) c s False have "conn' = ?conn" "P' = P2" by (simp_all add: socks5_connect_def)
      with k2 show ?thesis by simp
    next
      case nf: False
      obtain conn2 P3 where t: "on_net (tunnel 512 ?conn) P2 = (conn2, P3)" by fastforce
      have "client_fd ?conn \<noteq> remote_fd ?conn" using k(2) False by simp
      from kept_tunnel [OF k2 t this] assms(1) c s t False nf show ?thesis by (simp add: socks5_connect_def)
    qed
  qed
qed

lemma socks5_request_keeps:
  assumes "socks5_handle_request sockname conn P = (r, conn', P')" "fresh_conn conn (p_net P)"
  shows "kept_open conn (p_net P) conn' (p_net P')"
proof -
  obtain x P1 where r: "on_net (recv_bytes (client_fd conn) 512) P = (x, P1)" by fastforce
  have 1: "unserved P P1" by (rule unservedI [OF recv_frame [OF r]])
  have reply: "conn' = conn \<Longrightarrow> P' = snd (on_net (send_all (client_fd conn) d) Q) \<Longrightarrow> open_fds (p_net Q) = open_fds (p_net P) \<Longrightarrow>
      dial_script (p_net Q) = dial_script (p_net P) \<Longrightarrow> kept_open conn (p_net P) conn' (p_net P')" for d Q
    using session_fds [OF send_frame [of "client_fd conn" d Q _ "snd (on_net (send_all (client_fd conn) d) Q)"], OF surjective_pairing]
      session_dials [OF send_frame [of "client_fd conn" d Q _ "snd (on_net (send_all (client_fd conn) d) Q)"], OF surjective_pairing]
      assms(2) by (simp add: kept_start)
  have quit: "conn' = conn \<Longrightarrow> P' = P1 \<Longrightarrow> ?thesis" using assms(2) 1 by (simp add: kept_start unserved_def)
  show ?thesis
  proof (cases x)
    case None
    with assms(1) r quit show ?thesis by (simp add: socks5_handle_request_def)
  next
    case (Some buf)
    show ?thesis
    proof (cases "length buf < 4 \<or> buf ! 0 \<noteq> SOCKS5_VERSION")
      case True
      with assms(1) r Some quit show ?thesis by (auto simp: socks5_handle_request_def split: if_splits)
    next
      case ok: False
      show ?thesis
      proof (cases "socks5_parse_address buf")
        case Malformed
        with assms(1) r Some ok quit show ?thesis by (simp add: socks5_handle_request_def)
      next
        case Unsupported
        with assms(1) r Some ok reply [of "socks5_reply 8" P1] 1 show ?thesis
          by (simp add: socks5_handle_request_def unserved_def split: prod.splits)
      next
        case (Address h p)
        define Q where "Q = (if enable_logging (p_config P1) \<noteq> 0
          then log_line 1 (''[SOCKS5] '' @ client_ip conn @ '' CONNECT '' @ h @ '':'' @ show_int p) P1 else P1)"
        have Q: "p_net Q = p_net P1" by (simp add: Q_def)
        have fresh: "fresh_conn conn (p_net Q)" using fresh_unserved [OF assms(2) 1 refl refl] Q by simp
        have fds: "open_fds (p_net Q) = open_fds (p_net P)" "dial_script (p_net Q) = dial_script (p_net P)" using 1 Q by (simp_all add: unserved_def)
        have out: "(r, conn', P') = (if buf ! 1 = 1 then socks5_connect sockname h p conn Q
            else if buf ! 1 = 2 \<or> buf ! 1 = 3 then (case on_net (send_all (client_fd conn) (socks5_reply 7)) Q of (_, P) \<Rightarrow> (-1, conn, P))
            else (-1, conn, Q))"
          unfolding assms(1) [symmetric] socks5_handle_request_def r Some using ok Address by (simp add: Let_def Q_def)
        show ?thesis
        proof (cases "buf ! 1 = 1")
          case True
          with out have "socks5_connect sockname h p conn Q = (r, conn', P')" by simp
          from socks5_connect_keeps [OF this fresh] show ?thesis by (rule kept_from) (use fds in simp_all)
        next
          case False
          with out reply [of "socks5_reply 7" Q] fds assms(2) show ?thesis
            by (auto simp: kept_start split: prod.splits if_splits)
        qed
      qed
    qed
  qed
qed

lemma mode_keeps:
  assumes "handle_mode env sockname conn P = Some (r, conn', P')" "fresh_conn conn (p_net P)"
  shows "kept_open conn (p_net P) conn' (p_net P')"
proof (cases "mode (p_config P) = PROXY_MODE_SOCKS5")
  case True
  with assms(1) obtain r1 conn1 P1 where h: "socks5_handle_handshake conn P = Some (r1, conn1, P1)"
    by (auto simp: handle_mode_def split: option.splits)
  note f = handshake_frame [OF h]
  have fresh: "fresh_conn conn1 (p_net P1)" using fresh_unserved [OF assms(2) unservedI] f by blast
  show ?thesis
  proof (cases "r1 = 0")
    case z: True
    have "socks5_handle_request sockname conn1 P1 = (r, conn', P')"
      using assms(1) True h z by (simp add: handle_mode_def)
    from socks5_request_keeps [OF this fresh] show ?thesis
      by (rule kept_from) (use f in \<open>simp_all add: same_session_def\<close>)
  next
    case False
    with assms True h f show ?thesis by (auto simp: handle_mode_def kept_start same_session_def)
  qed
next
  case False
  then show ?thesis
    using assms http_keeps [OF _ assms(2)] tcp_keeps [OF _ assms(2)]
    by (cases "mode (p_config P)") (auto simp: handle_mode_def kept_start)
qed

lemma handle_keeps:
  assumes "connection_handle env sockname conn P = Some (r, conn', P')" "fresh_conn conn (p_net P)"
  shows "kept_open conn (p_net P) conn' (p_net P')"
  using assms mode_keeps [OF _ assms(2)] kept_start [OF assms(2) refl refl refl refl]
  by (auto simp: connection_handle_def split: option.splits if_splits)

lemma worker_closes:
  assumes "handle_connection_worker env sockname conn P = Some P'" "fresh_conn conn (p_net P)" "0 \<le> client_fd conn"
  shows "open_fds (p_net P') = remove1 (client_fd conn) (open_fds (p_net P))"
    and "set (dial_script (p_net P')) \<subseteq> set (dial_script (p_net P))"
proof -
  obtain r conn1 P1 where h: "connection_handle env sockname conn P = Some (r, conn1, P1)"
    using assms(1) by (auto simp: handle_connection_worker_def split: option.splits)
  have "p_net P' = connection_destroy (Some conn1) (p_net P1)"
    using assms(1) h by (auto simp: handle_connection_worker_def Let_def split: if_splits)
  with handle_keeps [OF h assms(2)] assms(2,3)
  show "open_fds (p_net P') = remove1 (client_fd conn) (open_fds (p_net P))"
    "set (dial_script (p_net P')) \<subseteq> set (dial_script (p_net P))"
    by (auto simp: kept_open_def opens_remote_def connection_destroy_def sys_close_def fresh_conn_def)
qed

subsection \<open>Properties\<close>

text \<open>C2: nobody gets through unchecked.  When the handling of a connection succeeds, dials a
  host or changes the cache, then the address of the client passed the filter if filtering is
  on; in the HTTP, HTTPS and SOCKS5 modes with authentication on, the client sent a name and a
  password that the credential list accepts; and in the HTTP modes with filtering on, the URL
  of the request it sent passed the filter.\<close>

theorem connection_gate:
  assumes "connection_handle env sockname conn P = Some (r, conn', P')" "served r P P'"
  shows "(enable_filtering (p_config P) \<noteq> 0 \<longrightarrow> filter_check_ip (p_filter P) (Some (client_ip conn)) = Some 0) \<and>
    (enable_auth (p_config P) \<noteq> 0 \<and> mode (p_config P) \<in> {PROXY_MODE_HTTP, PROXY_MODE_HTTPS, PROXY_MODE_SOCKS5} \<longrightarrow>
       (\<exists>name pass. presents conn P (name, pass) \<and> auth_verify (p_users P) (Some name) (Some pass) = Some 0)) \<and>
    (enable_filtering (p_config P) \<noteq> 0 \<and> mode (p_config P) \<in> {PROXY_MODE_HTTP, PROXY_MODE_HTTPS} \<longrightarrow>
       url_admitted conn P)"
  using handle_gate [OF assms] by (auto simp: logged_in_def)

text \<open>A hit of the cache, for a client whose address no list names.\<close>

definition gate_proxy :: proxy where
  "gate_proxy = (get_proxy [] [Accepts 9, Accepts 9])\<lparr>p_cache := Some hit_cache,
     p_config := config_set_defaults\<lparr>enable_caching := 1, enable_logging := 0, enable_filtering := 1\<rparr>\<rparr>"

lemma gate_run:
  "\<exists>conn' P'. connection_handle demo_env (\<lambda>_. []) demo_conn gate_proxy = Some (0, conn', P')"
proof -
  have d: "recv_script (p_net gate_proxy) (client_fd demo_conn) = [Data (bytes_of get_text)]"
    "passes get_parsed (bytes_of get_text) gate_proxy" "enable_caching (p_config gate_proxy) \<noteq> 0" "p_cache gate_proxy = Some hit_cache"
    by (simp_all add: gate_proxy_def get_proxy_def demo_conn_def passes_def config_set_defaults_def filter_check_url_def filter_none_def)
  obtain conn' P' where "http_handle_request demo_env demo_conn gate_proxy = Some (0, conn', P')"
    by (rule http_hit_served [OF d(1) get_demo(2-6) d(2-4) hit_demo]) (auto simp: gate_proxy_def get_proxy_def demo_conn_def)
  then show ?thesis
    by (simp add: connection_handle_def handle_mode_def gate_proxy_def config_set_defaults_def get_proxy_def
        filter_check_ip_def filter_none_def)
qed

theorem connection_gate_witness:
  "filter_check_ip (p_filter gate_proxy) (Some ''10.0.0.1'') = Some 0 \<and> url_admitted demo_conn gate_proxy"
proof -
  from gate_run obtain conn' P' where g: "connection_handle demo_env (\<lambda>_. []) demo_conn gate_proxy = Some (0, conn', P')" by blast
  have "served 0 gate_proxy P'" by (simp add: served_def)
  from connection_gate [OF g this] show ?thesis
    by (simp add: gate_proxy_def config_set_defaults_def demo_conn_def)
qed

text \<open>C6: no descriptor leaks.  Whatever the mode, the traffic and the errors, when a worker
  is done with a connection exactly its descriptors are closed: of the descriptors open
  before, that of the client, and any that was opened for the remote end.\<close>

theorem worker_closes_everything:
  assumes "handle_connection_worker env sockname conn P = Some P'" "remote_fd conn = -1" "0 \<le> client_fd conn"
    and "client_fd conn \<in> set (open_fds (p_net P))" "dial_ok (p_net P)"
  shows "open_fds (p_net P') = remove1 (client_fd conn) (open_fds (p_net P))"
  using worker_closes(1) [OF assms(1) _ assms(3)] assms(2,4,5) by (simp add: fresh_conn_def)

theorem worker_closes_everything_witness:
  "\<exists>P'. handle_connection_worker demo_env (\<lambda>_. []) (demo_conn\<lparr>remote_fd := -1\<rparr>)
      (demo_proxy\<lparr>p_config := config_set_defaults\<lparr>mode := PROXY_MODE_TCP\<rparr>,
         p_net := demo_world\<lparr>dial_script := [Socket 5 True True], select_script := [], open_fds := [4]\<rparr>\<rparr>) = Some P' \<and>
    open_fds (p_net P') = []"
proof -
  let ?P = "demo_proxy\<lparr>p_config := config_set_defaults\<lparr>mode := PROXY_MODE_TCP\<rparr>,
         p_net := demo_world\<lparr>dial_script := [Socket 5 True True], select_script := [], open_fds := [4]\<rparr>\<rparr>"
  let ?c = "demo_conn\<lparr>remote_fd := -1\<rparr>"
  obtain P' where P': "handle_connection_worker demo_env (\<lambda>_. []) ?c ?P = Some P'"
    by (simp add: handle_connection_worker_def connection_handle_def handle_mode_def tcp_relay_def demo_proxy_def
        config_set_defaults_def on_net_def connect_to_host_def demo_world_def tunnel_def Let_def)
  have "dial_ok (p_net ?P)" by (simp add: dial_ok_def)
  from worker_closes_everything [OF P' _ _ _ this] P' show ?thesis by (simp add: demo_conn_def)
qed

end
