(* ===== verification/Handling.thy ===== *)
theory Handling
  imports Connection
begin

text \<open>
  What handling a connection leaves alone, whatever the mode, the traffic and the errors: the
  configuration, the accounts, the filter and the logger stay as they are, and the cache
  keeps its invariant when the allocator returns addresses that are not in use.
\<close>

subsection \<open>The parts of the session\<close>

definition same_parts :: "proxy \<Rightarrow> proxy \<Rightarrow> bool" where
  "same_parts P P' \<longleftrightarrow> p_config P' = p_config P \<and> p_users P' = p_users P \<and> p_filter P' = p_filter P \<and>
     p_cache P' = p_cache P \<and> p_logger P' = p_logger P"

text \<open>With \<open>b\<close> the invariant of the cache is kept, too.\<close>

definition steady :: "bool \<Rightarrow> proxy \<Rightarrow> proxy \<Rightarrow> bool" where
  "steady b P P' \<longleftrightarrow> p_config P' = p_config P \<and> p_users P' = p_users P \<and> p_filter P' = p_filter P \<and>
     p_logger P' = p_logger P \<and> (p_cache P = None \<longrightarrow> p_cache P' = None) \<and>
     (\<forall>c. p_cache P = Some c \<longrightarrow> (\<exists>c'. p_cache P' = Some c' \<and> (b \<longrightarrow> cache_wf c \<longrightarrow> cache_wf c')))"

text \<open>The address that \<open>malloc\<close> returns for a new cache entry is not in use.\<close>

definition env_fresh :: "http_env \<Rightarrow> proxy \<Rightarrow> bool" where
  "env_fresh env P \<longleftrightarrow> (\<forall>c. p_cache P = Some c \<longrightarrow> fresh_in (he_put_allocs env) c)"

lemma same_parts_refl [simp]: "same_parts P P"
  by (simp add: same_parts_def)

lemma same_parts_trans: "same_parts P Q \<Longrightarrow> same_parts Q R \<Longrightarrow> same_parts P R"
  by (simp add: same_parts_def)

lemma same_parts_net: "on_net f P = (r, P') \<Longrightarrow> same_parts P P'"
  using on_net_frame [of f P r P'] by (simp add: same_parts_def)

lemma same_parts_session: "same_session P P' \<Longrightarrow> same_parts P P'"
  by (simp add: same_session_def same_parts_def)

lemma same_parts_log [simp]:
  "same_parts P (log_line l msg Q) \<longleftrightarrow> same_parts P Q" "same_parts P (maybe_log msg Q) \<longleftrightarrow> same_parts P Q"
  "same_parts P (count_request Q) \<longleftrightarrow> same_parts P Q" "same_parts P (count_transferred d Q) \<longleftrightarrow> same_parts P Q"
  by (simp_all add: same_parts_def maybe_log_def count_transferred_def)

lemma same_parts_answer: "same_parts P (answer conn msg P)"
  by (rule same_parts_session [OF answer_frame])

lemma same_parts_refuse: "refuse conn msg P = Some (r, conn', P') \<Longrightarrow> same_parts P P'"
  using refuse_frame same_parts_session by blast

lemma same_parts_unserved: "unserved P P' \<Longrightarrow> same_parts P P'"
  by (simp add: unserved_def same_parts_def)

lemma steady_refl [simp]: "steady b P P"
  by (simp add: steady_def)

lemma steady_trans: "steady b P Q \<Longrightarrow> steady b Q R \<Longrightarrow> steady b P R"
  unfolding steady_def by (cases "p_cache P") fastforce+

lemma steadyI: "same_parts P P' \<Longrightarrow> steady b P P'"
  by (simp add: steady_def same_parts_def)

lemma env_fresh_same: "same_parts P P' \<Longrightarrow> env_fresh env P' = env_fresh env P"
  by (simp add: env_fresh_def same_parts_def)

subsection \<open>The cache\<close>

lemma steady_get:
  assumes "cache_get m now (p_cache P) (Some k) = (r, g)"
  shows "steady b P (P\<lparr>p_cache := g\<rparr>)" "env_fresh env P \<Longrightarrow> env_fresh env (P\<lparr>p_cache := g\<rparr>)"
proof -
  have "(p_cache P = None \<longrightarrow> g = None) \<and> (\<forall>c. p_cache P = Some c \<longrightarrow> g = Some (snd (get_step m now c k)))"
    using assms by (auto simp: cache_get_def Let_def split: option.splits prod.splits)
  moreover have "fresh_in al c \<Longrightarrow> fresh_in al (snd (get_step m now c k))" for al c
    using get_heap [of m now c k] unfolding fresh_in_def map_le_def by (metis domIff)
  ultimately show "steady b P (P\<lparr>p_cache := g\<rparr>)" "env_fresh env P \<Longrightarrow> env_fresh env (P\<lparr>p_cache := g\<rparr>)"
    by (cases "p_cache P"; simp add: steady_def env_fresh_def wf_get)+
qed

text \<open>The response buffer holds the bytes that its size says.\<close>

definition sized :: "response \<Rightarrow> bool" where
  "sized rs \<longleftrightarrow> (\<forall>d. rs_data rs = Some d \<longrightarrow> unat (rs_size rs) \<le> length d)"

lemma sized_start: "sized (response_start wanted)"
  by (simp add: sized_def response_start_def)

lemma sized_store:
  assumes "response_store ok d rs = Some rs'" "sized rs"
  shows "sized rs'"
proof (cases "rs_data rs")
  case None
  with assms show ?thesis by (simp add: response_store_def)
next
  case (Some old)
  have add: "unat (rs_size rs + of_nat (length d)) \<le> unat (rs_size rs) + length d"
    by (simp add: unat_word_ariths unat_of_nat mod_add_right_eq)
  from assms Some add show ?thesis
    by (auto simp: response_store_def sized_def Let_def min_absorb2 split: if_splits)
qed

lemma steady_store:
  assumes "store_response env rq rs P = Some P'" "b \<longrightarrow> env_fresh env P" "sized rs"
  shows "steady b P P'"
proof (cases "rs_data rs = None \<or> rs_size rs = 0")
  case True
  with assms(1) show ?thesis by (auto simp: store_response_def split: option.splits)
next
  case False
  then obtain d where d: "rs_data rs = Some d" and pos: "0 < rs_size rs" by (auto simp: word_neq_0_conv)
  from assms(1) d pos obtain r g where
    g: "cache_put (he_put_allocs env) (he_put_now env) (p_cache P) (Some (rq_url rq)) (Some d) (rs_size rs)
        (cache_ttl_seconds (p_config P)) = Some (r, g)"
    and P': "same_parts (P\<lparr>p_cache := g\<rparr>) P'"
    by (auto simp: store_response_def split: option.splits)
  have "steady b P (P\<lparr>p_cache := g\<rparr>)"
  proof (cases "p_cache P")
    case None
    with g show ?thesis by (simp add: cache_put_def steady_def)
  next
    case (Some c)
    with g pos obtain c' where c': "put_step (he_put_allocs env) (he_put_now env) c (rq_url rq) d (rs_size rs)
        (cache_ttl_seconds (p_config P)) = Some (r, c')" "g = Some c'"
      by (auto simp: cache_put_def split: if_splits)
    have "b \<Longrightarrow> cache_wf c \<Longrightarrow> cache_wf c'"
      using wf_put [OF _ _ _ _ c'(1)] assms(2,3) d pos Some by (auto simp: env_fresh_def sized_def)
    with c' Some show ?thesis by (simp add: steady_def)
  qed
  with steady_trans steadyI [OF P'] show ?thesis by blast
qed

subsection \<open>The handlers\<close>

lemma forward_loop_parts:
  "forward_loop m k conn rs P = Some (conn', rs', P') \<Longrightarrow> sized rs \<Longrightarrow> sized rs' \<and> same_parts P P'"
proof (induction m k conn rs P rule: forward_loop.induct)
  case (1 m k conn rs P)
  obtain x P1 where x: "on_net (recv_bytes (remote_fd conn) BUFFER_SIZE) P = (x, P1)" by fastforce
  note p1 = same_parts_net [OF x]
  show ?case
  proof (cases x)
    case None
    with 1(2,3) x p1 show ?thesis by (simp add: forward_loop.simps [of m k conn rs P])
  next
    case (Some d)
    obtain r P2 where y: "on_net (send_all (client_fd conn) d) P1 = (r, P2)" by fastforce
    note p2 = same_parts_trans [OF p1 same_parts_net [OF y]]
    show ?thesis
    proof (cases "r < 0")
      case True
      with 1(2,3) x y p2 Some show ?thesis by (simp add: forward_loop.simps [of m k conn rs P])
    next
      case False
      with 1(2) x y Some obtain rs1 where rs1: "response_store (m k) d rs = Some rs1"
        and l: "forward_loop m (Suc k) (count_received d conn) rs1 (count_transferred d P2) = Some (conn', rs', P')"
        by (auto simp: forward_loop.simps [of m k conn rs P] split: option.splits)
      from 1(1) [OF x [symmetric] Some y [symmetric] False rs1 l sized_store [OF rs1 1(3)]]
      have "sized rs'" "same_parts (count_transferred d P2) P'" by simp_all
      moreover have "same_parts P (count_transferred d P2)" using p2 by simp
      ultimately show ?thesis using same_parts_trans by blast
    qed
  qed
qed

lemma http_forward_steady:
  assumes "http_forward env rq req conn P = Some (r, conn', P')" "b \<longrightarrow> env_fresh env P"
  shows "steady b P P'"
proof -
  from assms(1) obtain h where h: "rq_host rq = Some h" by (auto simp: http_forward_def split: option.splits)
  obtain fd P1 where x: "on_net (connect_to_host h (rq_port rq)) P = (fd, P1)" by fastforce
  note p1 = same_parts_net [OF x]
  show ?thesis
  proof (cases "fd < 0")
    case True
    with assms(1) h x have "refuse (conn\<lparr>remote_fd := fd\<rparr>) bad_gateway P1 = Some (r, conn', P')"
      by (simp add: http_forward_def)
    from steadyI [OF same_parts_trans [OF p1 same_parts_refuse [OF this]]] show ?thesis .
  next
    case False
    obtain n P2 where y: "on_net (send_all fd req) P1 = (n, P2)" by fastforce
    note p2 = same_parts_trans [OF p1 same_parts_net [OF y]]
    show ?thesis
    proof (cases "n < 0")
      case True
      with assms(1) h x y False p2 show ?thesis by (simp add: http_forward_def steadyI)
    next
      case ok: False
      with assms(1) h x y False obtain m conn1 rs conn2 rs2 P3 wanted where
        l: "forward_loop m 0 conn1 (response_start wanted) P2 = Some (conn2, rs2, P3)"
        and st: "store_response env rq rs2 P3 = Some P'"
        by (auto simp: http_forward_def split: option.splits)
      note f = forward_loop_parts [OF l sized_start]
      have p3: "same_parts P P3" by (rule same_parts_trans [OF p2]) (use f in blast)
      have "steady b P3 P'" by (rule steady_store [OF st]) (use f assms(2) env_fresh_same [OF p3] in simp_all)
      with steadyI [OF p3] show ?thesis by (rule steady_trans)
    qed
  qed
qed

lemma http_fetch_steady:
  assumes "http_fetch env rq req conn P = Some (r, conn', P')" "b \<longrightarrow> env_fresh env P"
  shows "steady b P P'"
proof (cases "caches rq P")
  case False
  with assms show ?thesis by (auto simp: http_fetch_def intro: http_forward_steady)
next
  case True
  obtain x g where g: "cache_get (he_get_malloc env) (he_get_now env) (p_cache P) (Some (rq_url rq)) = (x, g)" by fastforce
  have get: "steady b P (P\<lparr>p_cache := g\<rparr>)" "b \<longrightarrow> env_fresh env (P\<lparr>p_cache := g\<rparr>)"
    using steady_get [OF g] assms(2) by simp_all
  show ?thesis
  proof (cases x)
    case None
    with assms(1) True g have "http_forward env rq req conn (P\<lparr>p_cache := g\<rparr>) = Some (r, conn', P')"
      by (simp add: http_fetch_def)
    with get show ?thesis using http_forward_steady steady_trans by blast
  next
    case (Some hit)
    obtain data n where "hit = (data, n)" by fastforce
    with assms(1) True g Some have P': "P' = snd (on_net (send_all (client_fd conn) data)
        (maybe_log (''[CACHE HIT] '' @ rq_url rq) (P\<lparr>p_cache := g\<rparr>)))" by (auto simp: http_fetch_def)
    have "same_parts (maybe_log (''[CACHE HIT] '' @ rq_url rq) (P\<lparr>p_cache := g\<rparr>)) P'"
      unfolding P' by (rule same_parts_net) (rule prod.collapse [symmetric])
    with same_parts_trans [where Q = "maybe_log (''[CACHE HIT] '' @ rq_url rq) (P\<lparr>p_cache := g\<rparr>)"]
    have "same_parts (P\<lparr>p_cache := g\<rparr>) P'" by (simp only: same_parts_log same_parts_refl)
    with get(1) steadyI steady_trans show ?thesis by blast
  qed
qed

lemma http_connect_steady:
  assumes "http_connect rq conn P = Some (r, conn', P')"
  shows "same_parts P P'"
proof -
  from assms obtain h p where h: "connect_target rq = Some (h, p)" by (auto simp: http_connect_def split: option.splits)
  obtain fd P1 where x: "on_net (connect_to_host h p) P = (fd, P1)" by fastforce
  note p1 = same_parts_net [OF x]
  show ?thesis
  proof (cases "fd < 0")
    case True
    with assms h x have "refuse (conn\<lparr>remote_fd := fd\<rparr>) bad_gateway P1 = Some (r, conn', P')"
      by (simp add: http_connect_def)
    from same_parts_trans [OF p1 same_parts_refuse [OF this]] show ?thesis .
  next
    case False
    obtain conn2 P2 where y: "on_net (tunnel BUFFER_SIZE (conn\<lparr>remote_fd := fd\<rparr>)) (answer (conn\<lparr>remote_fd := fd\<rparr>) established P1) = (conn2, P2)"
      by fastforce
    with assms h x False have "P' = P2" by (simp add: http_connect_def)
    with same_parts_trans [OF same_parts_trans [OF p1 same_parts_answer] same_parts_net [OF y]] show ?thesis by simp
  qed
qed

lemma http_handle_steady:
  assumes "http_handle_request env conn P = Some (r, conn', P')" "b \<longrightarrow> env_fresh env P"
  shows "steady b P P'"
proof -
  obtain x P1 where x: "on_net (recv_bytes (client_fd conn) (BUFFER_SIZE - 1)) P = (x, P1)" by fastforce
  note p1 = same_parts_net [OF x]
  have serve: "steady b Q P'" if "http_serve env rq req c Q = Some (r, conn', P')" "b \<longrightarrow> env_fresh env Q" for rq req c Q
    using that http_connect_steady [THEN steadyI] http_fetch_steady unfolding http_serve_def by (auto split: if_splits)
  have gates: "steady b Q P'" if "http_gates env rq req conn Q = Some (r, conn', P')" "b \<longrightarrow> env_fresh env Q" for rq req Q
    using that serve same_parts_refuse [THEN steadyI] unfolding http_gates_def
    by (auto simp: Let_def split: option.splits bool.splits if_splits)
  show ?thesis
  proof (cases x)
    case None
    with assms(1) x p1 show ?thesis by (simp add: http_handle_request_def steadyI)
  next
    case (Some req)
    with assms(1) x consider "refuse conn bad_request P1 = Some (r, conn', P')"
      | rq P2 where "log_request conn rq P1 = Some P2" "http_gates env rq req conn (count_request P2) = Some (r, conn', P')"
      by (auto simp: http_handle_request_def split: option.splits)
    then show ?thesis
    proof cases
      case 1
      from steadyI [OF same_parts_trans [OF p1 same_parts_refuse [OF this]]] show ?thesis .
    next
      case 2
      have "same_parts P1 P2" using log_request_frame [OF 2(1)] same_parts_unserved by blast
      then have p2: "same_parts P (count_request P2)" using same_parts_trans [OF p1] by simp
      from steady_trans [OF steadyI [OF p2] gates [OF 2(2)]] env_fresh_same [OF p2] assms(2) show ?thesis by simp
    qed
  qed
qed

lemma socks5_connect_parts:
  assumes "socks5_connect sockname host p conn P = (r, conn', P')"
  shows "same_parts P P'"
proof -
  obtain fd P1 where x: "on_net (connect_to_host host p) P = (fd, P1)" by fastforce
  obtain m P2 where y: "on_net (send_all (client_fd conn)
      (if fd < 0 then socks5_reply 4 else [SOCKS5_VERSION, 0, 0, 1] @ sockname fd)) P1 = (m, P2)" by fastforce
  obtain c P3 where z: "on_net (tunnel 512 (conn\<lparr>remote_fd := fd\<rparr>)) P2 = (c, P3)" by fastforce
  have "P' = P2 \<or> P' = P3" using assms x y z by (auto simp: socks5_connect_def Let_def split: if_splits)
  with same_parts_trans [OF same_parts_net [OF x] same_parts_net [OF y]] same_parts_net [OF z] same_parts_trans
  show ?thesis by blast
qed

lemma socks5_request_parts:
  assumes "socks5_handle_request sockname conn P = (r, conn', P')"
  shows "same_parts P P'"
proof -
  obtain x P1 where x: "on_net (recv_bytes (client_fd conn) 512) P = (x, P1)" by fastforce
  note p1 = same_parts_net [OF x]
  have reply: "same_parts Q Q'" if "(case on_net (send_all fd d) Q of (_, R) \<Rightarrow> (-1, conn, R)) = (r, conn', Q')" for fd d Q Q'
    using that same_parts_net [of "send_all fd d" Q] by (auto split: prod.splits)
  show ?thesis
  proof (cases "\<exists>buf host p. x = Some buf \<and> 4 \<le> length buf \<and> buf ! 0 = SOCKS5_VERSION \<and> socks5_parse_address buf = Address host p")
    case False
    with assms x have "P' = P1 \<or> (case on_net (send_all (client_fd conn) (socks5_reply 8)) P1 of (_, R) \<Rightarrow> (-1, conn, R)) = (r, conn', P')"
      by (cases x) (auto simp: socks5_handle_request_def split: if_splits parsed_address.splits)
    with p1 reply same_parts_trans show ?thesis by blast
  next
    case True
    then obtain buf host p where b: "x = Some buf" "4 \<le> length buf" "buf ! 0 = SOCKS5_VERSION"
      "socks5_parse_address buf = Address host p" by blast
    define P2 where "P2 = (if enable_logging (p_config P1) \<noteq> 0
      then log_line 1 (''[SOCKS5] '' @ client_ip conn @ '' CONNECT '' @ host @ '':'' @ show_int p) P1 else P1)"
    have p2: "same_parts P P2" using p1 by (simp add: P2_def)
    have "socks5_handle_request sockname conn P =
        (if buf ! 1 = 1 then socks5_connect sockname host p conn P2
         else if buf ! 1 = 2 \<or> buf ! 1 = 3 then
           (case on_net (send_all (client_fd conn) (socks5_reply 7)) P2 of (_, R) \<Rightarrow> (-1, conn, R))
         else (-1, conn, P2))"
      using x b by (simp add: socks5_handle_request_def P2_def)
    with assms have "same_parts P2 P'"
      using reply [of "client_fd conn" "socks5_reply 7" P2 P'] socks5_connect_parts [of sockname host p conn P2 r conn' P']
      by (simp split: if_splits)
    with p2 same_parts_trans show ?thesis by blast
  qed
qed

lemma tcp_relay_parts:
  assumes "tcp_relay conn P = (r, conn', P')"
  shows "same_parts P P'"
proof -
  obtain fd P1 where x: "on_net (connect_to_host (backend_host (p_config P)) (backend_port (p_config P))) P = (fd, P1)" by fastforce
  obtain c P2 where y: "on_net (tunnel BUFFER_SIZE (conn\<lparr>remote_fd := fd\<rparr>)) P1 = (c, P2)" by fastforce
  have "P' = P1 \<or> P' = P2" using assms x y by (auto simp: tcp_relay_def Let_def split: if_splits)
  with same_parts_net [OF x] same_parts_net [OF y] same_parts_trans show ?thesis by blast
qed

lemma mode_steady:
  assumes "handle_mode env sockname conn P = Some (r, conn', P')" "b \<longrightarrow> env_fresh env P"
  shows "steady b P P'"
proof (cases "mode (p_config P)")
  case PROXY_MODE_SOCKS5
  with assms(1) obtain n conn1 P1 where h: "socks5_handle_handshake conn P = Some (n, conn1, P1)"
    and rest: "P' = P1 \<or> socks5_handle_request sockname conn1 P1 = (r, conn', P')"
    by (auto simp: handle_mode_def split: option.splits if_splits)
  have "same_parts P P1" using handshake_frame [OF h] same_parts_session by blast
  with rest socks5_request_parts same_parts_trans steadyI show ?thesis by metis
qed (use assms http_handle_steady tcp_relay_parts [THEN steadyI] in \<open>auto simp: handle_mode_def\<close>)

lemma handle_steady:
  assumes "connection_handle env sockname conn P = Some (r, conn', P')" "b \<longrightarrow> env_fresh env P"
  shows "steady b P P'"
  using assms mode_steady by (auto simp: connection_handle_def split: option.splits if_splits)

lemma worker_steady:
  assumes "handle_connection_worker env sockname conn P = Some P'" "b \<longrightarrow> env_fresh env P"
  shows "steady b P P'"
proof -
  from assms(1) obtain r conn1 P1 where h: "connection_handle env sockname conn P = Some (r, conn1, P1)"
    by (auto simp: handle_connection_worker_def split: option.splits)
  from assms(1) h have "same_parts P1 P'"
    by (auto simp: handle_connection_worker_def Let_def same_parts_def)
  with steady_trans [OF handle_steady [OF h assms(2)] steadyI] show ?thesis by blast
qed

end
