(* ===== verification/Thread_Pool.thy ===== *)
theory Thread_Pool
  imports Prelude Interfaces
begin

text \<open>
  The thread pool, \<^verbatim>\<open>src/core/threading.c\<close>: the work queue as linked items on the heap
  with a head, a tail and a counter, and the interleavings of the workers, the submitters and
  the thread that destroys the pool.  What happens between a lock and its unlock is one step;
  a worker is at the top of its loop, asleep on the condition variable, executing an item
  outside the lock, or gone.
\<close>

subsection \<open>The work queue\<close>

text \<open>A function pointer and its argument are opaque addresses.\<close>

type_synonym work = "addr \<times> addr"

record work_item =
  wi_work :: work
  wi_next :: "addr option"

record work_queue =
  wq_heap :: "addr \<rightharpoonup> work_item"
  wq_head :: "addr option"
  wq_tail :: "addr option"
  wq_count :: c_int

definition empty_queue :: work_queue where
  "empty_queue = \<lparr>wq_heap = Map.empty, wq_head = None, wq_tail = None, wq_count = 0\<rparr>"

text \<open>The item is allocated at \<open>a\<close> and filled, then linked behind the tail.\<close>

definition enqueue :: "addr \<Rightarrow> work \<Rightarrow> work_queue \<Rightarrow> work_queue" where
  "enqueue a w q =
     (let q1 = q\<lparr>wq_heap := (wq_heap q)(a \<mapsto> \<lparr>wi_work = w, wi_next = None\<rparr>)\<rparr>;
          q2 = (case wq_tail q1 of
              Some t \<Rightarrow> q1\<lparr>wq_heap := (wq_heap q1)(t \<mapsto> (the (wq_heap q1 t))\<lparr>wi_next := Some a\<rparr>)\<rparr>
            | None \<Rightarrow> q1\<lparr>wq_head := Some a\<rparr>)
      in q2\<lparr>wq_tail := Some a, wq_count := wrap32 (wq_count q2 + 1)\<rparr>)"

text \<open>The item leaves the queue but stays on the heap until its work is done.\<close>

definition dequeue :: "work_queue \<Rightarrow> (addr \<times> work_queue) option" where
  "dequeue q =
     (case wq_head q of None \<Rightarrow> None
      | Some a \<Rightarrow>
          (let n = wi_next (the (wq_heap q a))
           in Some (a, q\<lparr>wq_head := n, wq_tail := (if n = None then None else wq_tail q),
                         wq_count := wrap32 (wq_count q - 1)\<rparr>)))"

definition free_item :: "addr \<Rightarrow> work_queue \<Rightarrow> work_queue" where
  "free_item a q = q\<lparr>wq_heap := (wq_heap q)(a := None)\<rparr>"

definition work_at :: "work_queue \<Rightarrow> addr \<Rightarrow> work" where
  "work_at q a = wi_work (the (wq_heap q a))"

text \<open>The contents: \<open>count\<close> items from the head along the links.\<close>

fun follow :: "nat \<Rightarrow> (addr \<rightharpoonup> work_item) \<Rightarrow> addr option \<Rightarrow> addr list" where
  "follow 0 h p = []"
| "follow (Suc n) h None = []"
| "follow (Suc n) h (Some a) = a # follow n h (wi_next (the (h a)))"

definition queue_addrs :: "work_queue \<Rightarrow> addr list" where
  "queue_addrs q = follow (nat (wq_count q)) (wq_heap q) (wq_head q)"

definition queue_items :: "work_queue \<Rightarrow> work list" where
  "queue_items q = map (work_at q) (queue_addrs q)"

subsection \<open>The shape of the queue\<close>

fun path :: "(addr \<rightharpoonup> work_item) \<Rightarrow> addr option \<Rightarrow> addr list \<Rightarrow> bool" where
  "path h p [] \<longleftrightarrow> p = None"
| "path h p (a # as) \<longleftrightarrow> p = Some a \<and> (\<exists>it. h a = Some it \<and> path h (wi_next it) as)"

definition queue_at :: "work_queue \<Rightarrow> addr list \<Rightarrow> bool" where
  "queue_at q as \<longleftrightarrow> path (wq_heap q) (wq_head q) as \<and> distinct as \<and>
     wq_tail q = (if as = [] then None else Some (last as)) \<and> wq_count q = int (length as) \<and>
     length as < 2 ^ 31"

definition queue_wf :: "work_queue \<Rightarrow> bool" where
  "queue_wf q \<longleftrightarrow> queue_at q (queue_addrs q)"

lemma follow_path: "path h p as \<Longrightarrow> follow (length as) h p = as"
  by (induction as arbitrary: p) auto

lemma queue_at_addrs: "queue_at q as \<Longrightarrow> queue_addrs q = as"
  by (simp add: queue_at_def queue_addrs_def follow_path)

lemma queue_wf_at: "queue_at q as \<Longrightarrow> queue_wf q"
  by (simp add: queue_wf_def queue_at_addrs)

lemma path_heap: "path h p as \<Longrightarrow> a \<in> set as \<Longrightarrow> h a \<noteq> None"
  by (induction as arbitrary: p) auto

lemma path_frame: "path h p as \<Longrightarrow> a \<notin> set as \<Longrightarrow> path (h(a := x)) p as"
  by (induction as arbitrary: p) auto

text \<open>Linking a new last item.\<close>

lemma path_append:
  assumes "path h p as" "distinct as" "as \<noteq> []" "h a = None"
  shows "path (h(a \<mapsto> \<lparr>wi_work = w, wi_next = None\<rparr>, last as \<mapsto> (the (h (last as)))\<lparr>wi_next := Some a\<rparr>)) p (as @ [a])"
  using assms
proof (induction as arbitrary: p)
  case (Cons b as)
  from Cons.prems obtain it where it: "p = Some b" "h b = Some it" "path h (wi_next it) as" by auto
  show ?case
  proof (cases "as = []")
    case True
    with it Cons.prems show ?thesis by auto
  next
    case False
    then have "last as \<in> set as" by simp
    with Cons.prems have "b \<noteq> last as" "b \<noteq> a" using it(2) by auto
    with False it Cons show ?thesis by auto
  qed
qed simp

definition can_enqueue :: "addr \<Rightarrow> work_queue \<Rightarrow> bool" where
  "can_enqueue a q \<longleftrightarrow> wq_heap q a = None \<and> wq_count q + 1 < 2 ^ 31"

lemma enqueue_at:
  assumes "queue_at q as" "can_enqueue a q"
  shows "queue_at (enqueue a w q) (as @ [a])"
    and "work_at (enqueue a w q) a = w" "\<And>b. b \<in> set as \<Longrightarrow> work_at (enqueue a w q) b = work_at q b"
    and "dom (wq_heap (enqueue a w q)) = insert a (dom (wq_heap q))"
proof -
  have q: "path (wq_heap q) (wq_head q) as" "distinct as" "wq_count q = int (length as)"
    "wq_tail q = (if as = [] then None else Some (last as))" "wq_heap q a = None" "int (length as) + 1 < 2 ^ 31"
    using assms by (simp_all add: queue_at_def can_enqueue_def)
  have "a \<notin> set as" using path_heap [OF q(1), of a] q(5) by blast
  have cnt: "wrap32 (int (length as) + 1) = int (length as) + 1" using q(6) by (intro wrap32_nonneg_id) simp_all
  have all: "queue_at (enqueue a w q) (as @ [a]) \<and> work_at (enqueue a w q) a = w \<and>
      (\<forall>b\<in>set as. work_at (enqueue a w q) b = work_at q b) \<and>
      dom (wq_heap (enqueue a w q)) = insert a (dom (wq_heap q))"
  proof (cases "as = []")
    case True
    with q cnt show ?thesis by (simp add: queue_at_def enqueue_def Let_def work_at_def)
  next
    case False
    let ?t = "last as"
    have "?t \<in> set as" using False by simp
    then have t: "wq_heap q ?t \<noteq> None" "?t \<noteq> a" using path_heap [OF q(1), of ?t] \<open>a \<notin> set as\<close> by auto
    have e: "enqueue a w q = q\<lparr>wq_heap := (wq_heap q)(a \<mapsto> \<lparr>wi_work = w, wi_next = None\<rparr>,
        ?t \<mapsto> (the (wq_heap q ?t))\<lparr>wi_next := Some a\<rparr>), wq_tail := Some a, wq_count := int (length as) + 1\<rparr>"
      using False q t cnt by (simp add: enqueue_def Let_def)
    have "path (wq_heap (enqueue a w q)) (wq_head (enqueue a w q)) (as @ [a])"
      unfolding e using path_append [OF q(1,2) False q(5)] by simp
    moreover have "work_at (enqueue a w q) b = work_at q b" if "b \<in> set as" for b
      unfolding e using that \<open>a \<notin> set as\<close> by (auto simp: work_at_def)
    moreover have "work_at (enqueue a w q) a = w"
      unfolding e using t by (simp add: work_at_def)
    moreover have "dom (wq_heap (enqueue a w q)) = insert a (dom (wq_heap q))"
      unfolding e using t by auto
    ultimately show ?thesis
      using q \<open>a \<notin> set as\<close> unfolding queue_at_def by (auto simp: e)
  qed
  then show "queue_at (enqueue a w q) (as @ [a])" "work_at (enqueue a w q) a = w"
    "\<And>b. b \<in> set as \<Longrightarrow> work_at (enqueue a w q) b = work_at q b"
    "dom (wq_heap (enqueue a w q)) = insert a (dom (wq_heap q))" by blast+
qed

lemma dequeue_at:
  assumes "queue_at q as"
  shows "as = [] \<Longrightarrow> dequeue q = None"
    and "as = a # bs \<Longrightarrow> \<exists>q'. dequeue q = Some (a, q') \<and> queue_at q' bs \<and> wq_heap q' = wq_heap q"
proof -
  note q = assms [unfolded queue_at_def]
  show "dequeue q = None" if "as = []" using q that by (simp add: dequeue_def)
  show "\<exists>q'. dequeue q = Some (a, q') \<and> queue_at q' bs \<and> wq_heap q' = wq_heap q" if as: "as = a # bs"
  proof -
    from q as obtain it where it: "wq_head q = Some a" "wq_heap q a = Some it" "path (wq_heap q) (wi_next it) bs"
      by auto
    have "wi_next it = None \<longleftrightarrow> bs = []" using it(3) by (cases bs) auto
    moreover have "wrap32 (int (length bs)) = int (length bs)"
      using q as by (intro wrap32_nonneg_id) simp_all
    ultimately show ?thesis using q as it by (simp add: dequeue_def queue_at_def)
  qed
qed

lemma free_item_at: "queue_at q as \<Longrightarrow> a \<notin> set as \<Longrightarrow> queue_at (free_item a q) as"
  by (simp add: queue_at_def free_item_def path_frame)

lemma queue_wf_obtain: "queue_wf q \<Longrightarrow> queue_at q (queue_addrs q)"
  by (simp add: queue_wf_def)

subsection \<open>The queue keeps the order\<close>

definition deq_work :: "work_queue \<Rightarrow> (work \<times> work_queue) option" where
  "deq_work q = map_option (\<lambda>(a, q'). (work_at q a, q')) (dequeue q)"

lemma work_at_heap: "wq_heap q' = wq_heap q \<Longrightarrow> work_at q' = work_at q"
  by (simp add: work_at_def fun_eq_iff)

lemma deq_work_cases:
  assumes "queue_wf q"
  shows "queue_addrs q = [] \<Longrightarrow> deq_work q = None"
    and "queue_addrs q = a # as \<Longrightarrow> \<exists>q'. dequeue q = Some (a, q') \<and> deq_work q = Some (work_at q a, q') \<and>
      queue_wf q' \<and> queue_addrs q' = as \<and> wq_heap q' = wq_heap q"
proof -
  note q = queue_wf_obtain [OF assms]
  show "queue_addrs q = [] \<Longrightarrow> deq_work q = None" using dequeue_at(1) [OF q] by (simp add: deq_work_def)
  assume "queue_addrs q = a # as"
  from dequeue_at(2) [OF q this] obtain q' where
    "dequeue q = Some (a, q')" "queue_at q' as" "wq_heap q' = wq_heap q" by blast
  then show "\<exists>q'. dequeue q = Some (a, q') \<and> deq_work q = Some (work_at q a, q') \<and>
      queue_wf q' \<and> queue_addrs q' = as \<and> wq_heap q' = wq_heap q"
    by (simp add: deq_work_def queue_wf_at queue_at_addrs)
qed

text \<open>Freeing an item that has left the queue.\<close>

definition free_other :: "work_queue \<Rightarrow> work_queue \<Rightarrow> bool" where
  "free_other q q' \<longleftrightarrow> (\<exists>a. a \<notin> set (queue_addrs q) \<and> q' = free_item a q)"

interpretation work_fifo: fifo_queue enqueue deq_work can_enqueue free_other queue_items queue_wf
proof unfold_locales
  fix q q'
  assume "queue_wf q" "free_other q q'"
  then obtain a where a: "a \<notin> set (queue_addrs q)" "q' = free_item a q" by (auto simp: free_other_def)
  have "queue_at q' (queue_addrs q)"
    unfolding a(2) by (rule free_item_at [OF queue_wf_obtain [OF \<open>queue_wf q\<close>] a(1)])
  with a show "queue_wf q' \<and> queue_items q' = queue_items q"
    by (auto simp: queue_wf_at queue_items_def queue_at_addrs work_at_def free_item_def)
next
  fix q a w
  assume wf: "queue_wf q" and can: "can_enqueue a q"
  note e = enqueue_at [OF queue_wf_obtain [OF wf] can]
  show "queue_wf (enqueue a w q)" by (rule queue_wf_at [OF e(1)])
  show "queue_items (enqueue a w q) = queue_items q @ [w]"
    using queue_at_addrs [OF e(1) [of w]] e(2,3) by (simp add: queue_items_def)
next
  fix q
  assume wf: "queue_wf q"
  show "deq_work q = None \<longleftrightarrow> queue_items q = []"
    using deq_work_cases [OF wf] by (cases "queue_addrs q") (auto simp: queue_items_def)
next
  fix q w q'
  assume wf: "queue_wf q" and d: "deq_work q = Some (w, q')"
  then obtain a as where as: "queue_addrs q = a # as"
    using deq_work_cases(1) [OF wf] by (cases "queue_addrs q") auto
  from deq_work_cases(2) [OF wf as] d have q': "queue_wf q'" "queue_addrs q' = as" "wq_heap q' = wq_heap q" "w = work_at q a"
    by auto
  with work_at_heap [OF q'(3)] show "queue_wf q' \<and> queue_items q = w # queue_items q'"
    by (simp add: queue_items_def as)
qed

subsection \<open>The pool\<close>

datatype worker = At_top | Asleep | Running addr | Gone

record thread_pool =
  tp_queue :: work_queue
  tp_shutdown :: c_int
  tp_workers :: "worker list"

text \<open>\<open>pthread_cond_signal\<close> wakes the sleeper \<open>i\<close> (nobody when \<open>i\<close> does not sleep), a
  broadcast wakes them all.\<close>

definition cond_signal :: "nat \<Rightarrow> worker list \<Rightarrow> worker list" where
  "cond_signal i ws = (if i < length ws \<and> ws ! i = Asleep then ws[i := At_top] else ws)"

definition cond_broadcast :: "worker list \<Rightarrow> worker list" where
  "cond_broadcast = map (\<lambda>w. if w = Asleep then At_top else w)"

text \<open>The locked part of the worker's loop.\<close>

definition worker_section :: "c_int \<Rightarrow> work_queue \<Rightarrow> worker \<times> work_queue" where
  "worker_section shutdown q =
     (if wq_count q = 0 \<and> shutdown = 0 then (Asleep, q)
      else if shutdown \<noteq> 0 then (Gone, q)
      else case dequeue q of None \<Rightarrow> (At_top, q) | Some (a, q') \<Rightarrow> (Running a, q'))"

text \<open>The end of the unlocked part: the item is freed.\<close>

definition worker_done :: "addr \<Rightarrow> work_queue \<Rightarrow> worker \<times> work_queue" where
  "worker_done a q = (At_top, free_item a q)"

text \<open>\<open>m\<close> is the allocation, \<open>wake\<close> the sleeper that the signal wakes.\<close>

definition thread_pool_submit ::
  "addr option \<Rightarrow> nat \<Rightarrow> thread_pool option \<Rightarrow> work option \<Rightarrow> c_int \<times> thread_pool option" where
  "thread_pool_submit m wake pool w =
     (case (pool, w, m) of
        (Some p, Some w, Some a) \<Rightarrow>
          (0, Some (p\<lparr>tp_queue := enqueue a w (tp_queue p), tp_workers := cond_signal wake (tp_workers p)\<rparr>))
      | _ \<Rightarrow> (-1, pool))"

text \<open>The loop that creates the threads: \<open>created i\<close> says whether \<open>pthread_create\<close> succeeds
  for the \<open>i\<close>-th one; the result is the number of threads that exist when it stops.\<close>

fun create_threads :: "(nat \<Rightarrow> bool) \<Rightarrow> nat \<Rightarrow> nat \<Rightarrow> nat" where
  "create_threads created i 0 = i"
| "create_threads created i (Suc n) = (if created i then create_threads created (Suc i) n else i)"

definition thread_pool_create :: "bool \<Rightarrow> bool \<Rightarrow> (nat \<Rightarrow> bool) \<Rightarrow> c_int \<Rightarrow> thread_pool option" where
  "thread_pool_create m_pool m_threads created num_threads =
     (if \<not> m_pool then None
      else if \<not> m_threads then None
      else if create_threads created 0 (nat num_threads) < nat num_threads then None
      else Some \<lparr>tp_queue = empty_queue, tp_shutdown = 0, tp_workers = replicate (nat num_threads) At_top\<rparr>)"

text \<open>\<open>thread_pool_destroy\<close>: the locked part, and, once every worker is joined, the release
  of what is left in the queue.\<close>

definition destroy_signal :: "thread_pool \<Rightarrow> thread_pool" where
  "destroy_signal p = p\<lparr>tp_shutdown := 1, tp_workers := cond_broadcast (tp_workers p)\<rparr>"

partial_function (option) free_items :: "addr option \<Rightarrow> work_queue \<Rightarrow> work_queue option" where
  "free_items item q =
     (case item of None \<Rightarrow> Some q
      | Some a \<Rightarrow>
          (case wq_heap q a of None \<Rightarrow> None
           | Some it \<Rightarrow> free_items (wi_next it) (free_item a q)))"

definition destroy_finish :: "thread_pool \<Rightarrow> work_queue option" where
  "destroy_finish p = free_items (wq_head (tp_queue p)) (tp_queue p)"

subsection \<open>Interleavings\<close>

datatype pool_event = Submit work | Take nat work | Sleep nat | Leave nat | Done nat | Wake nat | Destroy

inductive pool_step :: "thread_pool \<Rightarrow> pool_event \<Rightarrow> thread_pool \<Rightarrow> bool" where
  submit: "can_enqueue a (tp_queue p) \<Longrightarrow> (\<exists>j<length (tp_workers p). tp_workers p ! j = Asleep) \<longrightarrow>
      wake < length (tp_workers p) \<and> tp_workers p ! wake = Asleep \<Longrightarrow>
    thread_pool_submit (Some a) wake (Some p) (Some w) = (0, Some p') \<Longrightarrow> pool_step p (Submit w) p'"
| take: "i < length (tp_workers p) \<Longrightarrow> tp_workers p ! i = At_top \<Longrightarrow>
    worker_section (tp_shutdown p) (tp_queue p) = (Running a, q) \<Longrightarrow>
    pool_step p (Take i (work_at (tp_queue p) a)) (p\<lparr>tp_queue := q, tp_workers := (tp_workers p)[i := Running a]\<rparr>)"
| sleep: "i < length (tp_workers p) \<Longrightarrow> tp_workers p ! i = At_top \<Longrightarrow>
    worker_section (tp_shutdown p) (tp_queue p) = (Asleep, q) \<Longrightarrow>
    pool_step p (Sleep i) (p\<lparr>tp_queue := q, tp_workers := (tp_workers p)[i := Asleep]\<rparr>)"
| leave: "i < length (tp_workers p) \<Longrightarrow> tp_workers p ! i = At_top \<Longrightarrow>
    worker_section (tp_shutdown p) (tp_queue p) = (Gone, q) \<Longrightarrow>
    pool_step p (Leave i) (p\<lparr>tp_queue := q, tp_workers := (tp_workers p)[i := Gone]\<rparr>)"
| done_work: "i < length (tp_workers p) \<Longrightarrow> tp_workers p ! i = Running a \<Longrightarrow>
    worker_done a (tp_queue p) = (w, q) \<Longrightarrow>
    pool_step p (Done i) (p\<lparr>tp_queue := q, tp_workers := (tp_workers p)[i := w]\<rparr>)"
| wake: "i < length (tp_workers p) \<Longrightarrow> tp_workers p ! i = Asleep \<Longrightarrow>
    pool_step p (Wake i) (p\<lparr>tp_workers := (tp_workers p)[i := At_top]\<rparr>)"
| destroy: "pool_step p Destroy (destroy_signal p)"

text \<open>The last rule but one is the spurious wakeup that the condition variable allows.\<close>

inductive pool_run :: "thread_pool \<Rightarrow> pool_event list \<Rightarrow> thread_pool \<Rightarrow> bool" where
  run_start: "pool_run p [] p"
| run_step: "pool_run p es p1 \<Longrightarrow> pool_step p1 e p2 \<Longrightarrow> pool_run p (es @ [e]) p2"

definition submitted :: "pool_event list \<Rightarrow> work list" where
  "submitted es = concat (map (\<lambda>e. case e of Submit w \<Rightarrow> [w] | _ \<Rightarrow> []) es)"

definition started :: "pool_event list \<Rightarrow> work list" where
  "started es = concat (map (\<lambda>e. case e of Take i w \<Rightarrow> [w] | _ \<Rightarrow> []) es)"

subsection \<open>The pool's invariant\<close>

definition held :: "worker \<Rightarrow> addr list" where
  "held w = (case w of Running a \<Rightarrow> [a] | _ \<Rightarrow> [])"

definition running :: "worker list \<Rightarrow> addr list" where
  "running ws = concat (map held ws)"

text \<open>The queue has its shape; the heap holds exactly the queued items and those being
  executed, each by one worker and not queued any more; nobody sleeps after the shutdown and
  nobody leaves before it; and while there is work somebody is awake.\<close>

definition pool_wf :: "thread_pool \<Rightarrow> bool" where
  "pool_wf p \<longleftrightarrow>
     queue_wf (tp_queue p) \<and>
     distinct (queue_addrs (tp_queue p) @ running (tp_workers p)) \<and>
     dom (wq_heap (tp_queue p)) = set (queue_addrs (tp_queue p) @ running (tp_workers p)) \<and>
     (tp_shutdown p \<noteq> 0 \<longrightarrow> Asleep \<notin> set (tp_workers p)) \<and>
     (tp_shutdown p = 0 \<longrightarrow> Gone \<notin> set (tp_workers p)) \<and>
     (tp_shutdown p = 0 \<and> tp_workers p \<noteq> [] \<and> queue_addrs (tp_queue p) \<noteq> [] \<longrightarrow>
        (\<exists>w\<in>set (tp_workers p). w \<noteq> Asleep))"

lemma held_simps [simp]: "held (Running a) = [a]" "held At_top = []" "held Asleep = []" "held Gone = []"
  by (simp_all add: held_def)

lemma running_simps [simp]: "running [] = []" "running (xs @ ys) = running xs @ running ys"
  "running (w # ws) = held w @ running ws"
  by (simp_all add: running_def)

lemma split_at:
  assumes "i < length ws"
  obtains xs ys where "ws = xs @ ws ! i # ys" "\<And>w. ws[i := w] = xs @ w # ys"
  using that [of "take i ws" "drop (Suc i) ws"] id_take_nth_drop [OF assms] upd_conv_take_nth_drop [OF assms]
  by simp

lemma worker_section_cases:
  assumes "queue_wf q"
  shows "worker_section sd q =
    (if sd \<noteq> 0 then (Gone, q)
     else case queue_addrs q of [] \<Rightarrow> (Asleep, q) | a # as \<Rightarrow> (Running a, snd (the (dequeue q))))"
proof -
  note q = queue_wf_obtain [OF assms]
  have c: "wq_count q = int (length (queue_addrs q))" using q by (simp add: queue_at_def)
  show ?thesis
    using deq_work_cases [OF assms] c by (cases "queue_addrs q") (auto simp: worker_section_def)
qed

lemma wf_worker_change:
  assumes "pool_wf p" "i < length (tp_workers p)" "held w = held (tp_workers p ! i)"
    and "tp_shutdown p \<noteq> 0 \<Longrightarrow> w \<noteq> Asleep" "tp_shutdown p = 0 \<Longrightarrow> w \<noteq> Gone"
    and "w = Asleep \<Longrightarrow> queue_addrs (tp_queue p) = []"
  shows "pool_wf (p\<lparr>tp_workers := (tp_workers p)[i := w]\<rparr>)"
proof -
  obtain xs ys where ws: "tp_workers p = xs @ tp_workers p ! i # ys" "(tp_workers p)[i := w] = xs @ w # ys"
    using split_at [OF assms(2)] by metis
  have "running ((tp_workers p)[i := w]) = running (tp_workers p)"
    using assms(3) by (subst (2) ws(1)) (simp add: ws(2))
  moreover have "set ((tp_workers p)[i := w]) \<subseteq> insert w (set (tp_workers p))"
    by (rule set_update_subset_insert)
  moreover have "w \<in> set ((tp_workers p)[i := w])" by (simp add: ws(2))
  ultimately show ?thesis
    using assms(1,4,5,6) unfolding pool_wf_def by (cases "w = Asleep") auto
qed

lemma wf_signal: "pool_wf p \<Longrightarrow> pool_wf (p\<lparr>tp_workers := cond_signal i (tp_workers p)\<rparr>)"
  using wf_worker_change [of p i At_top] by (simp add: cond_signal_def)

lemma wf_submit:
  assumes "pool_wf p" "can_enqueue a (tp_queue p)"
    and "(\<exists>j<length (tp_workers p). tp_workers p ! j = Asleep) \<longrightarrow>
      wake < length (tp_workers p) \<and> tp_workers p ! wake = Asleep"
  shows "pool_wf (p\<lparr>tp_queue := enqueue a w (tp_queue p), tp_workers := cond_signal wake (tp_workers p)\<rparr>)"
proof -
  let ?q = "tp_queue p" and ?ws = "cond_signal wake (tp_workers p)"
  have wf: "pool_wf (p\<lparr>tp_workers := ?ws\<rparr>)" using wf_signal [OF assms(1)] .
  have q: "queue_wf ?q" "wq_heap ?q a = None" using assms(1,2) by (simp_all add: pool_wf_def can_enqueue_def)
  note e = enqueue_at [where w = w, OF queue_wf_obtain [OF q(1)] assms(2)]
  have addrs: "queue_addrs (enqueue a w ?q) = queue_addrs ?q @ [a]" by (rule queue_at_addrs [OF e(1)])
  have "a \<notin> dom (wq_heap ?q)" using q(2) by auto
  then have new: "a \<notin> set (queue_addrs ?q @ running ?ws)" using wf by (simp add: pool_wf_def)
  have awake: "\<exists>w\<in>set ?ws. w \<noteq> Asleep" if "tp_workers p \<noteq> []"
  proof (cases "\<exists>j<length (tp_workers p). tp_workers p ! j = Asleep")
    case True
    with assms(3) have "At_top \<in> set ?ws" by (auto simp: cond_signal_def set_update_memI)
    then show ?thesis by blast
  next
    case False
    then have "Asleep \<notin> set (tp_workers p)" by (metis in_set_conv_nth)
    moreover have "?ws = tp_workers p" using False by (auto simp: cond_signal_def)
    ultimately show ?thesis using that by (metis list.set_intros(1) neq_Nil_conv)
  qed
  have "?ws = [] \<longleftrightarrow> tp_workers p = []" by (simp add: cond_signal_def)
  with wf awake new e(4) queue_wf_at [OF e(1)] show ?thesis
    by (auto simp: pool_wf_def addrs)
qed

lemma wf_take:
  assumes "pool_wf p" "i < length (tp_workers p)" "tp_workers p ! i = At_top"
    and "worker_section (tp_shutdown p) (tp_queue p) = (Running a, q)"
  shows "pool_wf (p\<lparr>tp_queue := q, tp_workers := (tp_workers p)[i := Running a]\<rparr>)"
    and "deq_work (tp_queue p) = Some (work_at (tp_queue p) a, q)"
proof -
  have wf: "queue_wf (tp_queue p)" using assms(1) by (simp add: pool_wf_def)
  from assms(4) obtain as where as: "queue_addrs (tp_queue p) = a # as" "q = snd (the (dequeue (tp_queue p)))"
    "tp_shutdown p = 0"
    by (auto simp: worker_section_cases [OF wf] split: if_splits list.splits)
  from deq_work_cases(2) [OF wf as(1)] as(2) have q: "deq_work (tp_queue p) = Some (work_at (tp_queue p) a, q)"
    "queue_wf q" "queue_addrs q = as" "wq_heap q = wq_heap (tp_queue p)" by auto
  then show "deq_work (tp_queue p) = Some (work_at (tp_queue p) a, q)" by simp
  obtain xs ys where ws: "tp_workers p = xs @ tp_workers p ! i # ys" "(tp_workers p)[i := Running a] = xs @ Running a # ys"
    using split_at [OF assms(2)] by metis
  have "running (tp_workers p) = running xs @ running ys"
    by (subst ws(1)) (simp add: assms(3))
  moreover have "Gone \<notin> set (xs @ Running a # ys)"
    using assms(1) as(3) ws(1) assms(3) by (auto simp: pool_wf_def)
  ultimately show "pool_wf (p\<lparr>tp_queue := q, tp_workers := (tp_workers p)[i := Running a]\<rparr>)"
    using assms(1) q as(1,3) by (auto simp: pool_wf_def ws(2))
qed

lemma wf_done:
  assumes "pool_wf p" "i < length (tp_workers p)" "tp_workers p ! i = Running a"
  shows "pool_wf (p\<lparr>tp_queue := free_item a (tp_queue p), tp_workers := (tp_workers p)[i := At_top]\<rparr>)"
    and "free_other (tp_queue p) (free_item a (tp_queue p))"
proof -
  obtain xs ys where ws: "tp_workers p = xs @ tp_workers p ! i # ys" "(tp_workers p)[i := At_top] = xs @ At_top # ys"
    using split_at [OF assms(2)] by metis
  have run: "running (tp_workers p) = running xs @ a # running ys"
    by (subst ws(1)) (simp add: assms(3))
  have "a \<notin> set (queue_addrs (tp_queue p))" using assms(1) run by (simp add: pool_wf_def)
  moreover have "queue_at (tp_queue p) (queue_addrs (tp_queue p))"
    using assms(1) by (simp add: pool_wf_def queue_wf_obtain)
  ultimately have q: "queue_at (free_item a (tp_queue p)) (queue_addrs (tp_queue p))"
    by (intro free_item_at)
  have heap: "wq_heap (free_item a (tp_queue p)) = (wq_heap (tp_queue p))(a := None)" by (simp add: free_item_def)
  have "set (xs @ At_top # ys) \<subseteq> insert At_top (set (tp_workers p))"
    by (subst ws(1)) auto
  then show "pool_wf (p\<lparr>tp_queue := free_item a (tp_queue p), tp_workers := (tp_workers p)[i := At_top]\<rparr>)"
    using assms(1) run queue_at_addrs [OF q] queue_wf_at [OF q]
    by (auto simp: pool_wf_def heap ws(2))
  show "free_other (tp_queue p) (free_item a (tp_queue p))"
    using \<open>a \<notin> set (queue_addrs (tp_queue p))\<close> by (auto simp: free_other_def)
qed

lemma wf_destroy: "pool_wf p \<Longrightarrow> pool_wf (destroy_signal p)"
proof -
  assume wf: "pool_wf p"
  have "running (cond_broadcast ws) = running ws" for ws
    by (induction ws) (auto simp: cond_broadcast_def)
  moreover have "Asleep \<notin> set (cond_broadcast ws)" for ws
    by (auto simp: cond_broadcast_def)
  ultimately show ?thesis using wf by (simp add: pool_wf_def destroy_signal_def)
qed

text \<open>Every step keeps the invariant, and moves the queue by one insertion, one removal, or
  not at all.\<close>

lemma pool_step_wf:
  assumes "pool_step p e p'" "pool_wf p"
  shows "pool_wf p'"
    and "case e of
        Submit w \<Rightarrow> \<exists>a. can_enqueue a (tp_queue p) \<and> tp_queue p' = enqueue a w (tp_queue p)
      | Take i w \<Rightarrow> deq_work (tp_queue p) = Some (w, tp_queue p')
      | _ \<Rightarrow> tp_queue p' = tp_queue p \<or> free_other (tp_queue p) (tp_queue p')"
proof -
  have wf: "queue_wf (tp_queue p)" using assms(2) by (simp add: pool_wf_def)
  have "pool_wf p' \<and> (case e of
        Submit w \<Rightarrow> \<exists>a. can_enqueue a (tp_queue p) \<and> tp_queue p' = enqueue a w (tp_queue p)
      | Take i w \<Rightarrow> deq_work (tp_queue p) = Some (w, tp_queue p')
      | _ \<Rightarrow> tp_queue p' = tp_queue p \<or> free_other (tp_queue p) (tp_queue p'))"
    using assms(1)
  proof cases
    case (submit a wake w)
    then have "p' = p\<lparr>tp_queue := enqueue a w (tp_queue p), tp_workers := cond_signal wake (tp_workers p)\<rparr>"
      by (simp add: thread_pool_submit_def)
    with submit wf_submit [OF assms(2) submit(2,3), of w] show ?thesis by auto
  next
    case (take i a q)
    with wf_take [OF assms(2) take(3,4,5)] show ?thesis by simp
  next
    case (sleep i q)
    then have "q = tp_queue p" "queue_addrs (tp_queue p) = []" "tp_shutdown p = 0"
      by (auto simp: worker_section_cases [OF wf] split: if_splits list.splits)
    with sleep wf_worker_change [OF assms(2) sleep(3), of Asleep] show ?thesis by simp
  next
    case (leave i q)
    then have "q = tp_queue p" "tp_shutdown p \<noteq> 0"
      by (auto simp: worker_section_cases [OF wf] split: if_splits list.splits)
    with leave wf_worker_change [OF assms(2) leave(3), of Gone] show ?thesis by simp
  next
    case (done_work i a w q)
    with wf_done [OF assms(2) done_work(3,4)] show ?thesis by (simp add: worker_done_def)
  next
    case (wake i)
    with wf_worker_change [OF assms(2) wake(3), of At_top] show ?thesis by simp
  next
    case destroy
    with wf_destroy [OF assms(2)] show ?thesis by (simp add: destroy_signal_def)
  qed
  then show "pool_wf p'" "case e of
        Submit w \<Rightarrow> \<exists>a. can_enqueue a (tp_queue p) \<and> tp_queue p' = enqueue a w (tp_queue p)
      | Take i w \<Rightarrow> deq_work (tp_queue p) = Some (w, tp_queue p')
      | _ \<Rightarrow> tp_queue p' = tp_queue p \<or> free_other (tp_queue p) (tp_queue p')" by blast+
qed

definition queue_event :: "pool_event \<Rightarrow> work queue_event list" where
  "queue_event e = (case e of Submit w \<Rightarrow> [Put w] | Take i w \<Rightarrow> [Got w] | _ \<Rightarrow> [])"

lemma submitted_snoc [simp]:
  "submitted [] = []" "started [] = []"
  "submitted (es @ [e]) = submitted es @ puts (queue_event e)"
  "started (es @ [e]) = started es @ gots (queue_event e)"
  by (cases e; simp add: submitted_def started_def queue_event_def puts_def gots_def)+

lemma pool_run_wf:
  "pool_run p es p' \<Longrightarrow> pool_wf p \<Longrightarrow> pool_wf p' \<and>
     (\<exists>qs. queue_trace enqueue deq_work can_enqueue free_other (tp_queue p) qs (tp_queue p') \<and>
        puts qs = submitted es \<and> gots qs = started es)"
proof (induction rule: pool_run.induct)
  case (run_start p)
  then show ?case by (intro conjI exI [of _ "[]"]) (simp_all add: queue_trace.start)
next
  case (run_step p es p1 e p2)
  then obtain qs where qs: "queue_trace enqueue deq_work can_enqueue free_other (tp_queue p) qs (tp_queue p1)"
    "puts qs = submitted es" "gots qs = started es" and wf: "pool_wf p1" by blast
  note step = pool_step_wf [OF run_step.hyps(2) wf]
  have "queue_trace enqueue deq_work can_enqueue free_other (tp_queue p) (qs @ queue_event e) (tp_queue p2)"
    using step(2) queue_trace.put [OF qs(1)] queue_trace.got [OF qs(1)] queue_trace.tidied [OF qs(1)] qs(1)
    by (cases e) (auto simp: queue_event_def)
  moreover have "puts (qs @ queue_event e) = puts qs @ puts (queue_event e)"
    "gots (qs @ queue_event e) = gots qs @ gots (queue_event e)"
    by (simp_all add: puts_def gots_def)
  ultimately show ?case using step(1) qs(2,3) by auto
qed

lemma create_wf:
  assumes "thread_pool_create m1 m2 created n = Some p"
  shows "pool_wf p" "queue_items (tp_queue p) = []" "length (tp_workers p) = nat n" "tp_shutdown p = 0"
proof -
  have p: "p = \<lparr>tp_queue = empty_queue, tp_shutdown = 0, tp_workers = replicate (nat n) At_top\<rparr>"
    using assms by (auto simp: thread_pool_create_def split: if_splits)
  have q: "queue_at empty_queue []" by (simp add: queue_at_def empty_queue_def)
  have "running (replicate k At_top) = []" for k by (induction k) simp_all
  then show "pool_wf p" "queue_items (tp_queue p) = []" "length (tp_workers p) = nat n" "tp_shutdown p = 0"
    using queue_at_addrs [OF q] queue_wf_at [OF q]
    by (auto simp: pool_wf_def p queue_items_def) (auto simp: empty_queue_def)
qed

subsection \<open>Shutting down\<close>

definition rank :: "worker \<Rightarrow> nat" where
  "rank w = (case w of Running a \<Rightarrow> 2 | At_top \<Rightarrow> 1 | _ \<Rightarrow> 0)"

definition work_left :: "worker list \<Rightarrow> nat" where
  "work_left ws = sum_list (map rank ws)"

definition worker_event :: "pool_event \<Rightarrow> bool" where
  "worker_event e \<longleftrightarrow> (case e of Submit w \<Rightarrow> False | Destroy \<Rightarrow> False | _ \<Rightarrow> True)"

lemma work_left_update:
  assumes "i < length ws" "rank w < rank (ws ! i)"
  shows "work_left (ws[i := w]) < work_left ws"
proof -
  obtain xs ys where ws: "ws = xs @ ws ! i # ys" "ws[i := w] = xs @ w # ys"
    using split_at [OF assms(1)] by metis
  have "work_left ws = work_left xs + rank (ws ! i) + work_left ys"
    by (subst ws(1)) (simp add: work_left_def)
  then show ?thesis using assms(2) by (simp add: ws(2) work_left_def)
qed

lemma shutdown_step:
  assumes "pool_step p e p'" "pool_wf p" "tp_shutdown p \<noteq> 0" "worker_event e"
  shows "work_left (tp_workers p') < work_left (tp_workers p)" "tp_shutdown p' \<noteq> 0"
    and "length (tp_workers p') = length (tp_workers p)"
proof -
  have wf: "queue_wf (tp_queue p)" using assms(2) by (simp add: pool_wf_def)
  have no: "tp_workers p ! i \<noteq> Asleep" if "i < length (tp_workers p)" for i
    using assms(2,3) that by (auto simp: pool_wf_def in_set_conv_nth)
  have "work_left (tp_workers p') < work_left (tp_workers p) \<and> tp_shutdown p' \<noteq> 0 \<and>
      length (tp_workers p') = length (tp_workers p)"
    using assms(1)
  proof cases
    case (done_work i a w q)
    with assms(3) show ?thesis by (simp add: work_left_update rank_def worker_done_def)
  next
    case (leave i q)
    with assms(3) show ?thesis by (simp add: work_left_update rank_def)
  next
    case (take i a q)
    with assms(3) show ?thesis by (simp add: worker_section_cases [OF wf])
  next
    case (sleep i q)
    with assms(3) show ?thesis by (simp add: worker_section_cases [OF wf])
  next
    case (wake i)
    with no show ?thesis by simp
  qed (use assms(4) in \<open>simp_all add: worker_event_def\<close>)
  then show "work_left (tp_workers p') < work_left (tp_workers p)" "tp_shutdown p' \<noteq> 0"
    "length (tp_workers p') = length (tp_workers p)" by blast+
qed

lemma shutdown_run:
  "pool_run p es p' \<Longrightarrow> pool_wf p \<Longrightarrow> tp_shutdown p \<noteq> 0 \<Longrightarrow> \<forall>e\<in>set es. worker_event e \<Longrightarrow>
     length es + work_left (tp_workers p') \<le> work_left (tp_workers p) \<and> tp_shutdown p' \<noteq> 0"
proof (induction rule: pool_run.induct)
  case (run_step p es p1 e p2)
  then have "pool_wf p1" using pool_run_wf by blast
  with run_step shutdown_step [OF run_step.hyps(2)] show ?case by simp
qed simp

lemma work_left_bound: "work_left ws \<le> 2 * length ws"
  by (induction ws) (auto simp: work_left_def rank_def split: worker.split)

lemma shutdown_continue:
  assumes "pool_wf p" "tp_shutdown p \<noteq> 0" "\<exists>w\<in>set (tp_workers p). w \<noteq> Gone"
  shows "\<exists>e p'. pool_step p e p' \<and> worker_event e \<and> gots (queue_event e) = []"
proof -
  from assms(3) obtain i where i: "i < length (tp_workers p)" "tp_workers p ! i \<noteq> Gone"
    by (auto simp: in_set_conv_nth)
  have wf: "queue_wf (tp_queue p)" using assms(1) by (simp add: pool_wf_def)
  have "tp_workers p ! i \<noteq> Asleep" using assms(1,2) i(1) by (auto simp: pool_wf_def in_set_conv_nth)
  then consider "tp_workers p ! i = At_top" | a where "tp_workers p ! i = Running a"
    using i(2) by (cases "tp_workers p ! i") auto
  then show ?thesis
  proof cases
    case 1
    have "worker_section (tp_shutdown p) (tp_queue p) = (Gone, tp_queue p)"
      using assms(2) by (simp add: worker_section_cases [OF wf])
    from pool_step.leave [OF i(1) 1 this] show ?thesis
      by (intro exI [of _ "Leave i"] exI) (auto simp: worker_event_def queue_event_def)
  next
    case 2
    from pool_step.done_work [OF i(1) 2 worker_done_def] show ?thesis
      by (intro exI [of _ "Done i"] exI) (auto simp: worker_event_def queue_event_def)
  qed
qed

lemma shutdown_complete:
  assumes "pool_wf p" "tp_shutdown p \<noteq> 0"
  shows "\<exists>es p'. pool_run p es p' \<and> (\<forall>e\<in>set es. worker_event e) \<and> started es = [] \<and>
    (\<forall>w\<in>set (tp_workers p'). w = Gone)"
proof -
  have "\<exists>es' p'. pool_run p (es @ es') p' \<and> (\<forall>e\<in>set (es @ es'). worker_event e) \<and> started (es @ es') = [] \<and>
      (\<forall>w\<in>set (tp_workers p'). w = Gone)"
    if "pool_run p es p1" "\<forall>e\<in>set es. worker_event e" "started es = []" for es p1
    using that
  proof (induction "work_left (tp_workers p1)" arbitrary: es p1 rule: less_induct)
    case less
    have wf: "pool_wf p1" using pool_run_wf [OF less.prems(1) assms(1)] by blast
    have sd: "tp_shutdown p1 \<noteq> 0" using shutdown_run [OF less.prems(1) assms less.prems(2)] by blast
    show ?case
    proof (cases "\<exists>w\<in>set (tp_workers p1). w \<noteq> Gone")
      case True
      from shutdown_continue [OF wf sd this] obtain e p2 where
        e: "pool_step p1 e p2" "worker_event e" "gots (queue_event e) = []" by blast
      have "work_left (tp_workers p2) < work_left (tp_workers p1)"
        by (rule shutdown_step(1) [OF e(1) wf sd e(2)])
      from less.hyps [OF this pool_run.run_step [OF less.prems(1) e(1)]] less.prems(2,3) e(2,3)
      obtain es' p' where "pool_run p ((es @ [e]) @ es') p'" "\<forall>x\<in>set ((es @ [e]) @ es'). worker_event x"
        "started ((es @ [e]) @ es') = []" "\<forall>w\<in>set (tp_workers p'). w = Gone" by auto
      then show ?thesis by (intro exI [of _ "e # es'"] exI [of _ p']) simp
    next
      case False
      with less.prems show ?thesis by (intro exI [of _ "[]"] exI [of _ p1]) simp
    qed
  qed
  from this [OF pool_run.run_start] show ?thesis by (simp add: started_def)
qed

lemma free_items_path:
  "path (wq_heap q) item as \<Longrightarrow> distinct as \<Longrightarrow> \<exists>q'. free_items item q = Some q' \<and> wq_heap q' = (wq_heap q) |` (- set as)"
proof (induction as arbitrary: item q)
  case Nil
  then show ?case by (simp add: free_items.simps [of None])
next
  case (Cons a as)
  then obtain it where a: "item = Some a" "wq_heap q a = Some it" "path (wq_heap q) (wi_next it) as" by auto
  have "path (wq_heap (free_item a q)) (wi_next it) as"
    using a(3) Cons.prems(2) path_frame [of "wq_heap q" "wi_next it" as a None] by (simp add: free_item_def)
  with Cons.IH Cons.prems(2) obtain q' where
    q': "free_items (wi_next it) (free_item a q) = Some q'" "wq_heap q' = (wq_heap (free_item a q)) |` (- set as)" by auto
  have "free_items item q = Some q'" using a(1,2) q'(1) by (simp add: free_items.simps [of "Some a"])
  moreover have "wq_heap q' = (wq_heap q) |` (- set (a # as))"
    unfolding q'(2) by (auto simp: free_item_def restrict_map_def fun_eq_iff)
  ultimately show ?case by blast
qed

lemma destroy_frees_all:
  assumes "pool_wf p" "\<forall>w\<in>set (tp_workers p). w = Gone"
  shows "\<exists>q. destroy_finish p = Some q \<and> wq_heap q = Map.empty"
proof -
  let ?as = "queue_addrs (tp_queue p)"
  have "running ws = []" if "\<forall>w\<in>set ws. w = Gone" for ws using that by (induction ws) auto
  then have dom: "dom (wq_heap (tp_queue p)) = set ?as" "queue_at (tp_queue p) ?as"
    using assms by (auto simp: pool_wf_def intro: queue_wf_obtain)
  then obtain q where "destroy_finish p = Some q" "wq_heap q = (wq_heap (tp_queue p)) |` (- set ?as)"
    using free_items_path [of "tp_queue p" "wq_head (tp_queue p)" ?as] by (auto simp: destroy_finish_def queue_at_def)
  with dom(1) show ?thesis by (auto simp: restrict_map_def fun_eq_iff domIff)
qed

subsection \<open>Properties\<close>

text \<open>A pool of one worker with one item submitted.\<close>

definition demo_pool :: thread_pool where
  "demo_pool = \<lparr>tp_queue = empty_queue, tp_shutdown = 0, tp_workers = [At_top]\<rparr>"

definition demo_busy :: thread_pool where
  "demo_busy = demo_pool\<lparr>tp_queue := enqueue 9 (5, 6) empty_queue\<rparr>"

lemma demo_create: "thread_pool_create True True (\<lambda>_. True) 1 = Some demo_pool"
  by (simp add: thread_pool_create_def demo_pool_def)

lemma demo_run: "pool_run demo_pool [Submit (5, 6)] demo_busy"
proof -
  have "pool_step demo_pool (Submit (5, 6)) demo_busy"
    by (rule pool_step.submit [of 9 demo_pool 0])
      (simp_all add: demo_pool_def demo_busy_def can_enqueue_def empty_queue_def thread_pool_submit_def cond_signal_def)
  from pool_run.run_step [OF pool_run.run_start this] show ?thesis by simp
qed

lemma demo_busy_items: "queue_items (tp_queue demo_busy) = [(5, 6)]"
  by (simp add: demo_busy_def demo_pool_def empty_queue_def enqueue_def queue_items_def queue_addrs_def
      work_at_def Let_def wrap32_nonneg_id)

text \<open>C4: exactly once, in order.  In every interleaving of submitters, workers, spurious
  wakeups and a shutdown, on a pool that \<open>thread_pool_create\<close> made, the work submitted so far is
  the work started so far followed by the contents of the queue: no item is lost, started
  twice or overtaken, and the linked list and the heap stay consistent.\<close>

theorem pool_fifo:
  assumes "thread_pool_create m1 m2 created n = Some p" "pool_run p es p'"
  shows "submitted es = started es @ queue_items (tp_queue p') \<and> pool_wf p'"
proof -
  note c = create_wf [OF assms(1)]
  from pool_run_wf [OF assms(2) c(1)] obtain qs where
    "queue_trace enqueue deq_work can_enqueue free_other (tp_queue p) qs (tp_queue p')"
    "puts qs = submitted es" "gots qs = started es" "pool_wf p'" by blast
  moreover have "queue_wf (tp_queue p)" using c(1) by (simp add: pool_wf_def)
  ultimately show ?thesis using work_fifo.fifo [of "tp_queue p" qs "tp_queue p'"] c(2) by simp
qed

theorem pool_fifo_witness:
  "pool_run demo_pool [Submit (5, 6)] demo_busy \<and> queue_items (tp_queue demo_busy) = [(5, 6)]"
proof -
  have "submitted [Submit (5, 6)] = [(5, 6)]" "started [Submit (5, 6)] = []"
    by (simp_all add: submitted_def started_def)
  with pool_fifo [OF demo_create demo_run] demo_run show ?thesis by simp
qed

text \<open>C17: no lost wakeup.  While the pool is not shut down and the queue holds work, some
  worker is awake, and from there the oldest item is the next one started, by that worker, as
  soon as it has finished what it is doing: sleeping workers never leave work behind.\<close>

theorem pool_no_lost_wakeup:
  assumes "thread_pool_create m1 m2 created n = Some p" "0 < n" "pool_run p es p'"
    and "tp_shutdown p' = 0" "queue_items (tp_queue p') = w # ws"
  shows "\<exists>i p2. pool_run p' [Take i w] p2 \<or> pool_run p' [Done i, Take i w] p2"
proof -
  note c = create_wf [OF assms(1)]
  have wf: "pool_wf p'" using pool_run_wf [OF assms(3) c(1)] by blast
  have len: "length (tp_workers p') = length (tp_workers p)" using assms(3)
  proof (induction rule: pool_run.induct)
    case (run_step p es p1 e p2)
    from run_step(2) have "length (tp_workers p2) = length (tp_workers p1)"
      by cases (auto simp: thread_pool_submit_def cond_signal_def destroy_signal_def cond_broadcast_def)
    with run_step show ?case by simp
  qed simp
  then have "tp_workers p' \<noteq> []" using c(3) assms(2) by auto
  moreover obtain a as where as: "queue_addrs (tp_queue p') = a # as" "work_at (tp_queue p') a = w"
    using assms(5) by (auto simp: queue_items_def)
  ultimately obtain x where "x \<in> set (tp_workers p')" "x \<noteq> Asleep" using wf assms(4) by (auto simp: pool_wf_def)
  then obtain i where i: "i < length (tp_workers p')" "tp_workers p' ! i = x" by (auto simp: in_set_conv_nth)
  have "x \<noteq> Gone" using wf assms(4) \<open>x \<in> _\<close> by (auto simp: pool_wf_def)
  have take: "\<exists>p2. pool_step p1 (Take i w) p2"
    if p1: "pool_wf p1" "tp_shutdown p1 = 0" "i < length (tp_workers p1)" "tp_workers p1 ! i = At_top"
      "queue_items (tp_queue p1) = w # ws" for p1
  proof -
    obtain b bs where b: "queue_addrs (tp_queue p1) = b # bs" "work_at (tp_queue p1) b = w"
      using p1(5) by (auto simp: queue_items_def)
    have "queue_wf (tp_queue p1)" using p1(1) by (simp add: pool_wf_def)
    then have "worker_section (tp_shutdown p1) (tp_queue p1) = (Running b, snd (the (dequeue (tp_queue p1))))"
      using b(1) p1(2) by (simp add: worker_section_cases)
    from pool_step.take [OF p1(3,4) this] b(2) show ?thesis by blast
  qed
  show ?thesis
  proof (cases x)
    case At_top
    with take [OF wf assms(4) i(1) _ assms(5)] i(2) obtain p2 where "pool_step p' (Take i w) p2" by blast
    from pool_run.run_step [OF pool_run.run_start this] show ?thesis by auto
  next
    case (Running b)
    with i(2) have r: "tp_workers p' ! i = Running b" by simp
    let ?p1 = "p'\<lparr>tp_queue := free_item b (tp_queue p'), tp_workers := (tp_workers p')[i := At_top]\<rparr>"
    have d: "pool_step p' (Done i) ?p1" by (rule pool_step.done_work [OF i(1) r worker_done_def])
    note s = pool_step_wf [OF d wf]
    have q: "queue_wf (tp_queue p')" using wf by (simp add: pool_wf_def)
    have "queue_items (tp_queue ?p1) = w # ws"
      using wf_done(2) [OF wf i(1) r] work_fifo.tidy_same [OF q, of "free_item b (tp_queue p')"] assms(5) by simp
    with take [OF s(1)] assms(4) i(1) obtain p2 where "pool_step ?p1 (Take i w) p2" by auto
    from pool_run.run_step [OF pool_run.run_step [OF pool_run.run_start d] this] show ?thesis by auto
  qed (use \<open>x \<noteq> Asleep\<close> \<open>x \<noteq> Gone\<close> in simp_all)
qed

theorem pool_no_lost_wakeup_witness:
  "\<exists>i p2. pool_run demo_busy [Take i (5, 6)] p2 \<or> pool_run demo_busy [Done i, Take i (5, 6)] p2"
  by (rule pool_no_lost_wakeup [OF demo_create _ demo_run _ demo_busy_items])
    (simp_all add: demo_busy_def demo_pool_def)

text \<open>C18: the shutdown ends.  Once \<open>thread_pool_destroy\<close> has broadcast, every run of the workers
  is finite (at most two steps a worker), it can always be completed to one in which all have
  left, no new item is started on the way, and the final loop then frees every item: the work
  still queued is dropped without being executed.\<close>

theorem pool_shutdown_ends:
  assumes "thread_pool_create m1 m2 created n = Some p" "pool_run p es p'" "tp_shutdown p' \<noteq> 0"
  shows "(\<forall>es2 p2. pool_run p' es2 p2 \<and> (\<forall>e\<in>set es2. worker_event e) \<longrightarrow> length es2 \<le> 2 * length (tp_workers p')) \<and>
    (\<exists>es2 p2. pool_run p' es2 p2 \<and> (\<forall>e\<in>set es2. worker_event e) \<and> started es2 = [] \<and>
       (\<forall>w\<in>set (tp_workers p2). w = Gone) \<and> (\<exists>q. destroy_finish p2 = Some q \<and> wq_heap q = Map.empty))"
proof
  have wf: "pool_wf p'" using pool_run_wf [OF assms(2) create_wf(1) [OF assms(1)]] by blast
  show "\<forall>es2 p2. pool_run p' es2 p2 \<and> (\<forall>e\<in>set es2. worker_event e) \<longrightarrow> length es2 \<le> 2 * length (tp_workers p')"
    using shutdown_run [OF _ wf assms(3)] work_left_bound [of "tp_workers p'"] by (meson add_leD1 order_trans)
  from shutdown_complete [OF wf assms(3)] obtain es2 p2 where
    r: "pool_run p' es2 p2" "\<forall>e\<in>set es2. worker_event e" "started es2 = []" "\<forall>w\<in>set (tp_workers p2). w = Gone" by blast
  have "pool_wf p2" using pool_run_wf [OF r(1) wf] by blast
  from destroy_frees_all [OF this r(4)] r
  show "\<exists>es2 p2. pool_run p' es2 p2 \<and> (\<forall>e\<in>set es2. worker_event e) \<and> started es2 = [] \<and>
       (\<forall>w\<in>set (tp_workers p2). w = Gone) \<and> (\<exists>q. destroy_finish p2 = Some q \<and> wq_heap q = Map.empty)" by blast
qed

theorem pool_shutdown_ends_witness:
  "\<exists>es2 p2. pool_run (destroy_signal demo_busy) es2 p2 \<and> started es2 = [] \<and>
     (\<exists>q. destroy_finish p2 = Some q \<and> wq_heap q = Map.empty)"
proof -
  have "pool_run demo_pool ([Submit (5, 6)] @ [Destroy]) (destroy_signal demo_busy)"
    by (rule pool_run.run_step [OF demo_run pool_step.destroy])
  moreover have "tp_shutdown (destroy_signal demo_busy) \<noteq> 0" by (simp add: destroy_signal_def)
  ultimately show ?thesis using pool_shutdown_ends [OF demo_create] by blast
qed

end
