(* ===== verification/Server.thy ===== *)
theory Server
  imports Handling Thread_Pool
begin

text \<open>
  The server of \<^verbatim>\<open>src/core/server.c\<close>: start-up and clean-up, the body of each of the
  three accept loops, and the interleaving of the accepting thread with the workers of the
  pool.  A connection is an object on the heap that the accepting thread hands to a worker by
  its address.  A run of \<open>handle_connection_worker\<close> is one step here: the calls it makes
  into the shared components are each atomic, but their interleaving with other connections
  is not modelled.
\<close>

record server =
  sv_proxy :: proxy
  sv_fd :: c_int
  sv_pool :: "thread_pool option"
  sv_epoll :: c_int
  sv_running :: c_int
  sv_conns :: "addr \<rightharpoonup> connection"
  sv_threads :: "addr list"

abbreviation sv_net :: "server \<Rightarrow> world" where
  "sv_net sv \<equiv> p_net (sv_proxy sv)"

definition on_server :: "(world \<Rightarrow> world) \<Rightarrow> server \<Rightarrow> server" where
  "on_server f sv = sv\<lparr>sv_proxy := (sv_proxy sv)\<lparr>p_net := f (sv_net sv)\<rparr>\<rparr>"

subsection \<open>Start and stop\<close>

text \<open>What the system calls of \<open>proxy_server_init\<close> answer.\<close>

record init_answers =
  ia_sock :: c_int
  ia_opt :: bool
  ia_pton :: "string \<Rightarrow> bool"
  ia_bind :: bool
  ia_listen :: bool
  ia_pool :: bool
  ia_threads :: bool
  ia_created :: "nat \<Rightarrow> bool"
  ia_epoll :: c_int
  ia_ctl :: bool

definition uses_pool :: "proxy_config \<Rightarrow> bool" where
  "uses_pool config \<longleftrightarrow> thread_model config = THREAD_MODEL_POOL \<or> thread_model config = THREAD_MODEL_HYBRID"

definition uses_epoll :: "proxy_config \<Rightarrow> bool" where
  "uses_epoll config \<longleftrightarrow> thread_model config = THREAD_MODEL_EVENT_DRIVEN \<or> thread_model config = THREAD_MODEL_HYBRID"

text \<open>A pool that was destroyed is \<^const>\<open>None\<close>; the code leaves a dangling pointer there on
  the failure paths, after which the program ends.\<close>

definition proxy_server_init :: "init_answers \<Rightarrow> proxy_config \<Rightarrow> server \<Rightarrow> c_int \<times> server" where
  "proxy_server_init ia config sv =
     (case create_server_socket (ia_sock ia) (ia_opt ia) (ia_pton ia) (ia_bind ia) (ia_listen ia)
             (bind_address config) (sv_net sv) of
        (fd, w) \<Rightarrow>
          (let sv = on_server (\<lambda>_. w) (sv\<lparr>sv_fd := fd\<rparr>) in
           if fd < 0 then (-1, sv)
           else
             let sv = (if uses_pool config then
                         sv\<lparr>sv_pool := thread_pool_create (ia_pool ia) (ia_threads ia) (ia_created ia) (num_threads config)\<rparr>
                       else sv)
             in if uses_pool config \<and> sv_pool sv = None then (-1, on_server (sys_close fd) sv)
                else if uses_epoll config then
                  let e = ia_epoll ia; sv = sv\<lparr>sv_epoll := e\<rparr>
                  in if e < 0 then (-1, on_server (sys_close fd) (sv\<lparr>sv_pool := None\<rparr>))
                     else
                       let sv = on_server (\<lambda>w. w\<lparr>open_fds := e # open_fds w\<rparr>) sv
                       in if \<not> ia_ctl ia then (-1, on_server (\<lambda>w. sys_close fd (sys_close e w)) (sv\<lparr>sv_pool := None\<rparr>))
                          else (0, sv)
                else (0, sv)))"

definition proxy_server_stop :: "server \<Rightarrow> server" where
  "proxy_server_stop sv = sv\<lparr>sv_running := 0\<rparr>"

definition proxy_server_cleanup :: "server \<Rightarrow> server" where
  "proxy_server_cleanup sv =
     (let sv = sv\<lparr>sv_pool := None\<rparr>;
          sv = (if 0 \<le> sv_epoll sv then (on_server (sys_close (sv_epoll sv)) sv)\<lparr>sv_epoll := -1\<rparr> else sv)
      in if 0 \<le> sv_fd sv then (on_server (sys_close (sv_fd sv)) sv)\<lparr>sv_fd := -1\<rparr> else sv)"

subsection \<open>Accepting\<close>

text \<open>A client that \<open>accept\<close> returned: its descriptor, whether and where the connection is
  allocated, the clock and the printed address.\<close>

record client =
  cl_fd :: c_int
  cl_addr :: "addr option"
  cl_now :: time_t
  cl_peer :: string

definition accept_client :: "client \<Rightarrow> server \<Rightarrow> addr option \<times> server" where
  "accept_client cl sv =
     (let w = (sv_net sv)\<lparr>open_fds := cl_fd cl # open_fds (sv_net sv)\<rparr>
      in case connection_create (cl_addr cl \<noteq> None) (cl_now cl) (cl_peer cl) (cl_fd cl) w of
        (None, w) \<Rightarrow> (None, on_server (\<lambda>_. sys_close (cl_fd cl) w) sv)
      | (Some conn, w) \<Rightarrow>
          (cl_addr cl, on_server (\<lambda>_. w) (sv\<lparr>sv_conns := (sv_conns sv)(the (cl_addr cl) \<mapsto> conn)\<rparr>)))"

definition destroy_at :: "addr \<Rightarrow> server \<Rightarrow> server" where
  "destroy_at a sv =
     on_server (connection_destroy (sv_conns sv a)) (sv\<lparr>sv_conns := (sv_conns sv)(a := None)\<rparr>)"

text \<open>The function pointer of the worker.\<close>

definition worker_function :: addr where "worker_function = 1"

definition submit_at :: "addr option \<Rightarrow> nat \<Rightarrow> addr \<Rightarrow> server \<Rightarrow> c_int \<times> server" where
  "submit_at m wake a sv =
     (case thread_pool_submit m wake (sv_pool sv) (Some (worker_function, a)) of
        (r, pool) \<Rightarrow> (r, sv\<lparr>sv_pool := pool\<rparr>))"

text \<open>The bodies of the loops after \<open>accept\<close>.  \<open>m\<close> and \<open>wake\<close> are the allocation and the
  wakeup of \<open>thread_pool_submit\<close>.\<close>

definition pool_accept :: "client \<Rightarrow> addr option \<Rightarrow> nat \<Rightarrow> server \<Rightarrow> server" where
  "pool_accept cl m wake sv =
     (case accept_client cl sv of
        (None, sv) \<Rightarrow> sv
      | (Some a, sv) \<Rightarrow>
          (case submit_at m wake a sv of (r, sv) \<Rightarrow> if r < 0 then destroy_at a sv else sv))"

definition hybrid_accept :: "client \<Rightarrow> addr option \<Rightarrow> nat \<Rightarrow> server \<Rightarrow> server" where
  "hybrid_accept cl m wake sv =
     (case accept_client cl sv of
        (None, sv) \<Rightarrow> sv
      | (Some a, sv) \<Rightarrow> snd (submit_at m wake a sv))"

definition perconn_accept :: "client \<Rightarrow> bool \<Rightarrow> server \<Rightarrow> server" where
  "perconn_accept cl created sv =
     (case accept_client cl sv of
        (None, sv) \<Rightarrow> sv
      | (Some a, sv) \<Rightarrow> if created then sv\<lparr>sv_threads := sv_threads sv @ [a]\<rparr> else destroy_at a sv)"

text \<open>A worker runs on the connection at \<open>a\<close>; \<^const>\<open>None\<close> is a use of memory that was freed, or
  a run that leaves the behaviour C defines.\<close>

definition run_worker :: "http_env \<Rightarrow> (c_int \<Rightarrow> u8 list) \<Rightarrow> addr \<Rightarrow> server \<Rightarrow> server option" where
  "run_worker env sockname a sv =
     (case sv_conns sv a of
        None \<Rightarrow> None
      | Some conn \<Rightarrow>
          map_option (\<lambda>P. sv\<lparr>sv_proxy := P, sv_conns := (sv_conns sv)(a := None)\<rparr>)
            (handle_connection_worker env sockname conn (sv_proxy sv)))"

definition event_accept ::
  "thread_model \<Rightarrow> http_env \<Rightarrow> (c_int \<Rightarrow> u8 list) \<Rightarrow> client \<Rightarrow> addr option \<Rightarrow> nat \<Rightarrow> server \<Rightarrow> server option" where
  "event_accept model env sockname cl m wake sv =
     (if model = THREAD_MODEL_HYBRID then Some (hybrid_accept cl m wake sv)
      else case accept_client cl sv of
        (None, sv) \<Rightarrow> Some sv
      | (Some a, sv) \<Rightarrow> run_worker env sockname a sv)"

subsection \<open>The event loop\<close>

text \<open>What \<open>epoll_wait\<close> brings: an event of the listening socket, on which \<open>accept\<close> fails or
  returns a client, or of another descriptor.  The script ends with the signal that stops the
  server.  In the hybrid model the workers run concurrently; the loop alone is the function
  below.\<close>

datatype poll_event = Other_event | Server_event "(client \<times> addr option \<times> nat) option"
datatype poll_answer = Poll_interrupted | Poll_failed | Polled "poll_event list"

fun handle_events ::
  "thread_model \<Rightarrow> http_env \<Rightarrow> (c_int \<Rightarrow> u8 list) \<Rightarrow> poll_event list \<Rightarrow> server \<Rightarrow> server option" where
  "handle_events model env sockname [] sv = Some sv"
| "handle_events model env sockname (Other_event # es) sv = handle_events model env sockname es sv"
| "handle_events model env sockname (Server_event None # es) sv = handle_events model env sockname es sv"
| "handle_events model env sockname (Server_event (Some (cl, m, wake)) # es) sv =
     (case event_accept model env sockname cl m wake sv of
        None \<Rightarrow> None
      | Some sv \<Rightarrow> handle_events model env sockname es sv)"

fun server_loop_event_driven ::
  "thread_model \<Rightarrow> http_env \<Rightarrow> (c_int \<Rightarrow> u8 list) \<Rightarrow> poll_answer list \<Rightarrow> server \<Rightarrow> (c_int \<times> server) option" where
  "server_loop_event_driven model env sockname [] sv = Some (0, proxy_server_stop sv)"
| "server_loop_event_driven model env sockname (a # as) sv =
     (if sv_running sv = 0 then Some (0, sv)
      else case a of
        Poll_interrupted \<Rightarrow> server_loop_event_driven model env sockname as sv
      | Poll_failed \<Rightarrow> Some (0, sv)
      | Polled es \<Rightarrow>
          (case handle_events model env sockname es sv of
             None \<Rightarrow> None
           | Some sv \<Rightarrow> server_loop_event_driven model env sockname as sv))"

subsection \<open>The concurrent servers\<close>

text \<open>The address of the connection of a work item.\<close>

definition conn_of :: "thread_pool \<Rightarrow> addr \<Rightarrow> addr" where
  "conn_of p x = snd (work_at (tp_queue p) x)"

text \<open>One step of the accepting thread or of a worker.  The kernel and the allocator answer
  with descriptors and addresses that are not in use.\<close>

inductive server_step :: "server \<Rightarrow> server \<Rightarrow> bool" where
  accept_error: "sv_running sv \<noteq> 0 \<Longrightarrow> server_step sv sv"
| accepts: "sv_running sv \<noteq> 0 \<Longrightarrow> sv_pool sv = Some p \<Longrightarrow>
    0 \<le> cl_fd cl \<Longrightarrow> cl_fd cl \<notin> set (open_fds (sv_net sv)) \<Longrightarrow>
    (\<forall>a. cl_addr cl = Some a \<longrightarrow> sv_conns sv a = None) \<Longrightarrow>
    (\<forall>x. m = Some x \<longrightarrow> can_enqueue x (tp_queue p)) \<Longrightarrow>
    (\<exists>j<length (tp_workers p). tp_workers p ! j = Asleep) \<longrightarrow>
      wake < length (tp_workers p) \<and> tp_workers p ! wake = Asleep \<Longrightarrow>
    server_step sv (pool_accept cl m wake sv)"
| stops: "server_step sv (proxy_server_stop sv)"
| schedules: "sv_pool sv = Some p \<Longrightarrow> pool_step p e p' \<Longrightarrow> (\<forall>w. e \<noteq> Submit w) \<Longrightarrow> (\<forall>i. e \<noteq> Done i) \<Longrightarrow>
    server_step sv (sv\<lparr>sv_pool := Some p'\<rparr>)"
| works: "sv_pool sv = Some p \<Longrightarrow> i < length (tp_workers p) \<Longrightarrow> tp_workers p ! i = Running x \<Longrightarrow>
    dial_ok (sv_net sv) \<Longrightarrow> env_fresh env (sv_proxy sv) \<Longrightarrow> run_worker env sockname (conn_of p x) sv = Some sv1 \<Longrightarrow>
    pool_step p (Done i) p' \<Longrightarrow> server_step sv (sv1\<lparr>sv_pool := Some p'\<rparr>)"

text \<open>The server with a thread per connection: the accepting thread, and the threads it has
  created, each known by its argument.\<close>

inductive perconn_step :: "server \<Rightarrow> server \<Rightarrow> bool" where
  p_accept_error: "sv_running sv \<noteq> 0 \<Longrightarrow> perconn_step sv sv"
| p_accepts: "sv_running sv \<noteq> 0 \<Longrightarrow> 0 \<le> cl_fd cl \<Longrightarrow> cl_fd cl \<notin> set (open_fds (sv_net sv)) \<Longrightarrow>
    (\<forall>a. cl_addr cl = Some a \<longrightarrow> sv_conns sv a = None) \<Longrightarrow> perconn_step sv (perconn_accept cl created sv)"
| p_stops: "perconn_step sv (proxy_server_stop sv)"
| p_works: "a \<in> set (sv_threads sv) \<Longrightarrow> dial_ok (sv_net sv) \<Longrightarrow> env_fresh env (sv_proxy sv) \<Longrightarrow>
    run_worker env sockname a sv = Some sv1 \<Longrightarrow>
    perconn_step sv (sv1\<lparr>sv_threads := remove1 a (sv_threads sv)\<rparr>)"

text \<open>\<open>proxy_server_start\<close>: the loop of the thread model runs until the signal, or until
  \<open>epoll_wait\<close> fails.  In the hybrid model only the accepting thread is described.\<close>

definition proxy_server_start ::
  "thread_model \<Rightarrow> http_env \<Rightarrow> (c_int \<Rightarrow> u8 list) \<Rightarrow> server \<Rightarrow> c_int \<Rightarrow> server \<Rightarrow> bool" where
  "proxy_server_start model env sockname sv r sv' \<longleftrightarrow>
     (if sv_fd sv < 0 then r = -1 \<and> sv' = sv
      else case model of
        THREAD_MODEL_EVENT_DRIVEN \<Rightarrow> (\<exists>as. server_loop_event_driven model env sockname as sv = Some (r, sv'))
      | THREAD_MODEL_HYBRID \<Rightarrow> (\<exists>as. server_loop_event_driven model env sockname as sv = Some (r, sv'))
      | THREAD_MODEL_POOL \<Rightarrow> server_step\<^sup>*\<^sup>* sv sv' \<and> sv_running sv' = 0 \<and> r = 0
      | THREAD_MODEL_PER_CONNECTION \<Rightarrow> perconn_step\<^sup>*\<^sup>* sv sv' \<and> sv_running sv' = 0 \<and> r = 0)"

text \<open>Every connection on the heap is held by exactly one of the tasks \<open>K\<close>, \<open>f\<close> being the
  connection of a task, and every open descriptor is one of \<open>base\<close> or the client of exactly
  one connection.\<close>

definition owned :: "c_int list \<Rightarrow> ('t \<Rightarrow> addr) \<Rightarrow> 't set \<Rightarrow> (addr \<rightharpoonup> connection) \<Rightarrow> c_int list \<Rightarrow> bool" where
  "owned base f K C fds \<longleftrightarrow> bij_betw f K (dom C) \<and>
     (\<forall>a c. C a = Some c \<longrightarrow> remote_fd c = -1 \<and> 0 \<le> client_fd c \<and> client_fd c \<notin> set base) \<and>
     inj_on (\<lambda>a. client_fd (the (C a))) (dom C) \<and> distinct fds \<and>
     set fds = set base \<union> (\<lambda>a. client_fd (the (C a))) ` dom C"

definition server_ok :: "c_int list \<Rightarrow> server \<Rightarrow> bool" where
  "server_ok base sv \<longleftrightarrow> (\<exists>p. sv_pool sv = Some p \<and> pool_wf p \<and>
     owned base (conn_of p) (dom (wq_heap (tp_queue p))) (sv_conns sv) (open_fds (sv_net sv)))"

definition perconn_ok :: "c_int list \<Rightarrow> server \<Rightarrow> bool" where
  "perconn_ok base sv \<longleftrightarrow> distinct (sv_threads sv) \<and>
     owned base (\<lambda>b. b) (set (sv_threads sv)) (sv_conns sv) (open_fds (sv_net sv))"

subsection \<open>No step loses a connection\<close>

lemma on_server_simps [simp]:
  "sv_net (on_server f sv) = f (sv_net sv)" "sv_pool (on_server f sv) = sv_pool sv"
  "sv_conns (on_server f sv) = sv_conns sv" "sv_fd (on_server f sv) = sv_fd sv"
  "sv_epoll (on_server f sv) = sv_epoll sv" "sv_threads (on_server f sv) = sv_threads sv"
  "sv_running (on_server f sv) = sv_running sv"
  by (simp_all add: on_server_def)

lemma enqueue_work:
  assumes "can_enqueue x q" "queue_wf q"
  shows "work_at (enqueue x w q) x = w" "b \<noteq> x \<Longrightarrow> work_at (enqueue x w q) b = work_at q b"
proof -
  note e = enqueue_at [OF queue_wf_obtain [OF assms(2)] assms(1)]
  show "work_at (enqueue x w q) x = w" by (rule e(2))
  show "work_at (enqueue x w q) b = work_at q b" if "b \<noteq> x"
    using that by (auto simp: enqueue_def Let_def work_at_def split: option.split)
qed

lemma idle_heap:
  assumes "pool_step p e p'" "\<forall>w. e \<noteq> Submit w" "\<forall>i. e \<noteq> Done i"
  shows "wq_heap (tp_queue p') = wq_heap (tp_queue p)"
  using assms by cases
    (auto simp: worker_section_def dequeue_def destroy_signal_def Let_def split: if_splits option.splits)

lemma owned_add:
  assumes "owned base f K C fds" "x \<notin> K" "C a = None" "g x = a" "\<And>b. b \<in> K \<Longrightarrow> g b = f b"
    and "client_fd c \<notin> set fds" "0 \<le> client_fd c" "remote_fd c = -1"
  shows "owned base g (insert x K) (C(a \<mapsto> c)) (client_fd c # fds)"
proof -
  note o = assms(1) [unfolded owned_def]
  let ?f = "\<lambda>b. client_fd (the (C b))" and ?g = "\<lambda>b. client_fd (the ((C(a \<mapsto> c)) b))"
  have g: "?g b = ?f b" if "b \<in> dom C" for b using that assms(3) by auto
  have dom: "dom (C(a \<mapsto> c)) = insert a (dom C)" by simp
  have a: "a \<notin> dom C" using assms(3) by auto
  have "bij_betw g K (dom C)" using o assms(5) by (subst bij_betw_cong [of _ _ f]) auto
  then have "bij_betw g (insert x K) (dom (C(a \<mapsto> c)))"
    unfolding dom using notIn_Un_bij_betw [of x _ g "dom C"] assms(2,4) a by simp
  moreover have img: "?g ` dom (C(a \<mapsto> c)) = insert (client_fd c) (?f ` dom C)"
    unfolding dom using g by (auto simp: image_iff)
  moreover have "inj_on ?g (dom (C(a \<mapsto> c)))"
  proof -
    have "inj_on ?g (dom C)" using o g by (subst inj_on_cong [of _ _ ?f]) auto
    moreover have "?g ` dom C = ?f ` dom C" using g by (intro image_cong) auto
    ultimately show ?thesis unfolding dom using a o assms(6) by auto
  qed
  ultimately show ?thesis using o assms(6-8) unfolding owned_def by (auto split: if_splits)
qed

lemma owned_remove:
  assumes "owned base f K C fds" "x \<in> K" "f x = a" "C a = Some c" "\<And>b. b \<in> K - {x} \<Longrightarrow> g b = f b"
  shows "owned base g (K - {x}) (C(a := None)) (remove1 (client_fd c) fds)"
proof -
  note o = assms(1) [unfolded owned_def]
  let ?f = "\<lambda>b. client_fd (the (C b))" and ?g = "\<lambda>b. client_fd (the ((C(a := None)) b))"
  have inj: "inj_on ?f (dom C)" using o by blast
  have dom: "dom (C(a := None)) = dom C - {a}" by auto
  have g: "?g b = ?f b" if "b \<in> dom C - {a}" for b using that by auto
  have "bij_betw f (K - {x}) (dom C - {a})"
    using bij_betw_DiffI [of f K "dom C" "{x}" "{a}"] o assms(2,3) domI [of C a c, OF assms(4)]
    by (simp add: bij_betw_singletonI)
  then have "bij_betw g (K - {x}) (dom (C(a := None)))"
    unfolding dom using assms(5) by (subst bij_betw_cong [of _ _ f]) auto
  moreover have "inj_on ?g (dom (C(a := None)))"
    unfolding dom using inj_on_subset [OF inj] g by (subst inj_on_cong [of _ _ ?f]) auto
  moreover have "?g ` dom (C(a := None)) = ?f ` dom C - {client_fd c}"
  proof -
    have "?g ` dom (C(a := None)) = ?f ` (dom C - {a})" unfolding dom using g by (intro image_cong) auto
    also have "\<dots> = ?f ` dom C - ?f ` {a}" using assms(4) by (intro inj_on_image_set_diff [OF inj]) auto
    finally show ?thesis using assms(4) by simp
  qed
  moreover have "client_fd c \<notin> set base" using o assms(4) by blast
  ultimately show ?thesis using o unfolding owned_def by (auto split: if_splits)
qed

lemma run_worker_owned:
  assumes "owned base f K (sv_conns sv) (open_fds (sv_net sv))" "x \<in> K" "\<And>b. b \<in> K - {x} \<Longrightarrow> g b = f b"
    and "dial_ok (sv_net sv)" "run_worker env sockname (f x) sv = Some sv1"
  shows "owned base g (K - {x}) (sv_conns sv1) (open_fds (sv_net sv1))" "sv_threads sv1 = sv_threads sv"
proof -
  from assms(5) obtain c P where c: "sv_conns sv (f x) = Some c"
    "handle_connection_worker env sockname c (sv_proxy sv) = Some P"
    "sv1 = sv\<lparr>sv_proxy := P, sv_conns := (sv_conns sv)(f x := None)\<rparr>"
    by (auto simp: run_worker_def split: option.splits)
  have cl: "remote_fd c = -1" "0 \<le> client_fd c" "client_fd c \<in> set (open_fds (sv_net sv))"
    using assms(1) c(1) by (auto simp: owned_def image_iff dom_def intro!: exI [of _ "f x"])
  then have fds: "open_fds (p_net P) = remove1 (client_fd c) (open_fds (sv_net sv))"
    using worker_closes(1) [OF c(2)] assms(4) by (simp add: fresh_conn_def)
  from owned_remove [OF assms(1,2) refl c(1) assms(3)] fds c(3)
  show "owned base g (K - {x}) (sv_conns sv1) (open_fds (sv_net sv1))" "sv_threads sv1 = sv_threads sv" by simp_all
qed

lemma accept_fails:
  assumes "accept_client cl sv = (None, sv')"
  shows "sv_pool sv' = sv_pool sv" "sv_conns sv' = sv_conns sv" "open_fds (sv_net sv') = open_fds (sv_net sv)"
    "sv_threads sv' = sv_threads sv" "sv_running sv' = sv_running sv" "dial_script (sv_net sv') = dial_script (sv_net sv)"
    "sv_fd sv' = sv_fd sv" "sv_epoll sv' = sv_epoll sv"
  using assms by (cases "cl_addr cl"; auto simp: accept_client_def connection_create_def sys_close_def Let_def)+

lemma accept_succeeds:
  assumes "accept_client cl sv = (Some a, sv')"
  obtains c where "client_fd c = cl_fd cl" "remote_fd c = -1" "cl_addr cl = Some a"
    "sv_pool sv' = sv_pool sv" "sv_conns sv' = (sv_conns sv)(a \<mapsto> c)"
    "open_fds (sv_net sv') = cl_fd cl # open_fds (sv_net sv)" "sv_threads sv' = sv_threads sv"
    "sv_running sv' = sv_running sv" "dial_script (sv_net sv') = dial_script (sv_net sv)" "sv_fd sv' = sv_fd sv"
    "sv_epoll sv' = sv_epoll sv"
  using assms that [of "\<lparr>client_fd = cl_fd cl, remote_fd = -1, created_at = cl_now cl, bytes_sent = 0,
    bytes_received = 0, client_ip = cl_peer cl, authenticated = 0\<rparr>"]
  by (cases "cl_addr cl") (auto simp: accept_client_def connection_create_def Let_def)

lemma submit_nothing: "submit_at None wake a sv = (-1, sv)"
  by (cases "sv_pool sv") (simp_all add: submit_at_def thread_pool_submit_def)

lemma submit_item:
  assumes "sv_pool sv = Some p"
  shows "submit_at (Some x) wake a sv = (0, sv\<lparr>sv_pool := Some (p\<lparr>tp_queue := enqueue x (worker_function, a) (tp_queue p),
    tp_workers := cond_signal wake (tp_workers p)\<rparr>)\<rparr>)"
  using assms by (simp add: submit_at_def thread_pool_submit_def)

lemma destroy_undoes:
  assumes "accept_client cl sv = (Some a, sv1)" "sv_conns sv a = None" "0 \<le> cl_fd cl"
  shows "sv_pool (destroy_at a sv1) = sv_pool sv" "sv_conns (destroy_at a sv1) = sv_conns sv"
    "open_fds (sv_net (destroy_at a sv1)) = open_fds (sv_net sv)"
proof -
  obtain c where c: "client_fd c = cl_fd cl" "remote_fd c = -1" "cl_addr cl = Some a"
    "sv_pool sv1 = sv_pool sv" "sv_conns sv1 = (sv_conns sv)(a \<mapsto> c)"
    "open_fds (sv_net sv1) = cl_fd cl # open_fds (sv_net sv)"
    using assms(1) by (rule accept_succeeds) (rule that)
  then show "sv_pool (destroy_at a sv1) = sv_pool sv" "sv_conns (destroy_at a sv1) = sv_conns sv"
    "open_fds (sv_net (destroy_at a sv1)) = open_fds (sv_net sv)"
    using assms(2,3) by (simp_all add: destroy_at_def connection_destroy_def sys_close_def fun_upd_idem)
qed

lemma pool_accept_fails:
  assumes "cl_addr cl = None \<or> m = None" "\<forall>a. cl_addr cl = Some a \<longrightarrow> sv_conns sv a = None" "0 \<le> cl_fd cl"
  shows "sv_pool (pool_accept cl m wake sv) = sv_pool sv" "sv_conns (pool_accept cl m wake sv) = sv_conns sv"
    "open_fds (sv_net (pool_accept cl m wake sv)) = open_fds (sv_net sv)"
proof -
  obtain x sv1 where a: "accept_client cl sv = (x, sv1)" by fastforce
  have "sv_pool (pool_accept cl m wake sv) = sv_pool sv \<and> sv_conns (pool_accept cl m wake sv) = sv_conns sv \<and>
    open_fds (sv_net (pool_accept cl m wake sv)) = open_fds (sv_net sv)"
  proof (cases x)
    case None
    with a accept_fails [of cl sv sv1] show ?thesis by (simp add: pool_accept_def)
  next
    case (Some b)
    with a have b: "cl_addr cl = Some b" by (auto elim: accept_succeeds)
    with assms(1) have "m = None" by simp
    with a Some destroy_undoes [of cl sv b sv1] assms(2,3) b show ?thesis
      by (simp add: pool_accept_def submit_nothing)
  qed
  then show "sv_pool (pool_accept cl m wake sv) = sv_pool sv" "sv_conns (pool_accept cl m wake sv) = sv_conns sv"
    "open_fds (sv_net (pool_accept cl m wake sv)) = open_fds (sv_net sv)" by blast+
qed

lemma accept_keeps:
  assumes "server_ok base sv" "sv_pool sv = Some p" "0 \<le> cl_fd cl" "cl_fd cl \<notin> set (open_fds (sv_net sv))"
    and "\<forall>a. cl_addr cl = Some a \<longrightarrow> sv_conns sv a = None" "\<forall>x. m = Some x \<longrightarrow> can_enqueue x (tp_queue p)"
    and "(\<exists>j<length (tp_workers p). tp_workers p ! j = Asleep) \<longrightarrow> wake < length (tp_workers p) \<and> tp_workers p ! wake = Asleep"
  shows "server_ok base (pool_accept cl m wake sv)"
proof (cases "cl_addr cl = None \<or> m = None")
  case True
  with pool_accept_fails [OF True assms(5,3)] assms(1) show ?thesis by (simp add: server_ok_def)
next
  case False
  then obtain a x where ax: "cl_addr cl = Some a" "m = Some x" by auto
  obtain sv1 where s: "accept_client cl sv = (Some a, sv1)"
    using ax(1) by (simp add: accept_client_def connection_create_def)
  then obtain c where c: "client_fd c = cl_fd cl" "remote_fd c = -1"
    "sv_pool sv1 = sv_pool sv" "sv_conns sv1 = (sv_conns sv)(a \<mapsto> c)"
    "open_fds (sv_net sv1) = cl_fd cl # open_fds (sv_net sv)" by (rule accept_succeeds) (rule that)
  let ?p = "p\<lparr>tp_queue := enqueue x (worker_function, a) (tp_queue p), tp_workers := cond_signal wake (tp_workers p)\<rparr>"
  have wf: "pool_wf p" and o: "owned base (conn_of p) (dom (wq_heap (tp_queue p))) (sv_conns sv) (open_fds (sv_net sv))"
    using assms(1,2) by (simp_all add: server_ok_def)
  then have q: "queue_wf (tp_queue p)" by (simp add: pool_wf_def)
  have can: "can_enqueue x (tp_queue p)" using assms(6) ax(2) by simp
  have step: "pool_step p (Submit (worker_function, a)) ?p"
    by (rule pool_step.submit [OF can assms(7)]) (simp add: thread_pool_submit_def)
  have x: "x \<notin> dom (wq_heap (tp_queue p))" using can by (auto simp: can_enqueue_def)
  have same: "conn_of ?p b = conn_of p b" if "b \<in> dom (wq_heap (tp_queue p))" for b
  proof -
    have "b \<noteq> x" using that x by blast
    then show ?thesis by (simp add: conn_of_def enqueue_work(2) [OF can q])
  qed
  have new: "conn_of ?p x = a" using enqueue_work(1) [OF can q] by (simp add: conn_of_def)
  from owned_add [OF o x _ new same, of c] have
    "owned base (conn_of ?p) (dom (wq_heap (tp_queue ?p))) ((sv_conns sv)(a \<mapsto> c)) (client_fd c # open_fds (sv_net sv))"
    using assms(3-5) ax c enqueue_at(4) [OF queue_wf_obtain [OF q] can] by simp
  moreover have "pool_wf ?p" by (rule pool_step_wf(1) [OF step wf])
  ultimately show ?thesis
    using c s ax assms(2) by (simp add: server_ok_def pool_accept_def submit_item)
qed

lemma work_keeps:
  assumes "server_ok base sv" "sv_pool sv = Some p" "i < length (tp_workers p)" "tp_workers p ! i = Running x"
    and "dial_ok (sv_net sv)" "run_worker env sockname (conn_of p x) sv = Some sv1" "pool_step p (Done i) p'"
  shows "server_ok base (sv1\<lparr>sv_pool := Some p'\<rparr>)"
proof -
  have wf: "pool_wf p" and o: "owned base (conn_of p) (dom (wq_heap (tp_queue p))) (sv_conns sv) (open_fds (sv_net sv))"
    using assms(1,2) by (simp_all add: server_ok_def)
  have heap: "wq_heap (tp_queue p') = (wq_heap (tp_queue p))(x := None)"
    using assms(7,4) by (auto simp: worker_done_def free_item_def elim: pool_step.cases)
  have "x \<in> set (running (tp_workers p))"
    using split_at [OF assms(3)] assms(4)
    by (metis held_simps(1) in_set_conv_decomp running_simps(2,3) append_Cons append_assoc)
  then have x: "x \<in> dom (wq_heap (tp_queue p))" using wf by (simp add: pool_wf_def)
  have "conn_of p' b = conn_of p b" if "b \<in> dom (wq_heap (tp_queue p)) - {x}" for b
    using that heap by (auto simp: conn_of_def work_at_def)
  from run_worker_owned(1) [OF o x this assms(5,6)] have
    "owned base (conn_of p') (dom (wq_heap (tp_queue p'))) (sv_conns sv1) (open_fds (sv_net sv1))"
    using heap by simp
  with pool_step_wf(1) [OF assms(7) wf] show ?thesis by (simp add: server_ok_def)
qed

lemma step_keeps: "server_step sv sv' \<Longrightarrow> server_ok base sv \<Longrightarrow> server_ok base sv'"
proof (induction rule: server_step.induct)
  case (schedules sv p e p')
  note heap = idle_heap [OF schedules(2-4)]
  have "conn_of p' = conn_of p" using work_at_heap [OF heap] by (simp add: conn_of_def fun_eq_iff)
  with schedules heap pool_step_wf(1) [OF schedules(2)] show ?case by (simp add: server_ok_def)
next
  case (stops sv)
  then show ?case by (simp add: server_ok_def proxy_server_stop_def)
qed (blast intro: accept_keeps work_keeps)+

lemma perconn_accept_keeps:
  assumes "perconn_ok base sv" "0 \<le> cl_fd cl" "cl_fd cl \<notin> set (open_fds (sv_net sv))"
    and "\<forall>a. cl_addr cl = Some a \<longrightarrow> sv_conns sv a = None"
  shows "perconn_ok base (perconn_accept cl created sv)"
proof -
  obtain y sv1 where s: "accept_client cl sv = (y, sv1)" by fastforce
  show ?thesis
  proof (cases y)
    case None
    with s accept_fails [of cl sv sv1] assms(1) show ?thesis by (simp add: perconn_accept_def perconn_ok_def)
  next
    case (Some a)
    with s have s: "accept_client cl sv = (Some a, sv1)" by simp
    then obtain c where c: "client_fd c = cl_fd cl" "remote_fd c = -1" "cl_addr cl = Some a"
      "sv_conns sv1 = (sv_conns sv)(a \<mapsto> c)" "open_fds (sv_net sv1) = cl_fd cl # open_fds (sv_net sv)"
      "sv_threads sv1 = sv_threads sv" by (rule accept_succeeds) (rule that)
    have a: "sv_conns sv a = None" using assms(4) c(3) by simp
    show ?thesis
    proof (cases created)
      case True
      have o: "owned base (\<lambda>b. b) (set (sv_threads sv)) (sv_conns sv) (open_fds (sv_net sv))" and d: "distinct (sv_threads sv)"
        using assms(1) by (simp_all add: perconn_ok_def)
      have new: "a \<notin> set (sv_threads sv)" using o a by (auto simp: owned_def bij_betw_def)
      from owned_add [OF o new a refl refl, of c] c assms(2,3)
      have "owned base (\<lambda>b. b) (insert a (set (sv_threads sv))) (sv_conns sv1) (open_fds (sv_net sv1))" by simp
      with True s c(6) d new show ?thesis by (simp add: perconn_accept_def perconn_ok_def)
    next
      case False
      have "sv_threads (destroy_at a sv1) = sv_threads sv" using c(6) by (simp add: destroy_at_def)
      with False s destroy_undoes [OF s a assms(2)] assms(1) show ?thesis
        by (simp add: perconn_accept_def perconn_ok_def)
    qed
  qed
qed

lemma perconn_step_keeps: "perconn_step sv sv' \<Longrightarrow> perconn_ok base sv \<Longrightarrow> perconn_ok base sv'"
proof (induction rule: perconn_step.induct)
  case (p_works a sv env sockname sv1)
  then have o: "owned base (\<lambda>b. b) (set (sv_threads sv)) (sv_conns sv) (open_fds (sv_net sv))" and d: "distinct (sv_threads sv)"
    by (simp_all add: perconn_ok_def)
  from run_worker_owned(1) [OF o p_works(1) refl p_works(2,4)] d show ?case
    by (simp add: perconn_ok_def set_remove1_eq)
next
  case (p_stops sv)
  then show ?case by (simp add: perconn_ok_def proxy_server_stop_def)
qed (blast intro: perconn_accept_keeps)+

lemma perconn_steps_keep: "perconn_step\<^sup>*\<^sup>* sv sv' \<Longrightarrow> perconn_ok base sv \<Longrightarrow> perconn_ok base sv'"
  by (induction rule: rtranclp_induct) (auto intro: perconn_step_keeps)

lemma steps_keep: "server_step\<^sup>*\<^sup>* sv sv' \<Longrightarrow> server_ok base sv \<Longrightarrow> server_ok base sv'"
  by (induction rule: rtranclp_induct) (auto intro: step_keeps)

lemma server_start_ok:
  assumes "thread_pool_create m1 m2 created n = Some p" "sv_pool sv = Some p" "sv_conns sv = Map.empty"
    and "distinct (open_fds (sv_net sv))"
  shows "server_ok (open_fds (sv_net sv)) sv"
proof -
  have p: "pool_wf p" "wq_heap (tp_queue p) = Map.empty"
    using create_wf(1) [OF assms(1)] assms(1)
    by (auto simp: thread_pool_create_def empty_queue_def split: if_splits)
  then show ?thesis using assms(2-4) by (simp add: server_ok_def owned_def bij_betw_def)
qed

text \<open>The event loop serves a client before it accepts the next.  \<open>unused\<close> says that the
  kernel hands out descriptors that are not open: those of the clients \<open>cls\<close>, and those of
  the connections dialled for them.\<close>

definition unused :: "client list \<Rightarrow> server \<Rightarrow> bool" where
  "unused cls sv \<longleftrightarrow>
     (\<forall>cl\<in>set cls. 0 \<le> cl_fd cl \<and> cl_fd cl \<notin> set (open_fds (sv_net sv)) \<and>
        (\<forall>a. cl_addr cl = Some a \<longrightarrow> sv_conns sv a = None)) \<and>
     (\<forall>fd known ok. Socket fd known ok \<in> set (dial_script (sv_net sv)) \<longrightarrow>
        0 \<le> fd \<and> fd \<notin> set (open_fds (sv_net sv)) \<union> cl_fd ` set cls)"

definition balanced :: "server \<Rightarrow> server \<Rightarrow> bool" where
  "balanced sv sv' \<longleftrightarrow> open_fds (sv_net sv') = open_fds (sv_net sv) \<and> sv_conns sv' = sv_conns sv \<and>
     set (dial_script (sv_net sv')) \<subseteq> set (dial_script (sv_net sv)) \<and> sv_fd sv' = sv_fd sv \<and> sv_epoll sv' = sv_epoll sv"

lemma balanced_trans: "balanced sv sv1 \<Longrightarrow> balanced sv1 sv2 \<Longrightarrow> balanced sv sv2"
  by (auto simp: balanced_def)

lemma unused_mono: "unused cls sv \<Longrightarrow> balanced sv sv' \<Longrightarrow> set cls' \<subseteq> set cls \<Longrightarrow> unused cls' sv'"
  unfolding unused_def balanced_def by (simp add: subset_iff) blast

lemma event_accept_balanced:
  assumes "event_accept THREAD_MODEL_EVENT_DRIVEN env sockname cl m wake sv = Some sv'" "unused [cl] sv"
  shows "balanced sv sv'"
proof -
  obtain x sv1 where a: "accept_client cl sv = (x, sv1)" by fastforce
  show ?thesis
  proof (cases x)
    case None
    with a assms(1) accept_fails [of cl sv sv1] show ?thesis by (auto simp: event_accept_def balanced_def)
  next
    case (Some b)
    with a have "accept_client cl sv = (Some b, sv1)" by simp
    then obtain c where c: "client_fd c = cl_fd cl" "remote_fd c = -1" "cl_addr cl = Some b"
      "sv_conns sv1 = (sv_conns sv)(b \<mapsto> c)" "open_fds (sv_net sv1) = cl_fd cl # open_fds (sv_net sv)"
      "dial_script (sv_net sv1) = dial_script (sv_net sv)" "sv_fd sv1 = sv_fd sv" "sv_epoll sv1 = sv_epoll sv"
      by (rule accept_succeeds) (rule that)
    have f: "fresh_conn c (sv_net sv1)" using c assms(2) by (auto simp: fresh_conn_def dial_ok_def unused_def)
    from assms(1) a Some c(4) obtain P where P: "handle_connection_worker env sockname c (sv_proxy sv1) = Some P"
      "sv' = sv1\<lparr>sv_proxy := P, sv_conns := (sv_conns sv1)(b := None)\<rparr>"
      by (auto simp: event_accept_def run_worker_def)
    show ?thesis
      using worker_closes [OF P(1) f] c assms(2) P(2) by (simp add: balanced_def unused_def fun_upd_idem)
  qed
qed

fun poll_clients :: "poll_answer list \<Rightarrow> client list" where
  "poll_clients [] = []"
| "poll_clients (Polled es # as) = concat (map (\<lambda>e. case e of Server_event (Some (cl, _)) \<Rightarrow> [cl] | _ \<Rightarrow> []) es) @ poll_clients as"
| "poll_clients (_ # as) = poll_clients as"

lemma handle_events_balanced:
  "handle_events THREAD_MODEL_EVENT_DRIVEN env sockname es sv = Some sv' \<Longrightarrow> unused (poll_clients [Polled es]) sv \<Longrightarrow>
     balanced sv sv'"
proof (induction THREAD_MODEL_EVENT_DRIVEN env sockname es sv rule: handle_events.induct)
  case (4 env sockname cl m wake es sv)
  then obtain sv1 where e: "event_accept THREAD_MODEL_EVENT_DRIVEN env sockname cl m wake sv = Some sv1"
    "handle_events THREAD_MODEL_EVENT_DRIVEN env sockname es sv1 = Some sv'" by (auto split: option.splits)
  have u: "unused [cl] sv" by (rule unused_mono [OF 4(3)]) (simp_all add: balanced_def)
  note b = event_accept_balanced [OF e(1) u]
  have "unused (poll_clients [Polled es]) sv1" by (rule unused_mono [OF 4(3) b]) auto
  from balanced_trans [OF b 4(1) [OF e(1,2) this]] show ?case .
qed (simp_all add: balanced_def)

lemma event_loop_balanced:
  "server_loop_event_driven THREAD_MODEL_EVENT_DRIVEN env sockname as sv = Some (r, sv') \<Longrightarrow> unused (poll_clients as) sv \<Longrightarrow>
     r = 0 \<and> balanced sv sv'"
proof (induction as arbitrary: sv)
  case Nil
  then show ?case by (auto simp: balanced_def proxy_server_stop_def)
next
  case (Cons a as)
  show ?case
  proof (cases "sv_running sv = 0")
    case True
    with Cons.prems(1) show ?thesis by (simp add: balanced_def)
  next
    case False
    show ?thesis
    proof (cases a)
      case (Polled es)
      with Cons.prems(1) False obtain sv1 where h: "handle_events THREAD_MODEL_EVENT_DRIVEN env sockname es sv = Some sv1"
        "server_loop_event_driven THREAD_MODEL_EVENT_DRIVEN env sockname as sv1 = Some (r, sv')"
        by (auto split: option.splits)
      have "unused (poll_clients [Polled es]) sv"
        by (rule unused_mono [OF Cons.prems(2)]) (simp_all add: Polled balanced_def)
      note b = handle_events_balanced [OF h(1) this]
      have "unused (poll_clients as) sv1" by (rule unused_mono [OF Cons.prems(2) b]) (simp add: Polled)
      from Cons.IH [OF h(2) this] balanced_trans [OF b] show ?thesis by blast
    qed (use Cons False in \<open>auto simp: balanced_def\<close>)
  qed
qed

subsection \<open>Properties\<close>

text \<open>A server with a pool of one thread, and a client whose connection is allocated at 7.\<close>

definition demo_server :: server where
  "demo_server = \<lparr>sv_proxy = demo_proxy\<lparr>p_config := config_set_defaults\<lparr>mode := PROXY_MODE_TCP\<rparr>,
      p_net := demo_world\<lparr>dial_script := [Socket 5 True True], select_script := [], open_fds := [3]\<rparr>\<rparr>,
    sv_fd = 3, sv_pool = Some demo_pool, sv_epoll = -1, sv_running = 1, sv_conns = Map.empty, sv_threads = []\<rparr>"

definition demo_client :: client where
  "demo_client = \<lparr>cl_fd = 4, cl_addr = Some 7, cl_now = 0, cl_peer = ''10.0.0.1''\<rparr>"

text \<open>C5: every connection is owned.  In every interleaving of the accepting thread of the
  pool server with the workers, each connection on the heap is the argument of exactly one
  item of the pool, queued or running, and each open descriptor is one that was open at the
  start or the client of one connection; in particular, whenever the pool holds no item no
  connection is left and exactly the descriptors of the start are open.\<close>

theorem pool_server_owns:
  assumes "thread_pool_create m1 m2 created n = Some p" "sv_pool sv = Some p" "sv_conns sv = Map.empty"
    and "distinct (open_fds (sv_net sv))" "server_step\<^sup>*\<^sup>* sv sv'"
  shows "\<exists>p'. sv_pool sv' = Some p' \<and> pool_wf p' \<and>
    bij_betw (conn_of p') (dom (wq_heap (tp_queue p'))) (dom (sv_conns sv')) \<and>
    distinct (open_fds (sv_net sv')) \<and>
    set (open_fds (sv_net sv')) = set (open_fds (sv_net sv)) \<union> (\<lambda>a. client_fd (the (sv_conns sv' a))) ` dom (sv_conns sv') \<and>
    (wq_heap (tp_queue p') = Map.empty \<longrightarrow>
       sv_conns sv' = Map.empty \<and> set (open_fds (sv_net sv')) = set (open_fds (sv_net sv)))"
proof -
  obtain p' where p': "sv_pool sv' = Some p'" "pool_wf p'"
    "owned (open_fds (sv_net sv)) (conn_of p') (dom (wq_heap (tp_queue p'))) (sv_conns sv') (open_fds (sv_net sv'))"
    using steps_keep [OF assms(5) server_start_ok [OF assms(1-4)]] by (auto simp: server_ok_def)
  note o = p'(3) [unfolded owned_def]
  have "sv_conns sv' = Map.empty" if "wq_heap (tp_queue p') = Map.empty"
    using o that by (auto simp: bij_betw_def)
  with p'(1,2) o show ?thesis by auto
qed

lemma demo_accept:
  "server_step demo_server (pool_accept demo_client (Some 9) 0 demo_server)"
  by (rule server_step.accepts [of _ demo_pool])
    (simp_all add: demo_server_def demo_client_def demo_pool_def demo_proxy_def demo_world_def can_enqueue_def empty_queue_def)

theorem pool_server_owns_witness:
  "set (open_fds (sv_net (pool_accept demo_client (Some 9) 0 demo_server))) = {3, 4} \<and>
   (\<exists>p'. sv_pool (pool_accept demo_client (Some 9) 0 demo_server) = Some p' \<and> pool_wf p')"
proof -
  have "set (open_fds (sv_net demo_server)) = {3}" "distinct (open_fds (sv_net demo_server))"
    "sv_pool demo_server = Some demo_pool" "sv_conns demo_server = Map.empty"
    by (simp_all add: demo_server_def)
  moreover have "(\<lambda>a. client_fd (the (sv_conns (pool_accept demo_client (Some 9) 0 demo_server) a))) `
      dom (sv_conns (pool_accept demo_client (Some 9) 0 demo_server)) = {4}"
    by (simp add: pool_accept_def accept_client_def demo_client_def connection_create_def demo_server_def
        submit_at_def thread_pool_submit_def on_server_def Let_def)
  ultimately show ?thesis
    using pool_server_owns [OF demo_create _ _ _ r_into_rtranclp [of server_step, OF demo_accept]] by auto
qed

text \<open>C28: a thread per connection.  In every interleaving of the accepting thread with the
  threads it creates, each connection on the heap is the argument of exactly one live
  thread, and each open descriptor is one of the start or the client of one connection; once
  no thread is left, exactly the descriptors of the start are open.\<close>

theorem perconn_server_owns:
  assumes "sv_threads sv = []" "sv_conns sv = Map.empty" "distinct (open_fds (sv_net sv))" "perconn_step\<^sup>*\<^sup>* sv sv'"
  shows "distinct (sv_threads sv') \<and> dom (sv_conns sv') = set (sv_threads sv') \<and> distinct (open_fds (sv_net sv')) \<and>
    set (open_fds (sv_net sv')) = set (open_fds (sv_net sv)) \<union> (\<lambda>a. client_fd (the (sv_conns sv' a))) ` set (sv_threads sv') \<and>
    (sv_threads sv' = [] \<longrightarrow> set (open_fds (sv_net sv')) = set (open_fds (sv_net sv)))"
proof -
  have "perconn_ok (open_fds (sv_net sv)) sv" using assms(1-3) by (simp add: perconn_ok_def owned_def bij_betw_def)
  note o = perconn_steps_keep [OF assms(4) this, unfolded perconn_ok_def owned_def]
  then have "dom (sv_conns sv') = set (sv_threads sv')" by (simp add: bij_betw_def)
  with o show ?thesis by simp
qed

theorem perconn_server_owns_witness:
  "set (open_fds (sv_net (perconn_accept demo_client True demo_server))) = {3, 4} \<and>
   dom (sv_conns (perconn_accept demo_client True demo_server)) = {7}"
proof -
  let ?sv = "perconn_accept demo_client True demo_server"
  have "perconn_step demo_server ?sv"
    by (rule perconn_step.p_accepts) (simp_all add: demo_server_def demo_client_def demo_proxy_def demo_world_def)
  moreover have "sv_threads demo_server = []" "sv_conns demo_server = Map.empty" "open_fds (sv_net demo_server) = [3]"
    by (simp_all add: demo_server_def)
  moreover have "sv_threads ?sv = [7]" "client_fd (the (sv_conns ?sv 7)) = 4"
    by (simp_all add: perconn_accept_def accept_client_def demo_client_def connection_create_def demo_server_def on_server_def Let_def)
  ultimately show ?thesis using perconn_server_owns [OF _ _ _ r_into_rtranclp [of perconn_step]] by auto
qed

text \<open>C40: when the pool refuses the work.  The loop of the pool model then destroys the
  connection it created, and nothing is left of the client; the loop of the hybrid model
  ignores the result of \<open>thread_pool_submit\<close>, so the descriptor stays open and the
  connection stays on the heap although no item of the pool holds it.\<close>

theorem hybrid_leaks_refused:
  assumes "cl_addr cl = Some a" "sv_conns sv a = None" "0 \<le> cl_fd cl"
  shows "open_fds (sv_net (pool_accept cl None wake sv)) = open_fds (sv_net sv) \<and>
    sv_conns (pool_accept cl None wake sv) = sv_conns sv \<and>
    open_fds (sv_net (hybrid_accept cl None wake sv)) = cl_fd cl # open_fds (sv_net sv) \<and>
    (\<exists>conn. sv_conns (hybrid_accept cl None wake sv) = (sv_conns sv)(a \<mapsto> conn) \<and> client_fd conn = cl_fd cl) \<and>
    sv_pool (hybrid_accept cl None wake sv) = sv_pool sv"
proof -
  obtain sv1 where s: "accept_client cl sv = (Some a, sv1)"
    using assms(1) by (simp add: accept_client_def connection_create_def Let_def)
  then obtain c where "client_fd c = cl_fd cl" "sv_pool sv1 = sv_pool sv" "sv_conns sv1 = (sv_conns sv)(a \<mapsto> c)"
    "open_fds (sv_net sv1) = cl_fd cl # open_fds (sv_net sv)" by (rule accept_succeeds) (rule that)
  with s pool_accept_fails [of cl None sv wake] assms show ?thesis
    by (simp add: hybrid_accept_def submit_nothing) blast
qed

theorem hybrid_leaks_refused_witness:
  "open_fds (sv_net (hybrid_accept demo_client None 0 demo_server)) = [4, 3] \<and>
   sv_pool (hybrid_accept demo_client None 0 demo_server) = Some demo_pool"
  using hybrid_leaks_refused [of demo_client 7 demo_server 0] by (simp add: demo_client_def demo_server_def)

lemma init_balanced:
  assumes "proxy_server_init ia config sv = (r, sv')" "sv_pool sv = None" "sv_epoll sv = -1" "\<forall>fd\<in>set (open_fds (sv_net sv)). 0 \<le> fd"
  shows "r = -1 \<and> open_fds (sv_net sv') = (if ia_sock ia = 0 then 0 # open_fds (sv_net sv) else open_fds (sv_net sv)) \<or>
    r = 0 \<and> ia_sock ia \<noteq> 0 \<and> open_fds (sv_net (proxy_server_cleanup sv')) = open_fds (sv_net sv)"
proof (cases "0 \<le> ia_sock ia")
  case True
  with assms show ?thesis
    by (auto simp: proxy_server_init_def proxy_server_cleanup_def create_server_socket_def sys_close_def Let_def
        split: if_splits)
next
  case False
  then have "ia_sock ia \<notin> set (open_fds (sv_net sv))" using assms(4) by auto
  with False assms(1) show ?thesis
    by (auto simp: proxy_server_init_def create_server_socket_def sys_close_def Let_def remove1_idem split: if_splits)
qed

lemma cleanup_same:
  "open_fds (sv_net sv') = open_fds (sv_net sv) \<Longrightarrow> sv_fd sv' = sv_fd sv \<Longrightarrow> sv_epoll sv' = sv_epoll sv \<Longrightarrow>
     open_fds (sv_net (proxy_server_cleanup sv')) = open_fds (sv_net (proxy_server_cleanup sv))"
  by (simp add: proxy_server_cleanup_def sys_close_def Let_def on_server_def)

text \<open>C29: the event-driven server closes everything.  A start that fails leaves the open
  descriptors as they were, whichever call failed, with one exception: a socket that is
  descriptor 0 is refused and stays open (\<open>create_server_socket\<close> takes 0 for the
  failure of \<open>socket\<close>).  When it succeeds, then whatever \<open>epoll_wait\<close>,
  \<open>accept\<close>, the clients and the remote hosts do, the loop ends with success and no connection
  left over, and after \<open>proxy_server_cleanup\<close> exactly the descriptors of before the start are
  open.\<close>

theorem event_server_closes:
  assumes "proxy_server_init ia config sv = (r, sv1)" "sv_pool sv = None" "sv_epoll sv = -1"
    and "\<forall>fd\<in>set (open_fds (sv_net sv)). 0 \<le> fd"
  shows "(r \<noteq> 0 \<longrightarrow> r = -1 \<and> open_fds (sv_net sv1) = (if ia_sock ia = 0 then [0] else []) @ open_fds (sv_net sv)) \<and>
    (r = 0 \<and> unused (poll_clients as) sv1 \<and>
       server_loop_event_driven THREAD_MODEL_EVENT_DRIVEN env sockname as sv1 = Some (q, sv2) \<longrightarrow>
     q = 0 \<and> sv_conns sv2 = sv_conns sv1 \<and> open_fds (sv_net (proxy_server_cleanup sv2)) = open_fds (sv_net sv))"
  using init_balanced [OF assms] event_loop_balanced [of env sockname as sv1 q sv2] cleanup_same [of sv2 sv1]
  by (auto simp: balanced_def)

text \<open>A start in which every call succeeds, and a loop that serves one client.\<close>

definition demo_init :: init_answers where
  "demo_init = \<lparr>ia_sock = 8, ia_opt = True, ia_pton = (\<lambda>_. True), ia_bind = True, ia_listen = True, ia_pool = True,
     ia_threads = True, ia_created = (\<lambda>_. True), ia_epoll = 9, ia_ctl = True\<rparr>"

definition demo_polls :: "poll_answer list" where
  "demo_polls = [Poll_interrupted, Polled [Other_event, Server_event (Some (demo_client, None, 0))]]"

theorem event_server_closes_witness:
  "\<exists>sv1 sv2. proxy_server_init demo_init (config_set_defaults\<lparr>thread_model := THREAD_MODEL_EVENT_DRIVEN\<rparr>)
      (demo_server\<lparr>sv_pool := None\<rparr>) = (0, sv1) \<and>
    server_loop_event_driven THREAD_MODEL_EVENT_DRIVEN demo_env (\<lambda>_. []) demo_polls sv1 = Some (0, sv2) \<and>
    open_fds (sv_net (proxy_server_cleanup sv2)) = [3]"
proof -
  let ?cfg = "config_set_defaults\<lparr>thread_model := THREAD_MODEL_EVENT_DRIVEN\<rparr>" and ?sv = "demo_server\<lparr>sv_pool := None\<rparr>"
  define sv1 where "sv1 = on_server (\<lambda>w. w\<lparr>open_fds := [9, 8, 3]\<rparr>) (?sv\<lparr>sv_fd := 8, sv_epoll := 9\<rparr>)"
  have i: "proxy_server_init demo_init ?cfg ?sv = (0, sv1)"
    by (simp add: proxy_server_init_def create_server_socket_def uses_pool_def uses_epoll_def demo_init_def sv1_def
        config_set_defaults_def on_server_def demo_server_def Let_def)
  obtain q sv2 where l: "server_loop_event_driven THREAD_MODEL_EVENT_DRIVEN demo_env (\<lambda>_. []) demo_polls sv1 = Some (q, sv2)"
    by (simp add: sv1_def demo_polls_def demo_server_def event_accept_def accept_client_def demo_client_def connection_create_def
        run_worker_def on_server_def handle_connection_worker_def connection_handle_def handle_mode_def tcp_relay_def demo_proxy_def
        config_set_defaults_def on_net_def connect_to_host_def demo_world_def tunnel_def Let_def)
  have "unused (poll_clients demo_polls) sv1"
    by (simp add: unused_def demo_server_def demo_client_def demo_polls_def sv1_def on_server_def)
  with event_server_closes [OF i, of demo_polls demo_env "\<lambda>_. []" q sv2] i l show ?thesis
    by (simp add: demo_server_def demo_init_def)
qed

end
