(* ===== verification/Gzip.thy ===== *)
theory Gzip
  imports Proxy_Types
begin

text \<open>
  The calls into zlib of \<^verbatim>\<open>src/protocols/compression.c\<close>.  zlib is not part of the
  repository: \<open>deflate\<close> and \<open>inflate\<close> are arguments of the definitions.  The lengths
  \<open>avail_in\<close> and \<open>avail_out\<close> of a \<open>z_stream\<close> have 32 bits, the program's own 64.
\<close>

type_synonym uInt = "32 word"

text \<open>\<open>deflateInit2\<close> with the given \<open>windowBits\<close>, then \<open>deflate\<close> with \<open>Z_FINISH\<close> into
  a buffer of the given size: \<^const>\<open>None\<close> when the initialisation fails, else whether the
  result is \<open>Z_STREAM_END\<close>, and the output.\<close>

type_synonym deflater = "nat \<Rightarrow> u8 list \<Rightarrow> nat \<Rightarrow> (bool \<times> u8 list) option"

text \<open>\<open>inflate\<close> with \<open>Z_FINISH\<close> from a state of the stream, with room for a number of
  bytes: the return code, the bytes written, the next state.\<close>

datatype zret = Z_STREAM_END | Z_BUF_ERROR | Z_FAILED

type_synonym 's inflater = "'s \<Rightarrow> nat \<Rightarrow> zret \<times> u8 list \<times> 's"

subsection \<open>Compressing\<close>

text \<open>\<open>input\<close> has \<open>input_len\<close> bytes, \<open>m\<close> is the allocation of the output.  A result of
  -1 leaves no output.\<close>

definition finish_deflate :: "deflater \<Rightarrow> nat \<Rightarrow> u8 list \<Rightarrow> size_t \<Rightarrow> size_t \<Rightarrow> c_int \<times> u8 list" where
  "finish_deflate defl bits input input_len output_len =
     (case defl bits (take (unat (ucast input_len :: uInt)) input) (unat (ucast output_len :: uInt)) of
        None \<Rightarrow> (-1, [])
      | Some (stream_end, d) \<Rightarrow> if stream_end then (0, d) else (-1, []))"

definition compression_gzip_compress :: "deflater \<Rightarrow> bool \<Rightarrow> u8 list \<Rightarrow> size_t \<Rightarrow> c_int \<times> u8 list" where
  "compression_gzip_compress defl m input input_len =
     (let output_len = input_len + input_len div 1000 + 12 + 18 in
      if \<not> m then (-1, []) else finish_deflate defl (15 + 16) input input_len output_len)"

definition compression_deflate_compress :: "deflater \<Rightarrow> bool \<Rightarrow> u8 list \<Rightarrow> size_t \<Rightarrow> c_int \<times> u8 list" where
  "compression_deflate_compress defl m input input_len =
     (let output_len = input_len + input_len div 1000 + 12 in
      if \<not> m then (-1, []) else finish_deflate defl 15 input input_len output_len)"

subsection \<open>Decompressing\<close>

text \<open>The doublings until a 64-bit length is zero.\<close>

definition doublings :: "size_t \<Rightarrow> nat" where
  "doublings n = (LEAST k. n * 2 ^ k = 0)"

lemma doublings_less:
  assumes "n * 2 \<noteq> 0"
  shows "doublings (n * 2) < doublings n"
proof -
  have "(2 :: size_t) ^ 64 = 0" by (rule word_unat_eq_iff [THEN iffD2]) simp
  then have "n * 2 ^ 64 = 0" by (metis mult_zero_right)
  then have d: "n * 2 ^ doublings n = 0" unfolding doublings_def by (rule LeastI)
  have "doublings n \<noteq> 0"
  proof
    assume "doublings n = 0"
    with d assms show False by simp
  qed
  then obtain k where k: "doublings n = Suc k" by (cases "doublings n") auto
  with d have "(n * 2) * 2 ^ k = 0" by (simp add: ac_simps)
  then have "doublings (n * 2) \<le> k" unfolding doublings_def by (rule Least_le)
  with k show ?thesis by simp
qed

text \<open>The loop: \<open>realloc_ok\<close> says which sizes \<open>realloc\<close> grants, \<open>out\<close> is what was
  written so far.  A size of zero makes \<open>realloc\<close> release the buffer and return NULL, and the
  code then releases it a second time: \<^const>\<open>None\<close>.\<close>

function inflate_loop ::
  "'s inflater \<Rightarrow> (size_t \<Rightarrow> bool) \<Rightarrow> size_t \<Rightarrow> zret \<Rightarrow> u8 list \<Rightarrow> 's \<Rightarrow> (c_int \<times> u8 list) option" where
  "inflate_loop infl realloc_ok buffer_size ret out s =
     (if ret = Z_BUF_ERROR then
        let buffer_size' = buffer_size * 2 in
        if buffer_size' = 0 then None
        else if \<not> realloc_ok buffer_size' then Some (-1, [])
        else case infl s (unat (ucast (buffer_size' - of_nat (length out)) :: uInt)) of
          (ret, d, s) \<Rightarrow> inflate_loop infl realloc_ok buffer_size' ret (out @ d) s
      else if ret = Z_STREAM_END then Some (0, out)
      else Some (-1, []))"
  by pat_completeness auto
termination
  by (relation "measure (\<lambda>(infl, realloc_ok, buffer_size, ret, out, s). doublings buffer_size)")
    (auto intro: doublings_less)

declare inflate_loop.simps [simp del]

definition compression_gzip_decompress ::
  "(u8 list \<Rightarrow> 's option) \<Rightarrow> 's inflater \<Rightarrow> bool \<Rightarrow> (size_t \<Rightarrow> bool) \<Rightarrow> u8 list \<Rightarrow> size_t \<Rightarrow> (c_int \<times> u8 list) option" where
  "compression_gzip_decompress init infl m realloc_ok input input_len =
     (let buffer_size = input_len * 4 in
      if \<not> m then Some (-1, [])
      else case init (take (unat (ucast input_len :: uInt)) input) of
        None \<Rightarrow> Some (-1, [])
      | Some s \<Rightarrow>
          (case infl s (unat (ucast buffer_size :: uInt)) of
             (ret, d, s) \<Rightarrow> inflate_loop infl realloc_ok buffer_size ret d s))"

subsection \<open>What zlib promises\<close>

text \<open>A state from which \<open>r\<close> is still to be written: a call writes what fits, and ends the
  stream when all of it does.\<close>

definition inflates :: "'s inflater \<Rightarrow> ('s \<Rightarrow> u8 list option) \<Rightarrow> bool" where
  "inflates infl left \<longleftrightarrow> (\<forall>s r n. left s = Some r \<longrightarrow>
     (length r \<le> n \<longrightarrow> fst (infl s n) = Z_STREAM_END \<and> fst (snd (infl s n)) = r) \<and>
     (n < length r \<longrightarrow> fst (infl s n) = Z_BUF_ERROR \<and> fst (snd (infl s n)) = take n r \<and>
        left (snd (snd (infl s n))) = Some (drop n r)))"

lemma inflate_loop_writes:
  assumes "inflates infl left"
  shows "left s = Some r \<Longrightarrow> r \<noteq> [] \<Longrightarrow> length out = unat buffer_size \<Longrightarrow> 0 < unat buffer_size \<Longrightarrow>
    length (out @ r) < 2 ^ 31 \<Longrightarrow> (\<And>n. unat n \<le> 2 * length (out @ r) \<Longrightarrow> realloc_ok n) \<Longrightarrow>
    inflate_loop infl realloc_ok buffer_size Z_BUF_ERROR out s = Some (0, out @ r)"
proof (induction "doublings buffer_size" arbitrary: buffer_size out r s rule: less_induct)
  case less
  let ?n = "unat buffer_size"
  have small: "?n < 2 ^ 31" using less.prems(3,5) by simp
  have twice: "unat (buffer_size * 2) = 2 * ?n"
    using small by (simp add: unat_word_ariths)
  then have nz: "buffer_size * 2 \<noteq> 0" using less.prems(4) by (metis mult_eq_0_iff neq0_conv unat_0 zero_neq_numeral)
  have "?n < length (out @ r)" using less.prems(2,3) by simp
  then have ok: "realloc_ok (buffer_size * 2)" using less.prems(6) twice by simp
  have "unat (buffer_size * 2 - of_nat (length out)) = ?n"
    using twice less.prems(3) by (simp add: unat_sub word_le_nat_alt)
  then have room: "unat (ucast (buffer_size * 2 - of_nat (length out)) :: uInt) = ?n"
    using small by (simp add: unsigned_ucast_eq take_bit_eq_mod)
  obtain ret d s' where i: "infl s ?n = (ret, d, s')" by (cases "infl s ?n") auto
  note z = assms [unfolded inflates_def, rule_format, OF less.prems(1), of ?n, unfolded i fst_conv snd_conv]
  have step: "inflate_loop infl realloc_ok buffer_size Z_BUF_ERROR out s =
      inflate_loop infl realloc_ok (buffer_size * 2) ret (out @ d) s'"
    using nz ok room i by (simp add: inflate_loop.simps [of _ _ buffer_size] Let_def)
  show ?case
  proof (cases "length r \<le> ?n")
    case True
    with z step show ?thesis by (simp add: inflate_loop.simps [of _ _ "buffer_size * 2"])
  next
    case False
    then have z': "ret = Z_BUF_ERROR" "d = take ?n r" "left s' = Some (drop ?n r)" using z by simp_all
    have "inflate_loop infl realloc_ok (buffer_size * 2) Z_BUF_ERROR (out @ d) s' = Some (0, (out @ d) @ drop ?n r)"
    proof (rule less.hyps [OF doublings_less [OF nz] z'(3)])
      show "length (out @ d) = unat (buffer_size * 2)" using False twice z'(2) less.prems(3) by simp
    qed (use False twice z'(2) less.prems in auto)
    with step z'(1,2) show ?thesis by simp
  qed
qed

text \<open>Every call is given room inside the buffer, as long as \<open>realloc\<close> grants nothing from
  \<open>2 ^ 63\<close> bytes on (the GNU library refuses such sizes).\<close>

lemma inflate_loop_fits:
  assumes "\<And>s n. length (fst (snd (infl s n))) \<le> n" "\<And>n. realloc_ok n \<Longrightarrow> unat n < 2 ^ 63"
  shows "length out \<le> unat buffer_size \<Longrightarrow> unat buffer_size < 2 ^ 63 \<Longrightarrow>
    inflate_loop infl realloc_ok buffer_size ret out s = Some (r, result) \<Longrightarrow>
    length result \<le> unat buffer_size \<or> (\<exists>n. realloc_ok n \<and> length result \<le> unat n)"
proof (induction "doublings buffer_size" arbitrary: buffer_size ret out s rule: less_induct)
  case less
  show ?case
  proof (cases "ret = Z_BUF_ERROR \<and> buffer_size * 2 \<noteq> 0 \<and> realloc_ok (buffer_size * 2)")
    case True
    let ?b = "buffer_size * 2" and ?room = "unat (ucast (buffer_size * 2 - of_nat (length out)) :: uInt)"
    obtain ret' d s' where i: "infl s ?room = (ret', d, s')" by (cases "infl s ?room") auto
    from less.prems(3) True i have l: "inflate_loop infl realloc_ok ?b ret' (out @ d) s' = Some (r, result)"
      by (simp add: inflate_loop.simps [of _ _ buffer_size] Let_def)
    have b: "unat ?b = 2 * unat buffer_size" using less.prems(2) by (simp add: unat_word_ariths)
    have o: "unat (of_nat (length out) :: size_t) = length out" using less.prems(1,2) by (intro unat_of_nat_size) simp
    have "length out \<le> unat ?b" using b less.prems(1) by simp
    then have "unat (?b - of_nat (length out)) = unat ?b - length out"
      using o by (simp add: unat_sub word_le_nat_alt)
    then have "?room \<le> unat ?b - length out" by (simp add: unsigned_ucast_eq take_bit_eq_mod)
    with assms(1) [of s ?room] i \<open>length out \<le> unat ?b\<close> have "length (out @ d) \<le> unat ?b" by simp
    moreover have "unat ?b < 2 ^ 63" using assms(2) True by blast
    ultimately have "length result \<le> unat ?b \<or> (\<exists>n. realloc_ok n \<and> length result \<le> unat n)"
      using less.hyps [OF doublings_less _ _ l] True by blast
    with True show ?thesis by blast
  next
    case False
    with less.prems(1,3) show ?thesis
      by (auto simp: inflate_loop.simps [of _ _ buffer_size] Let_def split: if_splits)
  qed
qed

text \<open>A stream that was cut off: every further call makes no progress.\<close>

lemma inflate_loop_starves:
  assumes "\<And>n. infl s n = (Z_BUF_ERROR, [], s)"
  shows "\<exists>k>0. (\<forall>j. 0 < j \<and> j < k \<longrightarrow> n * 2 ^ j \<noteq> 0 \<and> realloc_ok (n * 2 ^ j)) \<and>
    (if n * 2 ^ k = 0 then inflate_loop infl realloc_ok n Z_BUF_ERROR out s = None
     else \<not> realloc_ok (n * 2 ^ k) \<and> inflate_loop infl realloc_ok n Z_BUF_ERROR out s = Some (-1, []))"
proof (induction "doublings n" arbitrary: n rule: less_induct)
  case less
  show ?case
  proof (cases "n * 2 = 0 \<or> \<not> realloc_ok (n * 2)")
    case True
    then show ?thesis by (intro exI [of _ 1]) (auto simp: inflate_loop.simps [of _ _ n] Let_def)
  next
    case False
    let ?P = "\<lambda>n k. if n * 2 ^ k = 0 then inflate_loop infl realloc_ok n Z_BUF_ERROR out s = None
       else \<not> realloc_ok (n * 2 ^ k) \<and> inflate_loop infl realloc_ok n Z_BUF_ERROR out s = Some (-1, [])"
    have step: "inflate_loop infl realloc_ok n Z_BUF_ERROR out s = inflate_loop infl realloc_ok (n * 2) Z_BUF_ERROR out s"
      using False assms by (simp add: inflate_loop.simps [of _ _ n] Let_def)
    have pow: "n * 2 * 2 ^ j = n * 2 ^ Suc j" for j by (simp add: ac_simps)
    from less [OF doublings_less] False obtain k where k: "0 < k"
      "\<forall>j. 0 < j \<and> j < k \<longrightarrow> n * 2 ^ Suc j \<noteq> 0 \<and> realloc_ok (n * 2 ^ Suc j)" "?P (n * 2) k"
      unfolding pow by blast
    have "n * 2 ^ j \<noteq> 0 \<and> realloc_ok (n * 2 ^ j)" if "0 < j" "j < Suc k" for j
    proof (cases "j = 1")
      case True
      with False show ?thesis by simp
    next
      case one: False
      then obtain i where "j = Suc i" "0 < i" "i < k" using \<open>0 < j\<close> \<open>j < Suc k\<close> by (cases j) auto
      with k(2) show ?thesis by blast
    qed
    moreover have "?P n (Suc k)" using k(3) unfolding pow step by simp
    ultimately show ?thesis by (intro exI [of _ "Suc k"]) blast
  qed
qed

subsection \<open>Properties\<close>

text \<open>What the documentation of zlib says of a pair of functions: \<open>deflate\<close> with
  \<open>Z_FINISH\<close> succeeds when the buffer is a tenth of a percent and 12 bytes larger than the
  input, 18 more for the header and the trailer of gzip, and \<open>inflate\<close> of its output gives
  the input back.\<close>

definition gzip_codec :: "deflater \<Rightarrow> (u8 list \<Rightarrow> 's option) \<Rightarrow> 's inflater \<Rightarrow> ('s \<Rightarrow> u8 list option) \<Rightarrow> bool" where
  "gzip_codec defl init infl left \<longleftrightarrow> inflates infl left \<and>
     (\<forall>x n. length x + length x div 1000 + 30 \<le> n \<longrightarrow>
        (\<exists>z s. defl 31 x n = Some (True, z) \<and> 0 < length z \<and> length z \<le> n \<and> init z = Some s \<and> left s = Some x))"

text \<open>A codec that stores its input behind a marker.\<close>

definition store_deflate :: deflater where
  "store_deflate bits x n = Some (length x < n, 31 # x)"

definition store_init :: "u8 list \<Rightarrow> u8 list option" where
  "store_init z = (case z of [] \<Rightarrow> None | _ # x \<Rightarrow> Some x)"

definition store_inflate :: "u8 list inflater" where
  "store_inflate r n = (if length r \<le> n then Z_STREAM_END else Z_BUF_ERROR, take n r, drop n r)"

lemma store_codec: "gzip_codec store_deflate store_init store_inflate Some"
  by (auto simp: gzip_codec_def inflates_def store_deflate_def store_init_def store_inflate_def)

text \<open>C27: what is compressed can be read back.  A body of at most ten megabytes, the largest
  that \<open>compression_should_compress\<close> admits, is compressed by a single call of \<open>deflate\<close>,
  the buffer being large enough, and \<open>compression_gzip_decompress\<close> of the result, however
  often its buffer has to grow, is the body.\<close>

theorem gzip_roundtrip:
  assumes "gzip_codec defl init infl left" "length x \<le> 10 * 1024 * 1024"
    and "\<And>n. unat n \<le> 2 * length x \<Longrightarrow> realloc_ok n"
  shows "\<exists>z. compression_gzip_compress defl True x (of_nat (length x)) = (0, z) \<and>
    compression_gzip_decompress init infl True realloc_ok z (of_nat (length z)) = Some (0, x)"
proof -
  let ?n = "length x"
  have n: "unat (of_nat ?n :: size_t) = ?n" using assms(2) by (intro unat_of_nat_size) simp
  then have "unat (of_nat ?n + of_nat ?n div 1000 + 12 + 18 :: size_t) = ?n + ?n div 1000 + 30"
    using assms(2) by (simp add: unat_word_ariths unat_div)
  then have room: "unat (ucast (of_nat ?n + of_nat ?n div 1000 + 12 + 18 :: size_t) :: uInt) = ?n + ?n div 1000 + 30"
    using assms(2) by (simp add: unsigned_ucast_eq take_bit_eq_mod)
  have len: "unat (ucast (of_nat ?n :: size_t) :: uInt) = ?n"
    using n assms(2) by (simp add: unsigned_ucast_eq take_bit_eq_mod)
  obtain z s where z: "defl 31 x (?n + ?n div 1000 + 30) = Some (True, z)" "0 < length z"
    "length z \<le> ?n + ?n div 1000 + 30" "init z = Some s" "left s = Some x"
    using assms(1) unfolding gzip_codec_def by blast
  have c: "compression_gzip_compress defl True x (of_nat ?n) = (0, z)"
    unfolding compression_gzip_compress_def finish_deflate_def Let_def room len using z(1) by simp
  let ?b = "of_nat (length z) * 4 :: size_t"
  have zn: "length z < 2 ^ 29" using z(3) assms(2) by simp
  then have zl: "unat (of_nat (length z) :: size_t) = length z" by (intro unat_of_nat_size) simp
  then have b: "unat ?b = 4 * length z" using zn by (simp add: unat_word_ariths)
  then have b32: "unat (ucast ?b :: uInt) = unat ?b" using zn by (simp add: unsigned_ucast_eq take_bit_eq_mod)
  have z32: "unat (ucast (of_nat (length z) :: size_t) :: uInt) = length z"
    using zl zn by (simp add: unsigned_ucast_eq take_bit_eq_mod)
  obtain ret d s' where i: "infl s (unat ?b) = (ret, d, s')" by (cases "infl s (unat ?b)") auto
  have d: "compression_gzip_decompress init infl True realloc_ok z (of_nat (length z)) = inflate_loop infl realloc_ok ?b ret d s'"
    unfolding compression_gzip_decompress_def Let_def z32 b32 using z(4) i by simp
  have inf: "inflates infl left" using assms(1) by (simp add: gzip_codec_def)
  note zz = inf [unfolded inflates_def, rule_format, OF z(5), of "unat ?b", unfolded i fst_conv snd_conv]
  have "inflate_loop infl realloc_ok ?b ret d s' = Some (0, x)"
  proof (cases "?n \<le> unat ?b")
    case True
    with zz show ?thesis by (simp add: inflate_loop.simps [of _ _ ?b])
  next
    case False
    then have z': "ret = Z_BUF_ERROR" "d = take (unat ?b) x" "left s' = Some (drop (unat ?b) x)" using zz by simp_all
    have "inflate_loop infl realloc_ok ?b Z_BUF_ERROR d s' = Some (0, d @ drop (unat ?b) x)"
      by (rule inflate_loop_writes [OF inf z'(3)]) (use False z'(2) z(2) b assms(2,3) in auto)
    with z' show ?thesis by simp
  qed
  with c d show ?thesis by auto
qed

theorem gzip_roundtrip_witness:
  "\<exists>z. compression_gzip_decompress store_init store_inflate True (\<lambda>_. True) z (of_nat (length z)) = Some (0, [1, 2, 3])"
proof -
  have "\<exists>z. compression_gzip_compress store_deflate True [1, 2, 3] (of_nat (length [1, 2, 3 :: u8])) = (0, z) \<and>
      compression_gzip_decompress store_init store_inflate True (\<lambda>_. True) z (of_nat (length z)) = Some (0, [1, 2, 3])"
    by (rule gzip_roundtrip [OF store_codec]) simp_all
  then show ?thesis by blast
qed

text \<open>C35: a truncated stream takes all the memory there is.  When \<open>inflate\<close> waits for input
  that never comes, \<open>compression_gzip_decompress\<close> asks for twice the buffer again and again
  and only stops when \<open>realloc\<close> refuses; if the input is empty, the size asked for is zero
  and the buffer is released twice.\<close>

theorem gunzip_truncated_starves:
  assumes "init (take (unat (ucast input_len :: uInt)) input) = Some s0"
    and "infl s0 (unat (ucast (input_len * 4) :: uInt)) = (Z_BUF_ERROR, d, s)" "\<And>n. infl s n = (Z_BUF_ERROR, [], s)"
  shows "\<exists>k>0. (\<forall>j. 0 < j \<and> j < k \<longrightarrow> input_len * 4 * 2 ^ j \<noteq> 0 \<and> realloc_ok (input_len * 4 * 2 ^ j)) \<and>
    (if input_len * 4 * 2 ^ k = 0 then compression_gzip_decompress init infl True realloc_ok input input_len = None
     else \<not> realloc_ok (input_len * 4 * 2 ^ k) \<and>
       compression_gzip_decompress init infl True realloc_ok input input_len = Some (-1, []))"
proof -
  have "compression_gzip_decompress init infl True realloc_ok input input_len =
      inflate_loop infl realloc_ok (input_len * 4) Z_BUF_ERROR d s"
    using assms(1,2) by (simp add: compression_gzip_decompress_def)
  then show ?thesis using assms(3) by (simp only:) (rule inflate_loop_starves)
qed

theorem gunzip_truncated_starves_witness:
  "compression_gzip_decompress Some (\<lambda>s n. (Z_BUF_ERROR, [], s)) True (\<lambda>n. n \<le> 100) [31] 1 = Some (-1, []) \<and>
   compression_gzip_decompress Some (\<lambda>s n. (Z_BUF_ERROR, [], s)) True (\<lambda>n. n \<le> 100) [] 0 = None"
proof -
  let ?f = "\<lambda>s n. (Z_BUF_ERROR, [] :: u8 list, s :: u8 list)" and ?re = "\<lambda>n :: size_t. n \<le> 100"
  have 1: "\<exists>k>0. (\<forall>j. 0 < j \<and> j < k \<longrightarrow> (1 * 4 * 2 ^ j :: size_t) \<noteq> 0 \<and> ?re (1 * 4 * 2 ^ j)) \<and>
      (if (1 * 4 * 2 ^ k :: size_t) = 0 then compression_gzip_decompress Some ?f True ?re [31] 1 = None
       else \<not> ?re (1 * 4 * 2 ^ k) \<and> compression_gzip_decompress Some ?f True ?re [31] 1 = Some (-1, []))"
    by (rule gunzip_truncated_starves [of Some 1 "[31]" _ ?f "[]"]) simp_all
  then obtain k where k: "\<forall>j. 0 < j \<and> j < k \<longrightarrow> (1 * 4 * 2 ^ j :: size_t) \<noteq> 0 \<and> ?re (1 * 4 * 2 ^ j)"
    "if (1 * 4 * 2 ^ k :: size_t) = 0 then compression_gzip_decompress Some ?f True ?re [31] 1 = None
     else \<not> ?re (1 * 4 * 2 ^ k) \<and> compression_gzip_decompress Some ?f True ?re [31] 1 = Some (-1, [])" by blast
  have "\<not> 5 < k"
  proof
    assume "5 < k"
    with k(1) [rule_format, of 5] show False by (simp add: word_le_nat_alt)
  qed
  then have "k \<in> {0, 1, 2, 3, 4, 5}" by auto
  then have "(1 * 4 * 2 ^ k :: size_t) \<noteq> 0" by auto
  with k(2) have "compression_gzip_decompress Some ?f True ?re [31] 1 = Some (-1, [])" by simp
  moreover have "\<exists>k>0. (\<forall>j. 0 < j \<and> j < k \<longrightarrow> (0 * 4 * 2 ^ j :: size_t) \<noteq> 0 \<and> ?re (0 * 4 * 2 ^ j)) \<and>
      (if (0 * 4 * 2 ^ k :: size_t) = 0 then compression_gzip_decompress Some ?f True ?re [] 0 = None
       else \<not> ?re (0 * 4 * 2 ^ k) \<and> compression_gzip_decompress Some ?f True ?re [] 0 = Some (-1, []))"
    by (rule gunzip_truncated_starves [of Some 0 "[]" _ ?f "[]"]) simp_all
  ultimately show ?thesis by (simp split: if_splits) blast
qed

text \<open>Decompression stays inside its buffer.  If \<open>inflate\<close> keeps to the room it is
  given and \<open>realloc\<close> grants no size from \<open>2 ^ 63\<close> on, the output fits the buffer that was
  allocated first or one that was granted later, 64-bit doublings and 32-bit lengths included.\<close>

theorem gunzip_fits:
  assumes "\<And>s n. length (fst (snd (infl s n))) \<le> n" "\<And>n. realloc_ok n \<Longrightarrow> unat n < 2 ^ 63" "unat input_len < 2 ^ 61"
    and "compression_gzip_decompress init infl True realloc_ok input input_len = Some (r, result)"
  shows "length result \<le> 4 * unat input_len \<or> (\<exists>n. realloc_ok n \<and> length result \<le> unat n)"
proof (cases "init (take (unat (ucast input_len :: uInt)) input)")
  case None
  with assms(4) show ?thesis by (simp add: compression_gzip_decompress_def)
next
  case (Some s)
  let ?b = "input_len * 4" and ?n = "unat (ucast (input_len * 4) :: uInt)"
  obtain ret d s' where i: "infl s ?n = (ret, d, s')" by (cases "infl s ?n") auto
  have b: "unat ?b = 4 * unat input_len" using assms(3) by (simp add: unat_word_ariths)
  have "?n \<le> unat ?b" by (simp add: unsigned_ucast_eq take_bit_eq_mod)
  with assms(1) [of s ?n] i have "length d \<le> unat ?b" by simp
  moreover have "inflate_loop infl realloc_ok ?b ret d s' = Some (r, result)"
    using assms(4) Some i by (simp add: compression_gzip_decompress_def)
  ultimately show ?thesis
    using inflate_loop_fits [of infl realloc_ok d ?b ret s' r result] assms(1-3) b by simp
qed

theorem gunzip_fits_witness:
  "compression_gzip_decompress store_init store_inflate True (\<lambda>n. n < 100) [31, 1, 2, 3] 4 = Some (0, [1, 2, 3]) \<and>
   (length [1, 2, 3 :: u8] \<le> 4 * unat (4 :: size_t) \<or> (\<exists>n. n < (100 :: size_t) \<and> length [1, 2, 3 :: u8] \<le> unat n))"
proof -
  have d: "compression_gzip_decompress store_init store_inflate True (\<lambda>n. n < 100) [31, 1, 2, 3] 4 = Some (0, [1, 2, 3])"
    by (simp add: compression_gzip_decompress_def store_init_def store_inflate_def inflate_loop.simps)
  have "unat n < 2 ^ 63" if "n < 100" for n :: size_t using that by (simp add: word_less_nat_alt)
  from gunzip_fits [OF _ this _ d] d show ?thesis by (simp add: store_inflate_def)
qed

end
