(* ===== verification/Compression.thy ===== *)
theory Compression
  imports Http_Parse
begin

text \<open>
  The header functions of \<^verbatim>\<open>src/protocols/compression.c\<close>: which encoding the client
  accepts, which responses are worth compressing, and the edits of the header fields in the
  buffer of a response.  A response is the C string in its buffer.
\<close>

subsection \<open>Decisions\<close>

definition compression_check_accept_encoding :: "string \<Rightarrow> compression_type" where
  "compression_check_accept_encoding headers =
     (case strcasestr headers ''Accept-Encoding:'' of
        None \<Rightarrow> COMPRESS_NONE
      | Some accept_encoding \<Rightarrow>
          if strcasestr accept_encoding ''gzip'' \<noteq> None then COMPRESS_GZIP
          else if strcasestr accept_encoding ''deflate'' \<noteq> None then COMPRESS_DEFLATE
          else COMPRESS_NONE)"

definition compressible_types :: "string list" where
  "compressible_types =
     [''text/'', ''application/json'', ''application/javascript'', ''application/xml'', ''application/xhtml'']"

fun any_type :: "string list \<Rightarrow> string \<Rightarrow> bool" where
  "any_type [] content_type = False"
| "any_type (t # ts) content_type = (if strcasestr content_type t \<noteq> None then True else any_type ts content_type)"

definition compression_should_compress :: "proxy_config \<Rightarrow> string option \<Rightarrow> size_t \<Rightarrow> c_int" where
  "compression_should_compress cfg content_type content_length =
     (if enable_compression cfg = 0 then 0
      else if content_length < 1024 then 0
      else if content_length > 10 * 1024 * 1024 then 0
      else case content_type of
        None \<Rightarrow> 0
      | Some t \<Rightarrow> if any_type compressible_types t then 1 else 0)"

subsection \<open>Editing the header\<close>

text \<open>\<open>snprintf\<close> into an array of 128 characters.\<close>

definition encoding_header :: "string \<Rightarrow> string" where
  "encoding_header encoding = take 127 (''Content-Encoding: '' @ encoding @ CRLF)"

definition compression_add_encoding_header :: "string \<Rightarrow> size_t \<Rightarrow> string \<Rightarrow> c_int \<times> string" where
  "compression_add_encoding_header response response_size encoding =
     (case strstr response CRLF of
        None \<Rightarrow> (-1, response)
      | Some r \<Rightarrow>
          (let header_start = drop 2 r in
           if strcasestr response ''Content-Encoding:'' \<noteq> None then (0, response)
           else
             let h = encoding_header encoding in
             if response_size \<le> of_nat (length response) + of_nat (length h) then (-1, response)
             else (0, upto response header_start @ h @ header_start)))"

text \<open>The size of the buffer is not an argument of \<open>compression_update_content_length\<close>: it
  is here, as \<open>cap\<close>, to tell a write past its end, the result \<^const>\<open>None\<close>.\<close>

definition length_header :: "size_t \<Rightarrow> string" where
  "length_header new_length = ''Content-Length: '' @ show_nat (unat new_length)"

definition compression_update_content_length :: "nat \<Rightarrow> string \<Rightarrow> size_t \<Rightarrow> (c_int \<times> string) option" where
  "compression_update_content_length cap response new_length =
     (case strcasestr response ''Content-Length:'' of
        None \<Rightarrow> Some (0, response)
      | Some content_length \<Rightarrow>
          (case strstr content_length CRLF of
             None \<Rightarrow> Some (-1, response)
           | Some line_end \<Rightarrow>
               (let new_header = length_header new_length;
                    old_header_len = length content_length - length line_end;
                    before = upto response content_length
                in if length new_header \<le> old_header_len then
                     Some (0, before @ new_header @ replicate (old_header_len - length new_header) CHR '' '' @ line_end)
                   else
                     map_option (\<lambda>s. (0, s)) (strcpy cap (before @ new_header @ line_end)))))"

subsection \<open>Reading a number back\<close>

lemma is_digit_char: "(d :: nat) < 10 \<Longrightarrow> is_digit (char_of (48 + d))"
  by (simp add: is_digit_def code_def)

lemma show_nat_digits: "list_all is_digit (show_nat n) \<and> show_nat n \<noteq> []"
proof (induction n rule: less_induct)
  case (less n)
  show ?case
  proof (cases "n < 10")
    case True
    then show ?thesis by (simp add: show_nat_small is_digit_char)
  next
    case False
    with less [of "n div 10"] show ?thesis by (simp add: show_nat_step is_digit_char)
  qed
qed

lemma digits_value_snoc: "digits_value (s @ [c]) = 10 * digits_value s + (int (code c) - 48)"
  by (simp add: digits_value_def)

lemma digits_value_show: "digits_value (show_nat n) = int n"
proof (induction n rule: less_induct)
  case (less n)
  show ?case
  proof (cases "n < 10")
    case True
    then show ?thesis by (simp add: show_nat_small digits_value_def code_def)
  next
    case False
    moreover have "10 * int (n div 10) + int (n mod 10) = int n"
      by (metis mult_div_mod_eq of_nat_add of_nat_mult of_nat_numeral)
    ultimately show ?thesis using less [of "n div 10"] by (simp add: show_nat_step digits_value_snoc code_def)
  qed
qed

lemma atoi_show:
  assumes "n < 2 ^ 31" "r = [] \<or> \<not> is_digit (hd r)"
  shows "atoi ('' '' @ show_nat n @ r) = int n"
proof -
  obtain c s where s: "show_nat n = c # s" using show_nat_digits [of n] by (cases "show_nat n") auto
  have c: "is_digit c" using show_nat_digits [of n] s by simp
  then have "\<not> is_space c" "c \<noteq> CHR ''-''" "c \<noteq> CHR ''+''" by (auto simp: is_digit_def is_space_def code_def)
  moreover have "takeWhile is_digit (show_nat n @ r) = show_nat n"
    using show_nat_digits [of n] assms(2) by (cases r) (auto simp: list_all_iff takeWhile_append)
  moreover have "is_space CHR '' ''" by (simp add: is_space_def code_def)
  ultimately show ?thesis
    using s digits_value_show [of n] assms(1) by (simp add: atoi_def Let_def wrap32_nonneg_id)
qed

subsection \<open>Finding a field\<close>

lemma starts_with_map: "starts_with (map f n) (map f (n @ r))"
  by (simp add: starts_with_iff)

lemma strcasestr_finds: "strcasestr (p @ n @ q) n \<noteq> None"
proof (induction p)
  case Nil
  show ?case by (cases "n @ q") (use starts_with_map [of to_lower n q] in auto)
next
  case (Cons c p)
  then show ?case by simp
qed

lemma strcasestr_after_line:
  assumes "strcasestr p n = None" "to_lower CR \<notin> to_lower ` set n" "to_lower LF \<notin> to_lower ` set n" "n \<noteq> []"
  shows "strcasestr (p @ CRLF @ n @ q) n = Some (n @ q)"
proof -
  have "strcasestr (p @ CR # LF # n @ q) n = strcasestr ([] @ LF # n @ q) n"
    using strcasestr_skip [OF assms(1,2,4), of "LF # n @ q"] by simp
  also have "\<dots> = strcasestr (n @ q) n" by (rule strcasestr_skip [OF _ assms(3,4)]) (use assms(4) in simp)
  finally show ?thesis using strcasestr_here [OF assms(4)] by simp
qed

subsection \<open>Properties\<close>

text \<open>The encoding header.  A response with a status line and without the field gets the
  field as its first, everything else is kept; the result fits the buffer with its
  terminator, and a second call changes nothing.\<close>

theorem encoding_header_added:
  assumes "CR \<notin> set line" "strcasestr (line @ CRLF @ rest) ''Content-Encoding:'' = None" "length encoding \<le> 107"
    and "length (line @ CRLF @ rest) + length encoding + 20 < unat response_size"
  shows "\<exists>result. compression_add_encoding_header (line @ CRLF @ rest) response_size encoding = (0, result) \<and>
    result = line @ CRLF @ ''Content-Encoding: '' @ encoding @ CRLF @ rest \<and> length result < unat response_size \<and>
    compression_add_encoding_header result response_size encoding = (0, result)"
proof -
  let ?r = "line @ CRLF @ rest" and ?h = "''Content-Encoding: '' @ encoding @ CRLF"
  let ?result = "(line @ CRLF) @ ?h @ rest"
  have h: "encoding_header encoding = ?h" using assms(3) by (simp add: encoding_header_def)
  have len: "length ?r + length ?h < unat response_size" using assms(4) by simp
  have "unat response_size < 2 ^ 64" using unsigned_less [of response_size] by simp
  with len have "unat (of_nat (length ?r) + of_nat (length ?h) :: size_t) = length ?r + length ?h"
    by (simp only: of_nat_add [symmetric]) (intro unat_of_nat_size, linarith)
  with len have room: "\<not> response_size \<le> of_nat (length ?r) + of_nat (length ?h)"
    by (simp only: word_le_nat_alt not_le)
  have first: "strstr ?r CRLF = Some (CRLF @ rest)" by (rule strstr_CRLF [OF assms(1)])
  have "upto ?r rest = line @ CRLF" using upto_append [of "line @ CRLF" rest] by simp
  then have once: "compression_add_encoding_header ?r response_size encoding = (0, ?result)"
    unfolding compression_add_encoding_header_def first option.case Let_def h using room assms(2) by simp
  have "strcasestr ((line @ CRLF) @ ''Content-Encoding:'' @ ('' '' @ encoding @ CRLF @ rest)) ''Content-Encoding:'' \<noteq> None"
    by (rule strcasestr_finds)
  then have found: "strcasestr ?result ''Content-Encoding:'' \<noteq> None" by simp
  have "strstr (line @ CRLF @ (?h @ rest)) CRLF = Some (CRLF @ ?h @ rest)" by (rule strstr_CRLF [OF assms(1)])
  then have again: "strstr ?result CRLF = Some (CRLF @ ?h @ rest)" by simp
  have twice: "compression_add_encoding_header ?result response_size encoding = (0, ?result)"
    unfolding compression_add_encoding_header_def again option.case Let_def using found by simp
  show ?thesis using once twice len by (intro exI [of _ ?result]) simp
qed

theorem encoding_header_added_witness:
  "\<exists>result. compression_add_encoding_header (''HTTP/1.1 200 OK'' @ CRLF @ CRLF) 100 ''gzip'' = (0, result) \<and>
     result = ''HTTP/1.1 200 OK'' @ CRLF @ ''Content-Encoding: gzip'' @ CRLF @ CRLF"
proof -
  have "strcasestr (''HTTP/1.1 200 OK'' @ CRLF @ CRLF) ''Content-Encoding:'' = None" by (simp add: char_eval)
  from encoding_header_added [OF _ this, of "''gzip''" 100] show ?thesis by auto
qed

text \<open>C34: the length header.  The value of a \<open>Content-Length\<close> field is replaced by one that
  reads back as the new length, everything else is kept.  The response becomes longer when the
  old value was written in fewer characters, and since the function does not know the size of
  the buffer it then writes past its end whenever the response filled it.\<close>

theorem content_length_replaced:
  assumes "strcasestr p ''Content-Length:'' = None" "CR \<notin> set v" "unat n < 2 ^ 31"
    and "response = p @ CRLF @ ''Content-Length:'' @ v @ CRLF @ rest" "length response < cap"
  shows "(compression_update_content_length cap response n = None \<longleftrightarrow>
      cap + length v \<le> length response + Suc (length (show_nat (unat n)))) \<and>
    (\<forall>r s. compression_update_content_length cap response n = Some (r, s) \<longrightarrow> r = 0 \<and>
      (\<exists>v'. s = p @ CRLF @ ''Content-Length:'' @ v' @ CRLF @ rest \<and> atoi v' = int (unat n) \<and>
         length v' = max (length v) (Suc (length (show_nat (unat n))))))"
proof -
  let ?d = "show_nat (unat n)" and ?f = "''Content-Length:''"
  have stop: "to_lower CR \<notin> to_lower ` set ?f" "to_lower LF \<notin> to_lower ` set ?f" by (simp_all add: char_eval)
  have f: "strcasestr response ?f = Some (?f @ v @ CRLF @ rest)"
    unfolding assms(4) by (rule strcasestr_after_line [OF assms(1) stop]) simp
  have "strstr ((?f @ v) @ CRLF @ rest) CRLF = Some (CRLF @ rest)" by (rule strstr_CRLF) (use assms(2) in simp)
  then have e: "strstr (?f @ v @ CRLF @ rest) CRLF = Some (CRLF @ rest)" by simp
  have b: "upto response (?f @ v @ CRLF @ rest) = p @ CRLF"
    unfolding assms(4) using upto_append [of "p @ CRLF" "?f @ v @ CRLF @ rest"] by simp
  have lh: "length_header n = ?f @ '' '' @ ?d" by (simp add: length_header_def)
  have u: "compression_update_content_length cap response n =
     (if Suc (length ?d) \<le> length v then
        Some (0, p @ CRLF @ ?f @ ('' '' @ ?d @ replicate (length v - Suc (length ?d)) CHR '' '') @ CRLF @ rest)
      else map_option (\<lambda>s. (0, s)) (strcpy cap (p @ CRLF @ ?f @ ('' '' @ ?d) @ CRLF @ rest)))"
    unfolding compression_update_content_length_def f option.case e Let_def b lh by simp
  have pad: "atoi ('' '' @ ?d @ replicate k CHR '' '') = int (unat n)" for k
    by (rule atoi_show [OF assms(3)]) (cases k; simp add: is_digit_def code_def)
  show ?thesis
  proof (cases "Suc (length ?d) \<le> length v")
    case True
    with u pad [of "length v - Suc (length ?d)"] assms(5) show ?thesis by (auto simp: max_def)
  next
    case False
    have l: "length (p @ CRLF @ ?f @ ('' '' @ ?d) @ CRLF @ rest) = length response + Suc (length ?d) - length v"
      using False by (simp add: assms(4))
    have "compression_update_content_length cap response n =
        map_option (\<lambda>s. (0, s)) (strcpy cap (p @ CRLF @ ?f @ ('' '' @ ?d) @ CRLF @ rest))" using False u by simp
    with l pad [of 0] False show ?thesis by (auto simp: strcpy_def max_def)
  qed
qed

theorem content_length_replaced_witness:
  "compression_update_content_length 24 (''A'' @ CRLF @ ''Content-Length:'' @ ''9'' @ CRLF) 100 = None \<and>
   compression_update_content_length 25 (''A'' @ CRLF @ ''Content-Length:'' @ ''9'' @ CRLF) 100 \<noteq> None"
proof -
  have n: "strcasestr ''A'' ''Content-Length:'' = None" "show_nat (unat (100 :: size_t)) = ''100''"
    by (simp add: char_eval) (simp add: show_nat_small show_nat_step char_of_def bit_Suc_0_iff)
  from content_length_replaced [OF n(1), of "''9''" 100 "''A'' @ CRLF @ ''Content-Length:'' @ ''9'' @ CRLF" "[]"] n(2)
  show ?thesis by simp
qed

end
