(* ===== verification/Ssl.thy ===== *)
theory Ssl
  imports Proxy_Types "HOL-Library.Monad_Syntax"
begin

text \<open>
  TLS, \<^verbatim>\<open>src/protocols/ssl.c\<close>.  OpenSSL is not part of the repository: what its
  functions return is an argument, and what the code owes it is modelled, namely that an
  object it was given is released once and not after that, and that the mutex is not locked
  twice.  \<^const>\<open>None\<close> is a run that breaks one of these rules.
\<close>

subsection \<open>Objects\<close>

datatype obj = Ctx addr | Ssl addr | Wrapper addr | Rsa | Bignum | Pkey | X509 | File

definition release :: "obj \<Rightarrow> obj set \<Rightarrow> obj set option" where
  "release x L = (if x \<in> L then Some (L - {x}) else None)"

text \<open>\<open>if (x) free(x);\<close>\<close>

definition release_if :: "bool \<Rightarrow> obj \<Rightarrow> obj set \<Rightarrow> obj set option" where
  "release_if present x L = (if present then release x L else Some L)"

record ssl_context =
  sc_ctx :: "addr option"
  sc_ssl :: "addr option"
  is_server :: c_int

record ssl_state =
  g_server_ssl_ctx :: "addr option"
  ssl_locked :: bool
  ssl_live :: "obj set"

definition lock_ssl :: "ssl_state \<Rightarrow> ssl_state option" where
  "lock_ssl st = (if ssl_locked st then None else Some (st\<lparr>ssl_locked := True\<rparr>))"

definition unlock_ssl :: "ssl_state \<Rightarrow> ssl_state option" where
  "unlock_ssl st = (if ssl_locked st then Some (st\<lparr>ssl_locked := False\<rparr>) else None)"

definition on_live :: "(obj set \<Rightarrow> obj set option) \<Rightarrow> ssl_state \<Rightarrow> ssl_state option" where
  "on_live f st = map_option (\<lambda>L. st\<lparr>ssl_live := L\<rparr>) (f (ssl_live st))"

subsection \<open>The context of the server\<close>

definition ssl_init :: c_int where "ssl_init = 0"

text \<open>A failure after \<open>SSL_CTX_new\<close> frees the context and clears the global.\<close>

definition drop_server_ctx :: "addr \<Rightarrow> ssl_state \<Rightarrow> (c_int \<times> ssl_state) option" where
  "drop_server_ctx c st =
     do {
       st \<leftarrow> on_live (release (Ctx c)) st;
       st \<leftarrow> unlock_ssl (st\<lparr>g_server_ssl_ctx := None\<rparr>);
       Some (-1, st)
     }"

definition ssl_create_server_context ::
  "addr option \<Rightarrow> bool \<Rightarrow> bool \<Rightarrow> bool \<Rightarrow> ssl_state \<Rightarrow> (c_int \<times> ssl_state) option" where
  "ssl_create_server_context ctx_new cert_ok key_ok matches st =
     do {
       st \<leftarrow> lock_ssl st;
       let st = st\<lparr>g_server_ssl_ctx := ctx_new\<rparr>;
       (case ctx_new of
          None \<Rightarrow> do { st \<leftarrow> unlock_ssl st; Some (-1, st) }
        | Some c \<Rightarrow>
            let st = st\<lparr>ssl_live := insert (Ctx c) (ssl_live st)\<rparr> in
            if \<not> cert_ok then drop_server_ctx c st
            else if \<not> key_ok then drop_server_ctx c st
            else if \<not> matches then drop_server_ctx c st
            else do { st \<leftarrow> unlock_ssl st; Some (0, st) })
     }"

definition ssl_cleanup :: "proxy_config \<Rightarrow> ssl_state \<Rightarrow> ssl_state option" where
  "ssl_cleanup cfg st =
     (if enable_ssl cfg = 0 then Some st
      else
        do {
          st \<leftarrow> lock_ssl st;
          st \<leftarrow> (case g_server_ssl_ctx st of
                  None \<Rightarrow> Some st
                | Some c \<Rightarrow> map_option (\<lambda>st. st\<lparr>g_server_ssl_ctx := None\<rparr>) (on_live (release (Ctx c)) st));
          unlock_ssl st
        })"

subsection \<open>Sessions\<close>

text \<open>The arguments are what \<open>SSL_CTX_new\<close>, \<open>SSL_new\<close>, the handshake and \<open>malloc\<close>
  return; the result is the wrapper with its address.\<close>

type_synonym session = "(addr \<times> ssl_context) option"

definition ssl_create_client_context ::
  "addr option \<Rightarrow> addr option \<Rightarrow> bool \<Rightarrow> addr option \<Rightarrow> obj set \<Rightarrow> (session \<times> obj set) option" where
  "ssl_create_client_context ctx_new ssl_new connects m L =
     (case ctx_new of
        None \<Rightarrow> Some (None, L)
      | Some c \<Rightarrow>
          (let L = insert (Ctx c) L in
           case ssl_new of
             None \<Rightarrow> do { L \<leftarrow> release (Ctx c) L; Some (None, L) }
           | Some s \<Rightarrow>
               (let L = insert (Ssl s) L in
                if \<not> connects then
                  do { L \<leftarrow> release (Ssl s) L; L \<leftarrow> release (Ctx c) L; Some (None, L) }
                else case m of
                  None \<Rightarrow> do { L \<leftarrow> release (Ssl s) L; L \<leftarrow> release (Ctx c) L; Some (None, L) }
                | Some w \<Rightarrow>
                    Some (Some (w, \<lparr>sc_ctx = Some c, sc_ssl = Some s, is_server = 0\<rparr>), insert (Wrapper w) L))))"

definition ssl_accept_connection ::
  "addr option \<Rightarrow> bool \<Rightarrow> addr option \<Rightarrow> ssl_state \<Rightarrow> (session \<times> ssl_state) option" where
  "ssl_accept_connection ssl_new accepts m st =
     (if g_server_ssl_ctx st = None then Some (None, st)
      else
        do {
          st \<leftarrow> lock_ssl st;
          (case ssl_new of
             None \<Rightarrow> do { st \<leftarrow> unlock_ssl st; Some (None, st) }
           | Some s \<Rightarrow>
               do {
                 st \<leftarrow> unlock_ssl (st\<lparr>ssl_live := insert (Ssl s) (ssl_live st)\<rparr>);
                 if \<not> accepts then do { st \<leftarrow> on_live (release (Ssl s)) st; Some (None, st) }
                 else case m of
                   None \<Rightarrow> do { st \<leftarrow> on_live (release (Ssl s)) st; Some (None, st) }
                 | Some w \<Rightarrow>
                     Some (Some (w, \<lparr>sc_ctx = None, sc_ssl = Some s, is_server = 1\<rparr>),
                           st\<lparr>ssl_live := insert (Wrapper w) (ssl_live st)\<rparr>)
               })
        })"

definition ssl_shutdown :: "session \<Rightarrow> obj set \<Rightarrow> obj set option" where
  "ssl_shutdown ssl_ctx L =
     (case ssl_ctx of
        None \<Rightarrow> Some L
      | Some (w, sc) \<Rightarrow>
          do {
            L \<leftarrow> (case sc_ssl sc of None \<Rightarrow> Some L | Some s \<Rightarrow> release (Ssl s) L);
            L \<leftarrow> (case sc_ctx sc of
                   None \<Rightarrow> Some L
                 | Some c \<Rightarrow> if is_server sc = 0 then release (Ctx c) L else Some L);
            release (Wrapper w) L
          })"

text \<open>\<open>ssl_read\<close> and \<open>ssl_write\<close>: \<open>n\<close> is what OpenSSL returned, \<open>want\<close> whether the error
  is that it waits for the socket.  The result is the return value and whether \<open>errno\<close> is
  set to \<open>EAGAIN\<close>.\<close>

definition ssl_transfer :: "c_int \<Rightarrow> bool \<Rightarrow> session \<Rightarrow> c_int \<times> bool" where
  "ssl_transfer n want ssl_ctx =
     (if ssl_ctx = None \<or> sc_ssl (snd (the ssl_ctx)) = None then (-1, False)
      else if n < 0 then (if want then (-1, True) else (-1, False))
      else (n, False))"

definition ssl_get_cipher_info :: "string \<Rightarrow> session \<Rightarrow> string" where
  "ssl_get_cipher_info cipher ssl_ctx =
     (if ssl_ctx = None \<or> sc_ssl (snd (the ssl_ctx)) = None then ''None'' else cipher)"

text \<open>\<open>names\<close> are the subject and the issuer of the certificate of the peer, if it has one;
  \<open>X509_NAME_oneline\<close> and \<open>snprintf\<close> cut them to their buffers.\<close>

definition ssl_get_peer_cert_info :: "(string \<times> string) option \<Rightarrow> nat \<Rightarrow> session \<Rightarrow> c_int \<times> string option" where
  "ssl_get_peer_cert_info names buf_size ssl_ctx =
     (if ssl_ctx = None \<or> sc_ssl (snd (the ssl_ctx)) = None then (-1, None)
      else case names of
        None \<Rightarrow> (-1, Some (take (buf_size - 1) ''No certificate''))
      | Some (subject, issuer) \<Rightarrow>
          (0, Some (take (buf_size - 1)
             (''Subject: '' @ take 255 subject @ '', Issuer: '' @ take 255 issuer))))"

subsection \<open>A self-signed certificate\<close>

record cert_answers =
  ca_word :: bool
  ca_generate :: bool
  ca_assign :: bool
  ca_x509 :: bool
  ca_sign :: bool
  ca_key_open :: bool
  ca_key_write :: bool
  ca_cert_open :: bool
  ca_cert_write :: bool

text \<open>The label \<open>cleanup\<close>: each pointer that is not NULL is released.\<close>

definition cert_cleanup :: "bool \<Rightarrow> bool \<Rightarrow> bool \<Rightarrow> bool \<Rightarrow> c_int \<Rightarrow> obj set \<Rightarrow> (c_int \<times> obj set) option" where
  "cert_cleanup fp x509 pkey rsa ret L =
     do {
       L \<leftarrow> release_if fp File L;
       L \<leftarrow> release_if x509 X509 L;
       L \<leftarrow> release_if pkey Pkey L;
       L \<leftarrow> release_if rsa Rsa L;
       L \<leftarrow> release_if True Bignum L;
       Some (ret, L)
     }"

text \<open>\<open>RSA_new\<close>, \<open>BN_new\<close> and \<open>EVP_PKEY_new\<close> are taken to succeed, as the code does not
  look.  After \<open>EVP_PKEY_assign_RSA\<close> the key is released with \<open>pkey\<close>.\<close>

definition ssl_generate_self_signed_cert :: "cert_answers \<Rightarrow> obj set \<Rightarrow> (c_int \<times> obj set) option" where
  "ssl_generate_self_signed_cert a L =
     (let L = insert Bignum (insert Rsa L) in
      if \<not> ca_word a then cert_cleanup False False False True (-1) L
      else if \<not> ca_generate a then cert_cleanup False False False True (-1) L
      else
        let L = insert Pkey L in
        if \<not> ca_assign a then cert_cleanup False False True True (-1) L
        else
          do {
            L \<leftarrow> release Rsa L;
            if \<not> ca_x509 a then cert_cleanup False False True False (-1) L
            else
              let L = insert X509 L in
              if \<not> ca_sign a then cert_cleanup False True True False (-1) L
              else if \<not> ca_key_open a then cert_cleanup False True True False (-1) L
              else
                let L = insert File L in
                if \<not> ca_key_write a then cert_cleanup True True True False (-1) L
                else
                  do {
                    L \<leftarrow> release File L;
                    if \<not> ca_cert_open a then cert_cleanup False True True False (-1) L
                    else
                      let L = insert File L in
                      if \<not> ca_cert_write a then cert_cleanup True True True False (-1) L
                      else cert_cleanup True True True False 0 L
                  }
          })"

subsection \<open>Properties\<close>

lemmas releases = release_def release_if_def on_live_def lock_ssl_def unlock_ssl_def

lemma client_session_released:
  assumes "\<And>c. ctx_new = Some c \<Longrightarrow> Ctx c \<notin> L" "\<And>s. ssl_new = Some s \<Longrightarrow> Ssl s \<notin> L" "\<And>w. m = Some w \<Longrightarrow> Wrapper w \<notin> L"
  shows "\<exists>x L'. ssl_create_client_context ctx_new ssl_new connects m L = Some (x, L') \<and>
    ssl_shutdown x L' = Some L \<and> (x = None \<longrightarrow> L' = L)"
  using assms
  by (cases ctx_new; cases ssl_new; cases m)
    (simp_all add: ssl_create_client_context_def ssl_shutdown_def releases insert_Diff_if Let_def)

lemma accepted_session_released:
  assumes "\<And>s. ssl_new = Some s \<Longrightarrow> Ssl s \<notin> ssl_live st" "\<And>w. m = Some w \<Longrightarrow> Wrapper w \<notin> ssl_live st" "\<not> ssl_locked st"
  shows "\<exists>x st'. ssl_accept_connection ssl_new accepts m st = Some (x, st') \<and> ssl_shutdown x (ssl_live st') = Some (ssl_live st) \<and>
    (x = None \<longrightarrow> st' = st) \<and> \<not> ssl_locked st' \<and> g_server_ssl_ctx st' = g_server_ssl_ctx st"
  using assms
  by (cases st; cases "g_server_ssl_ctx st"; cases ssl_new; cases m)
    (simp_all add: ssl_accept_connection_def ssl_shutdown_def releases insert_Diff_if)

lemma server_context_released:
  assumes "\<And>c. ctx_new = Some c \<Longrightarrow> Ctx c \<notin> ssl_live st" "g_server_ssl_ctx st = None" "\<not> ssl_locked st" "enable_ssl cfg \<noteq> 0"
  shows "\<exists>r st'. ssl_create_server_context ctx_new cert_ok key_ok matches st = Some (r, st') \<and>
    (r = 0 \<longleftrightarrow> ctx_new \<noteq> None \<and> cert_ok \<and> key_ok \<and> matches) \<and> (r \<noteq> 0 \<longrightarrow> st' = st) \<and> ssl_cleanup cfg st' = Some st"
  using assms
  by (cases st; cases ctx_new)
    (simp_all add: ssl_create_server_context_def drop_server_ctx_def ssl_cleanup_def releases insert_Diff_if Let_def)

text \<open>C39: TLS resources are released.  Whichever call fails, a client session or a session
  accepted by the server is either refused with nothing left of it, or returned so that
  \<open>ssl_shutdown\<close> releases exactly what it holds, each object once; the context of the server
  survives its sessions, is created exactly when every call succeeds, and is released by
  \<open>ssl_cleanup\<close>; and the mutex is free after every call.\<close>

theorem ssl_resources_released:
  assumes "\<And>c. ctx_new = Some c \<Longrightarrow> Ctx c \<notin> ssl_live st" "\<And>s. ssl_new = Some s \<Longrightarrow> Ssl s \<notin> ssl_live st"
    and "\<And>w. m = Some w \<Longrightarrow> Wrapper w \<notin> ssl_live st" "\<not> ssl_locked st"
  shows "(\<exists>x L'. ssl_create_client_context ctx_new ssl_new ok m (ssl_live st) = Some (x, L') \<and>
      ssl_shutdown x L' = Some (ssl_live st) \<and> (x = None \<longrightarrow> L' = ssl_live st)) \<and>
    (\<exists>x st'. ssl_accept_connection ssl_new ok m st = Some (x, st') \<and> ssl_shutdown x (ssl_live st') = Some (ssl_live st) \<and>
      (x = None \<longrightarrow> st' = st) \<and> \<not> ssl_locked st' \<and> g_server_ssl_ctx st' = g_server_ssl_ctx st) \<and>
    (g_server_ssl_ctx st = None \<and> enable_ssl cfg \<noteq> 0 \<longrightarrow>
      (\<exists>r st'. ssl_create_server_context ctx_new cert_ok key_ok matches st = Some (r, st') \<and>
        (r = 0 \<longleftrightarrow> ctx_new \<noteq> None \<and> cert_ok \<and> key_ok \<and> matches) \<and> (r \<noteq> 0 \<longrightarrow> st' = st) \<and> ssl_cleanup cfg st' = Some st))"
proof (intro conjI impI)
  show "\<exists>x L'. ssl_create_client_context ctx_new ssl_new ok m (ssl_live st) = Some (x, L') \<and>
      ssl_shutdown x L' = Some (ssl_live st) \<and> (x = None \<longrightarrow> L' = ssl_live st)"
    by (rule client_session_released [OF assms(1-3)])
  show "\<exists>x st'. ssl_accept_connection ssl_new ok m st = Some (x, st') \<and> ssl_shutdown x (ssl_live st') = Some (ssl_live st) \<and>
      (x = None \<longrightarrow> st' = st) \<and> \<not> ssl_locked st' \<and> g_server_ssl_ctx st' = g_server_ssl_ctx st"
    by (rule accepted_session_released [OF assms(2-4)])
  assume "g_server_ssl_ctx st = None \<and> enable_ssl cfg \<noteq> 0"
  then show "\<exists>r st'. ssl_create_server_context ctx_new cert_ok key_ok matches st = Some (r, st') \<and>
        (r = 0 \<longleftrightarrow> ctx_new \<noteq> None \<and> cert_ok \<and> key_ok \<and> matches) \<and> (r \<noteq> 0 \<longrightarrow> st' = st) \<and> ssl_cleanup cfg st' = Some st"
    using server_context_released [of ctx_new st cfg] assms(1,4) by blast
qed

theorem ssl_resources_released_witness:
  "\<exists>x st'. ssl_accept_connection (Some 2) True (Some 3) \<lparr>g_server_ssl_ctx = Some 1, ssl_locked = False, ssl_live = {Ctx 1}\<rparr> = Some (x, st') \<and>
     ssl_shutdown x (ssl_live st') = Some {Ctx 1} \<and> g_server_ssl_ctx st' = Some 1"
proof -
  let ?st = "\<lparr>g_server_ssl_ctx = Some 1, ssl_locked = False, ssl_live = {Ctx 1}\<rparr>"
  have "\<exists>x st'. ssl_accept_connection (Some 2) True (Some 3) ?st = Some (x, st') \<and> ssl_shutdown x (ssl_live st') = Some (ssl_live ?st) \<and>
      (x = None \<longrightarrow> st' = ?st) \<and> \<not> ssl_locked st' \<and> g_server_ssl_ctx st' = g_server_ssl_ctx ?st"
    by (rule conjunct1 [OF conjunct2 [OF ssl_resources_released [of None ?st "Some 2" "Some 3"]]]) simp_all
  then show ?thesis by auto
qed

text \<open>Generating a certificate releases everything.  At whichever of the nine calls it
  fails, and when it succeeds, \<open>ssl_generate_self_signed_cert\<close> releases each object it made
  exactly once, the key only through the object that took it over, and closes the file that
  is open; it returns 0 exactly when every call succeeded.\<close>

theorem cert_generation_released:
  assumes "L \<inter> {Rsa, Bignum, Pkey, X509, File} = {}"
  shows "\<exists>r. ssl_generate_self_signed_cert a L = Some (r, L) \<and>
    (r = 0 \<longleftrightarrow> ca_word a \<and> ca_generate a \<and> ca_assign a \<and> ca_x509 a \<and> ca_sign a \<and> ca_key_open a \<and> ca_key_write a \<and>
       ca_cert_open a \<and> ca_cert_write a)"
  using assms by (simp add: ssl_generate_self_signed_cert_def cert_cleanup_def releases insert_Diff_if Let_def)

theorem cert_generation_released_witness:
  "\<exists>r. ssl_generate_self_signed_cert \<lparr>ca_word = True, ca_generate = True, ca_assign = True, ca_x509 = True, ca_sign = True,
      ca_key_open = True, ca_key_write = False, ca_cert_open = True, ca_cert_write = True\<rparr> {} = Some (r, {}) \<and> r \<noteq> 0"
  using cert_generation_released [of "{}" "\<lparr>ca_word = True, ca_generate = True, ca_assign = True, ca_x509 = True, ca_sign = True,
      ca_key_open = True, ca_key_write = False, ca_cert_open = True, ca_cert_write = True\<rparr>"] by auto

end
