(* ===== verification/Main_Program.thy ===== *)
theory Main_Program
  imports Server Ssl Gzip Compression Rate_Limit Load_Balancer Config
begin

text \<open>
  The program, \<^verbatim>\<open>src/main.c\<close>: the command line, the order in which \<open>main\<close>
  brings the subsystems up, and the order in which it takes them down.
\<close>

subsection \<open>The command line\<close>

definition set_flag :: "string \<Rightarrow> proxy_config \<Rightarrow> proxy_config" where
  "set_flag arg cfg =
     (if arg = ''--enable-cache'' then cfg\<lparr>enable_caching := 1\<rparr>
      else if arg = ''--enable-ssl'' then cfg\<lparr>enable_ssl := 1\<rparr>
      else if arg = ''--enable-auth'' then cfg\<lparr>enable_auth := 1\<rparr>
      else if arg = ''--enable-logging'' then cfg\<lparr>enable_logging := 1\<rparr>
      else if arg = ''--enable-filtering'' then cfg\<lparr>enable_filtering := 1\<rparr>
      else if arg = ''--enable-compression'' then cfg\<lparr>enable_compression := 1\<rparr>
      else if arg = ''--enable-rate-limit'' then cfg\<lparr>enable_rate_limiting := 1\<rparr>
      else cfg)"

text \<open>The values of \<open>-m\<close> and \<open>-M\<close> are those of the keys \<open>mode\<close> and
  \<open>thread_model\<close> of a file.\<close>

datatype option_kind = Opt_help | Opt_config | Opt_port | Opt_bind | Opt_mode | Opt_threads | Opt_model | Opt_other

definition option_kind :: "string \<Rightarrow> option_kind" where
  "option_kind arg =
     (if arg = ''-h'' \<or> arg = ''--help'' then Opt_help
      else if arg = ''-c'' \<or> arg = ''--config'' then Opt_config
      else if arg = ''-p'' \<or> arg = ''--port'' then Opt_port
      else if arg = ''-b'' \<or> arg = ''--bind'' then Opt_bind
      else if arg = ''-m'' \<or> arg = ''--mode'' then Opt_mode
      else if arg = ''-t'' \<or> arg = ''--threads'' then Opt_threads
      else if arg = ''-M'' \<or> arg = ''--thread-model'' then Opt_model
      else Opt_other)"

definition set_valued :: "option_kind \<Rightarrow> string \<Rightarrow> proxy_config \<Rightarrow> proxy_config" where
  "set_valued k value cfg =
     (case k of
        Opt_port \<Rightarrow> cfg\<lparr>port := atoi value\<rparr>
      | Opt_bind \<Rightarrow> cfg\<lparr>bind_address := field_copy BIND_ADDRESS_SIZE value\<rparr>
      | Opt_mode \<Rightarrow> set_mode value cfg
      | Opt_threads \<Rightarrow> cfg\<lparr>num_threads := atoi value\<rparr>
      | Opt_model \<Rightarrow> set_thread_model value cfg
      | _ \<Rightarrow> cfg)"

text \<open>The arguments after the name of the program; \<open>files\<close> are the contents of the files
  that can be opened.  An option that lacks its value ends the loop.\<close>

fun parse_args :: "(string \<Rightarrow> string option) \<Rightarrow> string list \<Rightarrow> proxy_config \<Rightarrow> c_int \<times> proxy_config" where
  "parse_args files [] cfg = (0, cfg)"
| "parse_args files (arg # args) cfg =
     (case option_kind arg of
        Opt_help \<Rightarrow> (-1, cfg)
      | Opt_other \<Rightarrow> parse_args files args (set_flag arg cfg)
      | k \<Rightarrow>
          (case args of
             [] \<Rightarrow> (0, cfg)
           | value # args' \<Rightarrow>
               if k = Opt_config then config_load (files value) cfg
               else parse_args files args' (set_valued k value cfg)))"

text \<open>\<open>signal_handler\<close>: SIGINT is 2, SIGTERM is 15.\<close>

definition signal_handler :: "c_int \<Rightarrow> server \<Rightarrow> server" where
  "signal_handler signum sv = (if signum = 2 \<or> signum = 15 then sv\<lparr>sv_running := 0\<rparr> else sv)"

subsection \<open>The subsystems\<close>

record program =
  pr_server :: server
  pr_limits :: "rate_limiter list \<times> bandwidth_tracker list"
  pr_lb :: "load_balancer option"
  pr_ssl :: ssl_state

abbreviation pr_proxy :: "program \<Rightarrow> proxy" where
  "pr_proxy pr \<equiv> sv_proxy (pr_server pr)"

definition on_proxy :: "(proxy \<Rightarrow> proxy) \<Rightarrow> program \<Rightarrow> program" where
  "on_proxy f pr = pr\<lparr>pr_server := (pr_server pr)\<lparr>sv_proxy := f (pr_proxy pr)\<rparr>\<rparr>"

text \<open>What the system, the allocator and OpenSSL answer during the start.\<close>

record start_answers =
  sa_log_open :: "string \<Rightarrow> bool"
  sa_cache :: "bool \<times> bool"
  sa_users :: "nat \<Rightarrow> credentials option"
  sa_fopen :: "string \<Rightarrow> string option"
  sa_patterns :: "nat \<Rightarrow> char list option"
  sa_exists :: "string \<Rightarrow> bool"
  sa_cert :: cert_answers
  sa_ctx :: "addr option \<times> bool \<times> bool \<times> bool"
  sa_balancer :: "bool \<times> (nat \<Rightarrow> bool)"
  sa_now :: time_t

definition start_ssl :: "start_answers \<Rightarrow> proxy_config \<Rightarrow> ssl_state \<Rightarrow> ssl_state option" where
  "start_ssl sa cfg st =
     do {
       st \<leftarrow> (if \<not> sa_exists sa (ssl_cert_file cfg) \<or> \<not> sa_exists sa (ssl_key_file cfg)
             then on_live (\<lambda>L. map_option snd (ssl_generate_self_signed_cert (sa_cert sa) L)) st
             else Some st);
       (case sa_ctx sa of
          (c, cert_ok, key_ok, matches) \<Rightarrow> map_option snd (ssl_create_server_context c cert_ok key_ok matches st))
     }"

text \<open>\<open>if (flag) f();\<close>\<close>

definition on_flag :: "bool \<Rightarrow> ('a \<Rightarrow> 'a) \<Rightarrow> 'a \<Rightarrow> 'a" where
  "on_flag b f x = (if b then f x else x)"

definition start_features :: "start_answers \<Rightarrow> proxy_config \<Rightarrow> program \<Rightarrow> program" where
  "start_features sa cfg pr =
     (let pr = on_proxy (\<lambda>P. P\<lparr>p_config := cfg\<rparr>) pr;
          pr = on_flag (enable_logging cfg \<noteq> 0) (on_proxy (\<lambda>P. P\<lparr>p_logger :=
                 logger_init (sa_log_open sa) (Some (log_file cfg)) (log_level cfg) (p_logger P)\<rparr>)) pr;
          pr = on_flag (enable_caching cfg \<noteq> 0) (on_proxy (\<lambda>P. P\<lparr>p_cache :=
                 snd (cache_init (fst (sa_cache sa)) (snd (sa_cache sa)) (cache_size_mb cfg))\<rparr>)) pr;
          pr = on_flag (enable_auth cfg \<noteq> 0) (on_proxy (\<lambda>P. P\<lparr>p_users :=
                 snd (auth_init (sa_users sa) (sa_fopen sa) (Some (auth_file cfg)) (p_users P))\<rparr>)) pr;
          pr = on_flag (enable_filtering cfg \<noteq> 0) (on_proxy (\<lambda>P. P\<lparr>p_filter :=
                 snd (filter_init (sa_patterns sa) cfg (p_filter P))\<rparr>)) pr
      in on_flag (enable_rate_limiting cfg \<noteq> 0) (\<lambda>pr. pr\<lparr>pr_limits := ratelimit_init\<rparr>) pr)"

definition start_subsystems :: "start_answers \<Rightarrow> proxy_config \<Rightarrow> program \<Rightarrow> program option" where
  "start_subsystems sa cfg pr =
     (let pr = start_features sa cfg pr
      in map_option
           (\<lambda>st.
             let pr = on_flag (mode cfg = PROXY_MODE_REVERSE) (\<lambda>pr. pr\<lparr>pr_lb :=
                   snd (loadbalancer_init (fst (sa_balancer sa)) (snd (sa_balancer sa)) (sa_now sa) cfg (pr_lb pr))\<rparr>)
                 (pr\<lparr>pr_ssl := st\<rparr>)
             in on_proxy (\<lambda>P. P\<lparr>p_net := (p_net P)\<lparr>w_stats := stats_init (sa_now sa)\<rparr>\<rparr>) pr)
           (if enable_ssl cfg \<noteq> 0 then start_ssl sa cfg (pr_ssl pr) else Some (pr_ssl pr)))"

text \<open>The end of \<open>main\<close>, after the server has returned: the heap of the cache that is left is
  the first component.\<close>

definition stop_features :: "proxy_config \<Rightarrow> program \<Rightarrow> (addr \<rightharpoonup> cache_entry) \<times> program" where
  "stop_features cfg pr =
     (let pr = pr\<lparr>pr_server := proxy_server_cleanup (pr_server pr)\<rparr>;
          (left, g) = (if enable_caching cfg \<noteq> 0 then cache_cleanup (p_cache (pr_proxy pr)) else (Map.empty, p_cache (pr_proxy pr)));
          pr = on_proxy (\<lambda>P. P\<lparr>p_cache := g\<rparr>) pr;
          pr = on_flag (enable_auth cfg \<noteq> 0) (on_proxy (\<lambda>P. P\<lparr>p_users := auth_cleanup (p_users P)\<rparr>)) pr;
          pr = on_flag (enable_filtering cfg \<noteq> 0) (on_proxy (\<lambda>P. P\<lparr>p_filter := filter_cleanup (p_filter P)\<rparr>)) pr;
          pr = on_flag (enable_rate_limiting cfg \<noteq> 0) (\<lambda>pr. pr\<lparr>pr_limits := ratelimit_cleanup (pr_limits pr)\<rparr>) pr
      in (left, on_flag (mode cfg = PROXY_MODE_REVERSE) (\<lambda>pr. pr\<lparr>pr_lb := loadbalancer_cleanup (pr_lb pr)\<rparr>) pr))"

definition stop_subsystems :: "proxy_config \<Rightarrow> program \<Rightarrow> ((addr \<rightharpoonup> cache_entry) \<times> program) option" where
  "stop_subsystems cfg pr =
     (case stop_features cfg pr of (left, pr) \<Rightarrow>
        map_option
          (\<lambda>st. (left, on_flag (enable_logging cfg \<noteq> 0)
             (on_proxy (\<lambda>P. P\<lparr>p_logger := logger_cleanup (p_logger P)\<rparr>)) (pr\<lparr>pr_ssl := st\<rparr>)))
          (ssl_cleanup cfg (pr_ssl pr)))"

subsection \<open>What each step changes\<close>

lemma on_proxy_fields [simp]:
  "pr_proxy (on_proxy f pr) = f (pr_proxy pr)" "pr_limits (on_proxy f pr) = pr_limits pr"
  "pr_lb (on_proxy f pr) = pr_lb pr" "pr_ssl (on_proxy f pr) = pr_ssl pr"
  "sv_fd (pr_server (on_proxy f pr)) = sv_fd (pr_server pr)" "sv_epoll (pr_server (on_proxy f pr)) = sv_epoll (pr_server pr)"
  "sv_pool (pr_server (on_proxy f pr)) = sv_pool (pr_server pr)"
  by (simp_all add: on_proxy_def)

lemma when_on_proxy [simp]:
  "pr_proxy (on_flag b (on_proxy f) pr) = on_flag b f (pr_proxy pr)" "pr_limits (on_flag b (on_proxy f) pr) = pr_limits pr"
  "pr_lb (on_flag b (on_proxy f) pr) = pr_lb pr" "pr_ssl (on_flag b (on_proxy f) pr) = pr_ssl pr"
  "sv_fd (pr_server (on_flag b (on_proxy f) pr)) = sv_fd (pr_server pr)"
  "sv_epoll (pr_server (on_flag b (on_proxy f) pr)) = sv_epoll (pr_server pr)"
  "sv_pool (pr_server (on_flag b (on_proxy f) pr)) = sv_pool (pr_server pr)"
  by (simp_all add: on_flag_def)

lemma when_limits [simp]:
  "pr_server (on_flag b (\<lambda>pr. pr\<lparr>pr_limits := F pr\<rparr>) pr) = pr_server pr" "pr_lb (on_flag b (\<lambda>pr. pr\<lparr>pr_limits := F pr\<rparr>) pr) = pr_lb pr"
  "pr_ssl (on_flag b (\<lambda>pr. pr\<lparr>pr_limits := F pr\<rparr>) pr) = pr_ssl pr"
  "pr_limits (on_flag b (\<lambda>pr. pr\<lparr>pr_limits := F pr\<rparr>) pr) = (if b then F pr else pr_limits pr)"
  by (simp_all add: on_flag_def)

lemma when_lb [simp]:
  "pr_server (on_flag b (\<lambda>pr. pr\<lparr>pr_lb := F pr\<rparr>) pr) = pr_server pr" "pr_limits (on_flag b (\<lambda>pr. pr\<lparr>pr_lb := F pr\<rparr>) pr) = pr_limits pr"
  "pr_ssl (on_flag b (\<lambda>pr. pr\<lparr>pr_lb := F pr\<rparr>) pr) = pr_ssl pr"
  "pr_lb (on_flag b (\<lambda>pr. pr\<lparr>pr_lb := F pr\<rparr>) pr) = (if b then F pr else pr_lb pr)"
  by (simp_all add: on_flag_def)

lemma when_cache [simp]:
  "p_cache (on_flag b (\<lambda>P. P\<lparr>p_cache := F P\<rparr>) P) = (if b then F P else p_cache P)" "p_users (on_flag b (\<lambda>P. P\<lparr>p_cache := F P\<rparr>) P) = p_users P"
  "p_filter (on_flag b (\<lambda>P. P\<lparr>p_cache := F P\<rparr>) P) = p_filter P" "p_logger (on_flag b (\<lambda>P. P\<lparr>p_cache := F P\<rparr>) P) = p_logger P"
  "p_config (on_flag b (\<lambda>P. P\<lparr>p_cache := F P\<rparr>) P) = p_config P"
  by (simp_all add: on_flag_def)

lemma when_users [simp]:
  "p_users (on_flag b (\<lambda>P. P\<lparr>p_users := F P\<rparr>) P) = (if b then F P else p_users P)" "p_cache (on_flag b (\<lambda>P. P\<lparr>p_users := F P\<rparr>) P) = p_cache P"
  "p_filter (on_flag b (\<lambda>P. P\<lparr>p_users := F P\<rparr>) P) = p_filter P" "p_logger (on_flag b (\<lambda>P. P\<lparr>p_users := F P\<rparr>) P) = p_logger P"
  "p_config (on_flag b (\<lambda>P. P\<lparr>p_users := F P\<rparr>) P) = p_config P"
  by (simp_all add: on_flag_def)

lemma when_filter [simp]:
  "p_filter (on_flag b (\<lambda>P. P\<lparr>p_filter := F P\<rparr>) P) = (if b then F P else p_filter P)" "p_cache (on_flag b (\<lambda>P. P\<lparr>p_filter := F P\<rparr>) P) = p_cache P"
  "p_users (on_flag b (\<lambda>P. P\<lparr>p_filter := F P\<rparr>) P) = p_users P" "p_logger (on_flag b (\<lambda>P. P\<lparr>p_filter := F P\<rparr>) P) = p_logger P"
  "p_config (on_flag b (\<lambda>P. P\<lparr>p_filter := F P\<rparr>) P) = p_config P"
  by (simp_all add: on_flag_def)

lemma when_logger [simp]:
  "p_logger (on_flag b (\<lambda>P. P\<lparr>p_logger := F P\<rparr>) P) = (if b then F P else p_logger P)" "p_cache (on_flag b (\<lambda>P. P\<lparr>p_logger := F P\<rparr>) P) = p_cache P"
  "p_users (on_flag b (\<lambda>P. P\<lparr>p_logger := F P\<rparr>) P) = p_users P" "p_filter (on_flag b (\<lambda>P. P\<lparr>p_logger := F P\<rparr>) P) = p_filter P"
  "p_config (on_flag b (\<lambda>P. P\<lparr>p_logger := F P\<rparr>) P) = p_config P"
  by (simp_all add: on_flag_def)

lemma server_cleanup_fields [simp]:
  "p_cache (sv_proxy (proxy_server_cleanup sv)) = p_cache (sv_proxy sv)" "p_users (sv_proxy (proxy_server_cleanup sv)) = p_users (sv_proxy sv)"
  "p_filter (sv_proxy (proxy_server_cleanup sv)) = p_filter (sv_proxy sv)" "p_logger (sv_proxy (proxy_server_cleanup sv)) = p_logger (sv_proxy sv)"
  "sv_pool (proxy_server_cleanup sv) = None" "sv_fd (proxy_server_cleanup sv) < 0" "sv_epoll (proxy_server_cleanup sv) < 0"
  by (auto simp: proxy_server_cleanup_def on_server_def Let_def)

subsection \<open>What the command line can do\<close>

lemma set_valued_config: "set_valued k v cfg = cfg \<or> (\<exists>key. set_valued k v cfg = config_set key v cfg)"
proof (cases k)
  case Opt_port
  then show ?thesis by (intro disjI2 exI [of _ "''port''"]) (simp add: set_valued_def config_set_def)
next
  case Opt_bind
  then show ?thesis by (intro disjI2 exI [of _ "''bind_address''"]) (simp add: set_valued_def config_set_def)
next
  case Opt_mode
  then show ?thesis by (intro disjI2 exI [of _ "''mode''"]) (simp add: set_valued_def config_set_def)
next
  case Opt_threads
  then show ?thesis by (intro disjI2 exI [of _ "''num_threads''"]) (simp add: set_valued_def config_set_def)
next
  case Opt_model
  then show ?thesis by (intro disjI2 exI [of _ "''thread_model''"]) (simp add: set_valued_def config_set_def)
qed (simp_all add: set_valued_def)

lemma config_wf_valued: "config_wf cfg \<Longrightarrow> c_string v \<Longrightarrow> config_wf (set_valued k v cfg)"
  using set_valued_config [of k v cfg] config_wf_set [of cfg v] by auto

lemma config_wf_flag: "config_wf cfg \<Longrightarrow> config_wf (set_flag arg cfg)"
  by (simp add: set_flag_def config_wf_def)

lemma parse_args_wf:
  "config_wf cfg \<Longrightarrow> list_all c_string args \<Longrightarrow> config_wf (snd (parse_args files args cfg))"
proof (induction files args cfg rule: parse_args.induct)
  case (2 files arg args cfg)
  show ?case
  proof (cases "option_kind arg = Opt_other")
    case True
    with 2 show ?thesis by (simp add: config_wf_flag)
  next
    case False
    show ?thesis
    proof (cases args)
      case Nil
      with 2 False show ?thesis by (cases "option_kind arg") simp_all
    next
      case (Cons v rest)
      with 2 False show ?thesis
        by (cases "option_kind arg") (simp_all add: config_wf_valued config_wf_load)
    qed
  qed
qed simp

text \<open>An argument, as it is written.\<close>

datatype arg = Flag string | Valued string string

fun arg_text :: "arg \<Rightarrow> string list" where
  "arg_text (Flag f) = [f]"
| "arg_text (Valued f v) = [f, v]"

fun arg_ok :: "arg \<Rightarrow> bool" where
  "arg_ok (Flag f) \<longleftrightarrow> option_kind f = Opt_other"
| "arg_ok (Valued f v) \<longleftrightarrow> option_kind f \<notin> {Opt_help, Opt_config, Opt_other}"

fun apply_arg :: "arg \<Rightarrow> proxy_config \<Rightarrow> proxy_config" where
  "apply_arg (Flag f) cfg = set_flag f cfg"
| "apply_arg (Valued f v) cfg = set_valued (option_kind f) v cfg"

lemma parse_args_prefix:
  "list_all arg_ok as \<Longrightarrow> parse_args files (concat (map arg_text as) @ rest) cfg = parse_args files rest (fold apply_arg as cfg)"
proof (induction as arbitrary: cfg)
  case (Cons a as)
  show ?case
  proof (cases a)
    case (Flag f)
    with Cons show ?thesis by simp
  next
    case (Valued f v)
    with Cons show ?thesis by (cases "option_kind f") simp_all
  qed
qed simp

text \<open>The options that the usage text lists, their words and what they are for.\<close>

datatype feature =
  Feature_cache | Feature_ssl | Feature_auth | Feature_logging | Feature_filtering | Feature_compression | Feature_rate_limit

datatype cli_option =
  Cli_port nat | Cli_bind string | Cli_mode proxy_mode | Cli_threads nat | Cli_model thread_model | Cli_enable feature

fun mode_name :: "proxy_mode \<Rightarrow> string" where
  "mode_name PROXY_MODE_HTTP = ''http''"
| "mode_name PROXY_MODE_HTTPS = ''https''"
| "mode_name PROXY_MODE_SOCKS5 = ''socks5''"
| "mode_name PROXY_MODE_TCP = ''tcp''"
| "mode_name PROXY_MODE_REVERSE = ''reverse''"
| "mode_name PROXY_MODE_TRANSPARENT = ''transparent''"

fun model_name :: "thread_model \<Rightarrow> string" where
  "model_name THREAD_MODEL_POOL = ''pool''"
| "model_name THREAD_MODEL_EVENT_DRIVEN = ''event''"
| "model_name THREAD_MODEL_HYBRID = ''hybrid''"
| "model_name THREAD_MODEL_PER_CONNECTION = ''perconn''"

fun feature_flag :: "feature \<Rightarrow> string" where
  "feature_flag Feature_cache = ''--enable-cache''"
| "feature_flag Feature_ssl = ''--enable-ssl''"
| "feature_flag Feature_auth = ''--enable-auth''"
| "feature_flag Feature_logging = ''--enable-logging''"
| "feature_flag Feature_filtering = ''--enable-filtering''"
| "feature_flag Feature_compression = ''--enable-compression''"
| "feature_flag Feature_rate_limit = ''--enable-rate-limit''"

fun cli_words :: "bool \<Rightarrow> cli_option \<Rightarrow> string list" where
  "cli_words long (Cli_port n) = [if long then ''--port'' else ''-p'', show_nat n]"
| "cli_words long (Cli_bind a) = [if long then ''--bind'' else ''-b'', a]"
| "cli_words long (Cli_mode m) = [if long then ''--mode'' else ''-m'', mode_name m]"
| "cli_words long (Cli_threads n) = [if long then ''--threads'' else ''-t'', show_nat n]"
| "cli_words long (Cli_model m) = [if long then ''--thread-model'' else ''-M'', model_name m]"
| "cli_words long (Cli_enable f) = [feature_flag f]"

fun cli_ok :: "cli_option \<Rightarrow> bool" where
  "cli_ok (Cli_port n) \<longleftrightarrow> n < 2 ^ 31"
| "cli_ok (Cli_bind a) \<longleftrightarrow> length a < BIND_ADDRESS_SIZE"
| "cli_ok (Cli_mode m) \<longleftrightarrow> m \<noteq> PROXY_MODE_TRANSPARENT"
| "cli_ok (Cli_threads n) \<longleftrightarrow> n < 2 ^ 31"
| "cli_ok (Cli_model m) \<longleftrightarrow> True"
| "cli_ok (Cli_enable f) \<longleftrightarrow> True"

fun enable :: "feature \<Rightarrow> proxy_config \<Rightarrow> proxy_config" where
  "enable Feature_cache cfg = cfg\<lparr>enable_caching := 1\<rparr>"
| "enable Feature_ssl cfg = cfg\<lparr>enable_ssl := 1\<rparr>"
| "enable Feature_auth cfg = cfg\<lparr>enable_auth := 1\<rparr>"
| "enable Feature_logging cfg = cfg\<lparr>enable_logging := 1\<rparr>"
| "enable Feature_filtering cfg = cfg\<lparr>enable_filtering := 1\<rparr>"
| "enable Feature_compression cfg = cfg\<lparr>enable_compression := 1\<rparr>"
| "enable Feature_rate_limit cfg = cfg\<lparr>enable_rate_limiting := 1\<rparr>"

fun cli_effect :: "cli_option \<Rightarrow> proxy_config \<Rightarrow> proxy_config" where
  "cli_effect (Cli_port n) cfg = cfg\<lparr>port := int n\<rparr>"
| "cli_effect (Cli_bind a) cfg = cfg\<lparr>bind_address := a\<rparr>"
| "cli_effect (Cli_mode m) cfg = cfg\<lparr>mode := m\<rparr>"
| "cli_effect (Cli_threads n) cfg = cfg\<lparr>num_threads := int n\<rparr>"
| "cli_effect (Cli_model m) cfg = cfg\<lparr>thread_model := m\<rparr>"
| "cli_effect (Cli_enable f) cfg = enable f cfg"

lemma atoi_number: "n < 2 ^ 31 \<Longrightarrow> atoi (show_nat n) = int n"
  using atoi_show [of n "[]"] by (simp add: atoi_def is_space_def code_def)

lemma cli_step:
  assumes "cli_ok a"
  shows "parse_args files (cli_words long a @ rest) cfg = parse_args files rest (cli_effect a cfg)"
proof (cases a)
  case (Cli_mode m)
  with assms show ?thesis by (cases m) (simp_all add: option_kind_def set_valued_def set_mode_def)
next
  case (Cli_model m)
  then show ?thesis by (cases m) (simp_all add: option_kind_def set_valued_def set_thread_model_def)
next
  case (Cli_enable f)
  then show ?thesis by (cases f) (simp_all add: option_kind_def set_flag_def)
qed (use assms in \<open>simp_all add: option_kind_def set_valued_def atoi_number\<close>)

subsection \<open>Start and stop\<close>

text \<open>The program before the start, and after the stop.\<close>

definition blank :: "program \<Rightarrow> bool" where
  "blank pr \<longleftrightarrow> p_cache (pr_proxy pr) = None \<and> p_users (pr_proxy pr) = [] \<and> p_filter (pr_proxy pr) = filter_none \<and>
     (\<forall>f. g_log_file (p_logger (pr_proxy pr)) \<noteq> Some (Log_file f)) \<and> pr_limits pr = ([], []) \<and> pr_lb pr = None \<and>
     g_server_ssl_ctx (pr_ssl pr) = None \<and> \<not> ssl_locked (pr_ssl pr)"

text \<open>A program that runs under the configuration \<open>cfg\<close>: what is switched off was never
  started, and the cache and the TLS state are consistent.\<close>

definition orderly :: "proxy_config \<Rightarrow> program \<Rightarrow> bool" where
  "orderly cfg pr \<longleftrightarrow>
     (enable_caching cfg = 0 \<longrightarrow> p_cache (pr_proxy pr) = None) \<and> (\<forall>c. p_cache (pr_proxy pr) = Some c \<longrightarrow> cache_wf c) \<and>
     (enable_auth cfg = 0 \<longrightarrow> p_users (pr_proxy pr) = []) \<and>
     (enable_filtering cfg = 0 \<longrightarrow> p_filter (pr_proxy pr) = filter_none) \<and>
     (enable_logging cfg = 0 \<longrightarrow> (\<forall>f. g_log_file (p_logger (pr_proxy pr)) \<noteq> Some (Log_file f))) \<and>
     (enable_rate_limiting cfg = 0 \<longrightarrow> pr_limits pr = ([], [])) \<and> (mode cfg \<noteq> PROXY_MODE_REVERSE \<longrightarrow> pr_lb pr = None) \<and>
     (enable_ssl cfg = 0 \<longrightarrow> g_server_ssl_ctx (pr_ssl pr) = None) \<and> \<not> ssl_locked (pr_ssl pr) \<and>
     (\<forall>c. g_server_ssl_ctx (pr_ssl pr) = Some c \<longrightarrow> Ctx c \<in> ssl_live (pr_ssl pr))"

lemma ssl_cleanup_orderly:
  assumes "\<not> ssl_locked st" "\<And>c. g_server_ssl_ctx st = Some c \<Longrightarrow> Ctx c \<in> ssl_live st" "enable_ssl cfg = 0 \<longrightarrow> g_server_ssl_ctx st = None"
  shows "\<exists>st'. ssl_cleanup cfg st = Some st' \<and> g_server_ssl_ctx st' = None \<and> \<not> ssl_locked st' \<and>
    ssl_live st' = ssl_live st - (case g_server_ssl_ctx st of None \<Rightarrow> {} | Some c \<Rightarrow> {Ctx c})"
  using assms by (cases "g_server_ssl_ctx st") (simp_all add: ssl_cleanup_def releases)

lemma start_ssl_orderly:
  assumes "\<not> ssl_locked st" "start_ssl sa cfg st = Some st'"
  shows "\<not> ssl_locked st' \<and> (\<forall>c. g_server_ssl_ctx st' = Some c \<longrightarrow> Ctx c \<in> ssl_live st')"
proof -
  from assms(2) obtain st1 where s: "(if \<not> sa_exists sa (ssl_cert_file cfg) \<or> \<not> sa_exists sa (ssl_key_file cfg)
      then on_live (\<lambda>L. map_option snd (ssl_generate_self_signed_cert (sa_cert sa) L)) st else Some st) = Some st1"
    "(case sa_ctx sa of (c, a, b, m) \<Rightarrow> map_option snd (ssl_create_server_context c a b m st1)) = Some st'"
    unfolding start_ssl_def bind_eq_Some_conv by blast
  have 1: "\<not> ssl_locked st1" using s(1) assms(1) by (auto simp: on_live_def split: if_splits)
  obtain c a b m where "sa_ctx sa = (c, a, b, m)" by (cases "sa_ctx sa")
  with 1 s(2) show ?thesis
    by (cases c) (auto simp: ssl_create_server_context_def drop_server_ctx_def releases Let_def bind_eq_Some_conv split: if_splits)
qed

lemma start_fields:
  assumes "start_subsystems sa cfg pr = Some pr1"
  shows "p_config (pr_proxy pr1) = cfg"
    and "p_cache (pr_proxy pr1) = (if enable_caching cfg \<noteq> 0 then
        snd (cache_init (fst (sa_cache sa)) (snd (sa_cache sa)) (cache_size_mb cfg)) else p_cache (pr_proxy pr))"
    and "p_users (pr_proxy pr1) = (if enable_auth cfg \<noteq> 0 then
        snd (auth_init (sa_users sa) (sa_fopen sa) (Some (auth_file cfg)) (p_users (pr_proxy pr))) else p_users (pr_proxy pr))"
    and "p_filter (pr_proxy pr1) = (if enable_filtering cfg \<noteq> 0 then
        snd (filter_init (sa_patterns sa) cfg (p_filter (pr_proxy pr))) else p_filter (pr_proxy pr))"
    and "p_logger (pr_proxy pr1) = (if enable_logging cfg \<noteq> 0 then
        logger_init (sa_log_open sa) (Some (log_file cfg)) (log_level cfg) (p_logger (pr_proxy pr)) else p_logger (pr_proxy pr))"
    and "pr_limits pr1 = (if enable_rate_limiting cfg \<noteq> 0 then ratelimit_init else pr_limits pr)"
    and "mode cfg \<noteq> PROXY_MODE_REVERSE \<Longrightarrow> pr_lb pr1 = pr_lb pr"
    and "(if enable_ssl cfg \<noteq> 0 then start_ssl sa cfg (pr_ssl pr) else Some (pr_ssl pr)) = Some (pr_ssl pr1)"
  using assms by (auto simp: start_subsystems_def start_features_def Let_def)

lemma start_orderly:
  assumes "start_subsystems sa cfg pr = Some pr1" "blank pr"
  shows "orderly cfg pr1"
proof -
  note f = start_fields [OF assms(1)]
  have b: "\<not> ssl_locked (pr_ssl pr)" "g_server_ssl_ctx (pr_ssl pr) = None" using assms(2) by (simp_all add: blank_def)
  have ssl: "\<not> ssl_locked (pr_ssl pr1) \<and> (\<forall>c. g_server_ssl_ctx (pr_ssl pr1) = Some c \<longrightarrow> Ctx c \<in> ssl_live (pr_ssl pr1)) \<and>
      (enable_ssl cfg = 0 \<longrightarrow> g_server_ssl_ctx (pr_ssl pr1) = None)"
    using f(8) b start_ssl_orderly [OF b(1), of sa cfg "pr_ssl pr1"] by (auto split: if_splits)
  have "\<forall>c. p_cache (pr_proxy pr1) = Some c \<longrightarrow> cache_wf c"
    using f(2) assms(2) wf_init by (auto simp: blank_def split: if_splits) (metis prod.collapse)
  with ssl f assms(2) show ?thesis by (auto simp: orderly_def blank_def)
qed

lemma stop_blank:
  assumes "orderly cfg pr"
  shows "\<exists>pr2. stop_subsystems cfg pr = Some (Map.empty, pr2) \<and> blank pr2 \<and> sv_fd (pr_server pr2) < 0 \<and>
    sv_epoll (pr_server pr2) < 0 \<and> sv_pool (pr_server pr2) = None"
proof -
  note o = assms [unfolded orderly_def]
  have ssl: "ssl_cleanup cfg (pr_ssl pr) \<noteq> None"
    "\<And>st. ssl_cleanup cfg (pr_ssl pr) = Some st \<Longrightarrow> g_server_ssl_ctx st = None \<and> \<not> ssl_locked st"
    using ssl_cleanup_orderly [of "pr_ssl pr" cfg] o by auto
  have cache: "enable_caching cfg \<noteq> 0 \<Longrightarrow> cache_cleanup (p_cache (pr_proxy pr)) = (Map.empty, None)"
    using o cleanup_frees_all by (cases "p_cache (pr_proxy pr)") (auto simp: cache_cleanup_def)
  have log: "g_log_file (logger_cleanup lg) \<noteq> Some (Log_file f)" for lg f
    by (auto simp: logger_cleanup_def split: option.splits log_target.splits)
  have no_cache: "enable_caching cfg = 0 \<Longrightarrow> p_cache (pr_proxy pr) = None" using o by blast
  define pr1 where "pr1 = snd (stop_features cfg pr)"
  have 1: "fst (stop_features cfg pr) = Map.empty" "pr_ssl pr1 = pr_ssl pr" "p_cache (pr_proxy pr1) = None"
    "p_logger (pr_proxy pr1) = p_logger (pr_proxy pr)"
    "sv_fd (pr_server pr1) < 0" "sv_epoll (pr_server pr1) < 0" "sv_pool (pr_server pr1) = None"
    unfolding pr1_def stop_features_def Let_def
    by (cases "enable_caching cfg = 0"; simp add: cache no_cache)+
  have 2: "p_users (pr_proxy pr1) = (if enable_auth cfg \<noteq> 0 then [] else p_users (pr_proxy pr))"
    "p_filter (pr_proxy pr1) = (if enable_filtering cfg \<noteq> 0 then filter_none else p_filter (pr_proxy pr))"
    "pr_limits pr1 = (if enable_rate_limiting cfg \<noteq> 0 then ([], []) else pr_limits pr)"
    "pr_lb pr1 = (if mode cfg = PROXY_MODE_REVERSE then None else pr_lb pr)"
    unfolding pr1_def stop_features_def Let_def
    by (cases "enable_caching cfg = 0";
      simp add: cache no_cache auth_cleanup_def filter_cleanup_def filter_none_def ratelimit_cleanup_def loadbalancer_cleanup_def)+
  have 3: "p_users (pr_proxy pr1) = []" "p_filter (pr_proxy pr1) = filter_none" "pr_limits pr1 = ([], [])" "pr_lb pr1 = None"
    using 2 o by (simp_all split: if_splits)
  have f: "stop_features cfg pr = (Map.empty, pr1)" using 1(1) by (simp add: pr1_def prod_eq_iff)
  obtain st where st: "ssl_cleanup cfg (pr_ssl pr) = Some st" using ssl(1) by blast
  have s: "stop_subsystems cfg pr = Some (Map.empty, on_flag (enable_logging cfg \<noteq> 0)
      (on_proxy (\<lambda>P. P\<lparr>p_logger := logger_cleanup (p_logger P)\<rparr>)) (pr1\<lparr>pr_ssl := st\<rparr>))"
    by (simp add: stop_subsystems_def f 1(2) st)
  have "blank (on_flag (enable_logging cfg \<noteq> 0) (on_proxy (\<lambda>P. P\<lparr>p_logger := logger_cleanup (p_logger P)\<rparr>)) (pr1\<lparr>pr_ssl := st\<rparr>))"
    using 1 3 ssl(2) [OF st] log o by (simp add: blank_def)
  with s 1 show ?thesis by simp
qed

subsection \<open>Properties\<close>

text \<open>C32: no command line and no file can break a field.  Whatever the arguments are and
  whatever the configuration file holds, the configuration that \<open>main\<close> goes on with is
  well-typed: every array is terminated within its size and every number fits its type.\<close>

theorem command_line_wf:
  assumes "list_all c_string args"
  shows "config_wf (snd (parse_args files args config_set_defaults))"
  using assms by (rule parse_args_wf [OF config_wf_defaults])

theorem command_line_wf_witness:
  "config_wf (snd (parse_args (\<lambda>_. Some ''port=99999999999'') [''-b'', replicate 100 (CHR ''x''), ''-c'', ''f''] config_set_defaults))"
  by (rule command_line_wf) (simp add: c_string_def)

text \<open>C31: the command line means what the usage text says.  Options without a
  configuration file, each under its short or its long name, are applied from left to right,
  and each does exactly this: \<open>-p\<close> and \<open>-t\<close> set the port and the number of threads to
  the number written (below \<open>2^31\<close>), \<open>-b\<close> the address (below 64 characters), \<open>-m\<close> and
  \<open>-M\<close> the mode and the threading model named, \<open>--enable-\<close> flags switch on their
  feature, and nothing else changes.\<close>

theorem command_line_applied:
  assumes "list_all (cli_ok \<circ> snd) os"
  shows "parse_args files (concat (map (\<lambda>(long, a). cli_words long a) os)) cfg = (0, fold (cli_effect \<circ> snd) os cfg)"
  using assms
proof (induction os arbitrary: cfg)
  case (Cons o1 os)
  obtain long a where o1: "o1 = (long, a)" by fastforce
  with Cons.prems have "cli_ok a" by simp
  then have "parse_args files (cli_words long a @ concat (map (\<lambda>(long, a). cli_words long a) os)) cfg =
      parse_args files (concat (map (\<lambda>(long, a). cli_words long a) os)) (cli_effect a cfg)" by (rule cli_step)
  with Cons o1 show ?case by simp
qed simp

theorem command_line_applied_witness:
  "parse_args (\<lambda>_. None) [''-p'', ''1080'', ''--mode'', ''socks5'', ''--enable-auth''] config_set_defaults =
    (0, config_set_defaults\<lparr>port := 1080, mode := PROXY_MODE_SOCKS5, enable_auth := 1\<rparr>)"
proof -
  have n: "show_nat 1080 = ''1080''" by code_simp
  show ?thesis
    using command_line_applied [of "[(False, Cli_port 1080), (True, Cli_mode PROXY_MODE_SOCKS5), (False, Cli_enable Feature_auth)]"
        "\<lambda>_. None" config_set_defaults]
    by (simp add: n del: parse_args.simps)
qed

text \<open>A configuration file ends the command line: its settings come on top of the options
  before it, and whatever follows is ignored, also in the second example of the usage text.\<close>

theorem command_line_config_last:
  assumes "list_all arg_ok as"
  shows "parse_args files (concat (map arg_text as)) cfg = (0, fold apply_arg as cfg) \<and>
    parse_args files (concat (map arg_text as) @ [''-c'', f] @ rest) cfg = config_load (files f) (fold apply_arg as cfg)"
  using parse_args_prefix [OF assms, of files "[]" cfg] parse_args_prefix [OF assms, of files "[''-c'', f] @ rest" cfg]
  by (simp add: option_kind_def)

theorem command_line_config_last_witness:
  "parse_args (\<lambda>_. Some []) [''-m'', ''socks5'', ''--enable-auth'', ''-c'', ''f'', ''-m'', ''http''] config_set_defaults =
    (0, config_set_defaults\<lparr>mode := PROXY_MODE_SOCKS5, enable_auth := 1\<rparr>)"
  using command_line_config_last [of "[Valued ''-m'' ''socks5'', Flag ''--enable-auth'']" "\<lambda>_. Some []" config_set_defaults "''f''"
      "[''-m'', ''http'']"]
  by (simp add: option_kind_def set_valued_def set_mode_def set_flag_def config_load_def)

text \<open>What is started is stopped.  A program brought up from nothing runs with exactly the
  subsystems its configuration names, the others empty; and from every such state, whatever
  the cache, the tables and the TLS context hold by then, the clean-up at the end of \<open>main\<close>
  succeeds, leaves no entry of the cache on the heap, and brings everything back to
  nothing.\<close>

theorem program_releases:
  assumes "blank pr" "start_subsystems sa cfg pr = Some pr1"
  shows "orderly cfg pr1 \<and>
    (\<forall>pr2. orderly cfg pr2 \<longrightarrow> (\<exists>pr3. stop_subsystems cfg pr2 = Some (Map.empty, pr3) \<and> blank pr3 \<and>
       sv_fd (pr_server pr3) < 0 \<and> sv_epoll (pr_server pr3) < 0 \<and> sv_pool (pr_server pr3) = None))"
  using start_orderly [OF assms(2,1)] stop_blank by blast

definition demo_program :: program where
  "demo_program = \<lparr>pr_server = demo_server\<lparr>sv_proxy := demo_proxy\<lparr>p_users := []\<rparr>\<rparr>, pr_limits = ([], []), pr_lb = None,
     pr_ssl = \<lparr>g_server_ssl_ctx = None, ssl_locked = False, ssl_live = {}\<rparr>\<rparr>"

text \<open>Everything succeeds, and every file holds the two accounts.\<close>

definition demo_start :: start_answers where
  "demo_start = \<lparr>sa_log_open = (\<lambda>_. True), sa_cache = (True, True), sa_users = (\<lambda>_. Some \<lparr>username = [], password = []\<rparr>),
     sa_fopen = (\<lambda>_. Some (concat (map account_line [(''bob'', ''pwd''), (''eve'', ''x'')]))), sa_patterns = (\<lambda>_. None),
     sa_exists = (\<lambda>_. True),
     sa_cert = \<lparr>ca_word = True, ca_generate = True, ca_assign = True, ca_x509 = True, ca_sign = True, ca_key_open = True,
       ca_key_write = True, ca_cert_open = True, ca_cert_write = True\<rparr>,
     sa_ctx = (Some 1, True, True, True), sa_balancer = (True, (\<lambda>_. True)), sa_now = 0\<rparr>"

lemma demo_blank: "blank demo_program"
  by (simp add: blank_def demo_program_def demo_server_def demo_proxy_def logger_off_def)

lemma demo_starts: "start_subsystems demo_start cfg demo_program \<noteq> None"
  by (simp add: start_subsystems_def start_features_def start_ssl_def demo_start_def demo_program_def
      ssl_create_server_context_def releases Let_def)

theorem program_releases_witness:
  "\<exists>pr1 pr3. start_subsystems demo_start (config_set_defaults\<lparr>enable_caching := 1, enable_ssl := 1\<rparr>) demo_program = Some pr1 \<and>
     stop_subsystems (config_set_defaults\<lparr>enable_caching := 1, enable_ssl := 1\<rparr>) pr1 = Some (Map.empty, pr3) \<and> blank pr3"
proof -
  let ?cfg = "config_set_defaults\<lparr>enable_caching := 1, enable_ssl := 1\<rparr>"
  obtain pr1 where p: "start_subsystems demo_start ?cfg demo_program = Some pr1" using demo_starts by blast
  from program_releases [OF demo_blank p] p show ?thesis by blast
qed

end
