(* ===== verification/Program_Run.thy ===== *)
theory Program_Run
  imports Main_Program
begin

text \<open>
  A run of \<open>main\<close> (\<^verbatim>\<open>src/main.c\<close>) from the start of the subsystems to its return, with
  the accepting thread and the workers in between: what the server changes of the shared
  state, and what the clean-up finds.
\<close>

subsection \<open>The body of main\<close>

text \<open>After the command line.  \<open>r\<close> is the value \<open>main\<close> returns.\<close>

definition main_run ::
  "start_answers \<Rightarrow> init_answers \<Rightarrow> http_env \<Rightarrow> (c_int \<Rightarrow> u8 list) \<Rightarrow> proxy_config \<Rightarrow> program \<Rightarrow> c_int \<Rightarrow> program \<Rightarrow> bool" where
  "main_run sa ia env sockname cfg pr r pr' \<longleftrightarrow>
     (\<exists>pr1 i sv0. start_subsystems sa cfg pr = Some pr1 \<and> proxy_server_init ia cfg (pr_server pr1) = (i, sv0) \<and>
        (if i \<noteq> 0 then r = 1 \<and> pr' = pr1\<lparr>pr_server := sv0\<rparr>
         else \<exists>s sv1. proxy_server_start (thread_model cfg) env sockname sv0 s sv1 \<and>
           (if s \<noteq> 0 then r = 1 \<and> pr' = pr1\<lparr>pr_server := proxy_server_cleanup sv1\<rparr>
            else r = 0 \<and> (\<exists>left. stop_subsystems cfg (pr1\<lparr>pr_server := sv1\<rparr>) = Some (left, pr')))))"

subsection \<open>What the server leaves alone\<close>

lemma on_server_parts [simp]: "same_parts P (sv_proxy (on_server f sv)) \<longleftrightarrow> same_parts P (sv_proxy sv)"
  by (simp add: on_server_def same_parts_def)

lemma accept_parts: "accept_client cl sv = (a, sv') \<Longrightarrow> same_parts (sv_proxy sv) (sv_proxy sv')"
  by (auto simp: accept_client_def Let_def split: prod.splits option.splits)

lemma submit_parts: "submit_at m wake a sv = (r, sv') \<Longrightarrow> sv_proxy sv' = sv_proxy sv"
  by (auto simp: submit_at_def split: prod.splits)

lemma destroy_parts [simp]: "same_parts P (sv_proxy (destroy_at a sv)) \<longleftrightarrow> same_parts P (sv_proxy sv)"
  by (simp add: destroy_at_def)

lemma pool_accept_parts: "same_parts (sv_proxy sv) (sv_proxy (pool_accept cl m wake sv))"
  using accept_parts [of cl sv] submit_parts [of m wake]
  by (auto simp: pool_accept_def split: prod.split option.split)

lemma hybrid_accept_parts: "same_parts (sv_proxy sv) (sv_proxy (hybrid_accept cl m wake sv))"
proof -
  have "same_parts (sv_proxy sv1) (sv_proxy (snd (submit_at m wake a sv1)))" for a sv1
    using submit_parts [OF prod.collapse [symmetric]] by simp
  then show ?thesis
    using accept_parts [of cl sv] same_parts_trans by (auto simp: hybrid_accept_def split: prod.split option.split)
qed

lemma perconn_accept_parts: "same_parts (sv_proxy sv) (sv_proxy (perconn_accept cl created sv))"
  using accept_parts [of cl sv] by (auto simp: perconn_accept_def split: prod.split option.split)

lemma stop_parts [simp]: "sv_proxy (proxy_server_stop sv) = sv_proxy sv"
  by (simp add: proxy_server_stop_def)

lemma run_worker_steady:
  assumes "run_worker env sockname a sv = Some sv'" "b \<longrightarrow> env_fresh env (sv_proxy sv)"
  shows "steady b (sv_proxy sv) (sv_proxy sv')"
  using assms worker_steady [of env sockname _ "sv_proxy sv"] by (auto simp: run_worker_def split: option.splits)

lemma server_step_steady: "server_step sv sv' \<Longrightarrow> steady True (sv_proxy sv) (sv_proxy sv')"
proof (induction rule: server_step.induct)
  case (works sv p i x env sockname sv1 p')
  from run_worker_steady [OF works(6)] works(5) show ?case by simp
qed (simp_all add: steadyI pool_accept_parts)

lemma perconn_step_steady: "perconn_step sv sv' \<Longrightarrow> steady True (sv_proxy sv) (sv_proxy sv')"
proof (induction rule: perconn_step.induct)
  case (p_works a sv env sockname sv1)
  from run_worker_steady [OF p_works(4)] p_works(3) show ?case by simp
qed (simp_all add: steadyI perconn_accept_parts)

lemma steps_steady:
  "server_step\<^sup>*\<^sup>* sv sv' \<Longrightarrow> steady True (sv_proxy sv) (sv_proxy sv')"
  "perconn_step\<^sup>*\<^sup>* sv sv' \<Longrightarrow> steady True (sv_proxy sv) (sv_proxy sv')"
  by (induction rule: rtranclp_induct; blast intro: steady_refl steady_trans server_step_steady perconn_step_steady)+

lemma event_accept_steady:
  assumes "event_accept model env sockname cl m wake sv = Some sv'"
  shows "steady False (sv_proxy sv) (sv_proxy sv')"
proof (cases "model = THREAD_MODEL_HYBRID")
  case True
  with assms hybrid_accept_parts [of sv cl m wake] show ?thesis by (auto simp: event_accept_def steadyI)
next
  case False
  obtain y sv1 where y: "accept_client cl sv = (y, sv1)" by fastforce
  note p1 = steadyI [OF accept_parts [OF y], of False]
  show ?thesis
  proof (cases y)
    case None
    with assms False y p1 show ?thesis by (simp add: event_accept_def)
  next
    case (Some a)
    with assms False y have "run_worker env sockname a sv1 = Some sv'" by (simp add: event_accept_def)
    from steady_trans [OF p1 run_worker_steady [OF this]] show ?thesis by simp
  qed
qed

lemma events_steady:
  "handle_events model env sockname es sv = Some sv' \<Longrightarrow> steady False (sv_proxy sv) (sv_proxy sv')"
proof (induction model env sockname es sv rule: handle_events.induct)
  case (4 model env sockname cl m wake es sv)
  then obtain sv1 where s: "event_accept model env sockname cl m wake sv = Some sv1"
    "handle_events model env sockname es sv1 = Some sv'" by (auto split: option.splits)
  from steady_trans [OF event_accept_steady [OF s(1)] 4(1) [OF s]] show ?case .
qed simp_all

lemma loop_steady:
  "server_loop_event_driven model env sockname as sv = Some (r, sv') \<Longrightarrow> steady False (sv_proxy sv) (sv_proxy sv')"
proof (induction model env sockname as sv rule: server_loop_event_driven.induct)
  case (2 model env sockname a as sv)
  show ?case
  proof (cases "sv_running sv = 0")
    case True
    with 2(3) show ?thesis by simp
  next
    case False
    show ?thesis
    proof (cases a)
      case (Polled es)
      with 2(3) False obtain sv1 where s: "handle_events model env sockname es sv = Some sv1"
        "server_loop_event_driven model env sockname as sv1 = Some (r, sv')" by (auto split: option.splits)
      from steady_trans [OF events_steady [OF s(1)] 2(2) [OF False Polled s]] show ?thesis .
    qed (use 2 False in simp_all)
  qed
qed auto

lemma init_parts: "proxy_server_init ia cfg sv = (r, sv') \<Longrightarrow> same_parts (sv_proxy sv) (sv_proxy sv')"
  by (auto simp: proxy_server_init_def Let_def split: prod.splits if_splits)

lemma init_listens: "proxy_server_init ia cfg sv = (0, sv') \<Longrightarrow> 0 \<le> sv_fd sv'"
  by (auto simp: proxy_server_init_def Let_def on_server_def split: prod.splits if_splits)

text \<open>What the clean-up needs does not depend on anything else of the server.\<close>

lemma orderly_steady:
  assumes "orderly cfg pr" "steady True (pr_proxy pr) (sv_proxy sv)"
  shows "orderly cfg (pr\<lparr>pr_server := sv\<rparr>)"
proof -
  have "(p_cache (pr_proxy pr) = None \<longrightarrow> p_cache (sv_proxy sv) = None) \<and>
      (\<forall>c. p_cache (sv_proxy sv) = Some c \<longrightarrow> cache_wf c)"
    using assms by (cases "p_cache (pr_proxy pr)") (auto simp: orderly_def steady_def)
  with assms show ?thesis by (simp add: orderly_def steady_def)
qed

text \<open>The states that a server comes through: of the pool, of a thread per connection, or of
  the event loop, whose script may end after any event.\<close>

definition serving :: "server \<Rightarrow> server \<Rightarrow> bool" where
  "serving sv0 sv \<longleftrightarrow> server_step\<^sup>*\<^sup>* sv0 sv \<or> perconn_step\<^sup>*\<^sup>* sv0 sv \<or>
     (\<exists>model env sockname as r. server_loop_event_driven model env sockname as sv0 = Some (r, sv))"

lemma steady_weaken: "steady True P P' \<Longrightarrow> steady b P P'"
  by (auto simp: steady_def)

lemma serving_steady: "serving sv0 sv \<Longrightarrow> steady False (sv_proxy sv0) (sv_proxy sv)"
  using steps_steady [THEN steady_weaken] loop_steady unfolding serving_def by blast

lemma flag_net [simp]: "(\<And>x. p_net (f x) = p_net x) \<Longrightarrow> p_net (on_flag b f P) = p_net P"
  by (simp add: on_flag_def)

lemma start_net:
  "start_subsystems sa cfg pr = Some pr1 \<Longrightarrow> p_net (pr_proxy pr1) = (p_net (pr_proxy pr))\<lparr>w_stats := stats_init (sa_now sa)\<rparr>"
  by (auto simp: start_subsystems_def start_features_def Let_def)

lemma on_proxy_server [simp]:
  "sv_conns (pr_server (on_proxy f pr)) = sv_conns (pr_server pr)" "sv_threads (pr_server (on_proxy f pr)) = sv_threads (pr_server pr)"
  "sv_running (pr_server (on_proxy f pr)) = sv_running (pr_server pr)"
  by (simp_all add: on_proxy_def)

lemma flag_server [simp]: "(\<And>x. g (pr_server (f x)) = g (pr_server x)) \<Longrightarrow> g (pr_server (on_flag b f pr)) = g (pr_server pr)"
  by (simp add: on_flag_def)

lemma start_server:
  "start_subsystems sa cfg pr = Some pr1 \<Longrightarrow> sv_conns (pr_server pr1) = sv_conns (pr_server pr) \<and>
     sv_threads (pr_server pr1) = sv_threads (pr_server pr) \<and> sv_running (pr_server pr1) = sv_running (pr_server pr)"
  by (auto simp: start_subsystems_def start_features_def Let_def)

subsection \<open>Properties\<close>

text \<open>C30: a whole run.  Started from nothing under the pool model or with a thread per
  connection, and whatever the clients and the workers do until the signal, the server leaves
  the configuration, the accounts, the filter and the logger as the start made them and the
  cache well-formed; \<open>main\<close> returns 0, and by then its clean-up has released every entry of
  the cache and brought every subsystem back to nothing.\<close>

theorem main_run_releases:
  assumes "blank pr" "start_subsystems sa cfg pr = Some pr1" "proxy_server_init ia cfg (pr_server pr1) = (0, sv0)"
    and "thread_model cfg \<in> {THREAD_MODEL_POOL, THREAD_MODEL_PER_CONNECTION}"
    and "proxy_server_start (thread_model cfg) env sockname sv0 r sv1"
  shows "steady True (pr_proxy pr1) (sv_proxy sv1) \<and> orderly cfg (pr1\<lparr>pr_server := sv1\<rparr>) \<and>
    (\<exists>pr'. stop_subsystems cfg (pr1\<lparr>pr_server := sv1\<rparr>) = Some (Map.empty, pr') \<and>
       main_run sa ia env sockname cfg pr 0 pr' \<and> blank pr' \<and> sv_pool (pr_server pr') = None)"
proof -
  have fd: "\<not> sv_fd sv0 < 0" using init_listens [OF assms(3)] by simp
  have run: "r = 0" "steady True (sv_proxy sv0) (sv_proxy sv1)"
    using assms(4,5) fd steps_steady by (auto simp: proxy_server_start_def)
  note s = steady_trans [OF steadyI [OF init_parts [OF assms(3)]] run(2)]
  note o = orderly_steady [OF start_orderly [OF assms(2,1)] s]
  obtain pr' where pr': "stop_subsystems cfg (pr1\<lparr>pr_server := sv1\<rparr>) = Some (Map.empty, pr')" "blank pr'"
    "sv_pool (pr_server pr') = None" using stop_blank [OF o] by blast
  have "main_run sa ia env sockname cfg pr 0 pr'"
    using assms(2,3,5) pr'(1) run(1) unfolding main_run_def by auto
  with s o pr' show ?thesis by blast
qed

definition run_cfg :: proxy_config where
  "run_cfg = config_set_defaults\<lparr>mode := PROXY_MODE_TRANSPARENT, thread_model := THREAD_MODEL_PER_CONNECTION,
     enable_caching := 1, enable_logging := 0\<rparr>"

definition run_program :: program where
  "run_program = on_proxy (\<lambda>P. P\<lparr>p_net := demo_world\<lparr>open_fds := [3], dial_script := [Socket 5 True True]\<rparr>\<rparr>) demo_program"

text \<open>One client comes, its thread runs, and the signal stops the server.\<close>

lemma demo_init_run:
  assumes "start_subsystems demo_start cfg pr = Some pr1" "thread_model cfg = THREAD_MODEL_PER_CONNECTION" "bind_address cfg = ''0.0.0.0''"
  obtains sv0 where "proxy_server_init demo_init cfg (pr_server pr1) = (0, sv0)" "sv_conns sv0 = sv_conns (pr_server pr)"
    "sv_threads sv0 = sv_threads (pr_server pr)" "sv_running sv0 = sv_running (pr_server pr)"
    "sv_proxy sv0 = (pr_proxy pr1)\<lparr>p_net := (p_net (pr_proxy pr))\<lparr>w_stats := stats_init 0, open_fds := 8 # open_fds (p_net (pr_proxy pr))\<rparr>\<rparr>"
proof (rule that)
  let ?w = "(p_net (pr_proxy pr1))\<lparr>open_fds := 8 # open_fds (p_net (pr_proxy pr1))\<rparr>"
  show "proxy_server_init demo_init cfg (pr_server pr1) = (0, on_server (\<lambda>_. ?w) ((pr_server pr1)\<lparr>sv_fd := 8\<rparr>))"
    using assms(2,3) by (simp add: proxy_server_init_def demo_init_def create_server_socket_def uses_pool_def uses_epoll_def Let_def)
qed (use start_net [OF assms(1)] start_server [OF assms(1)] in \<open>simp_all add: on_server_def demo_start_def\<close>)

lemma demo_serves:
  assumes "sv_running sv0 \<noteq> 0" "sv_conns sv0 = Map.empty" "sv_threads sv0 = []" "mode (p_config (sv_proxy sv0)) = PROXY_MODE_TRANSPARENT"
    and "enable_filtering (p_config (sv_proxy sv0)) = 0" "open_fds (sv_net sv0) = [8, 3]" "dial_script (sv_net sv0) = [Socket 5 True True]"
  obtains sv1 where "perconn_step\<^sup>*\<^sup>* sv0 sv1" "sv_running sv1 = 0"
proof -
  let ?a = "perconn_accept demo_client True sv0"
  let ?env = "demo_env\<lparr>he_put_allocs := (he_put_allocs demo_env)\<lparr>al_entry := None\<rparr>\<rparr>"
  have 1: "perconn_step sv0 ?a"
    by (rule perconn_step.p_accepts) (use assms in \<open>simp_all add: demo_client_def\<close>)
  have a: "sv_threads ?a = [7]" "\<exists>conn. sv_conns ?a 7 = Some conn" "mode (p_config (sv_proxy ?a)) = PROXY_MODE_TRANSPARENT"
    "enable_filtering (p_config (sv_proxy ?a)) = 0" "dial_ok (sv_net ?a)"
    using assms by (simp_all add: perconn_accept_def accept_client_def demo_client_def connection_create_def on_server_def Let_def dial_ok_def)
  have "run_worker ?env (\<lambda>_. []) 7 ?a \<noteq> None"
    using a(2-4) by (auto simp: run_worker_def handle_connection_worker_def connection_handle_def handle_mode_def Let_def)
  then obtain sv1 where w: "run_worker ?env (\<lambda>_. []) 7 ?a = Some sv1" by blast
  have "perconn_step ?a (sv1\<lparr>sv_threads := remove1 7 (sv_threads ?a)\<rparr>)"
    by (rule perconn_step.p_works [OF _ a(5) _ w]) (simp_all add: a(1) env_fresh_def fresh_in_def)
  from rtranclp.rtrancl_into_rtrancl [OF converse_rtranclp_into_rtranclp [OF 1 r_into_rtranclp [of perconn_step, OF this]] perconn_step.p_stops]
  show thesis by (rule that) (simp add: proxy_server_stop_def)
qed

lemma run_blank: "blank run_program"
  using demo_blank by (simp add: blank_def run_program_def)

lemma run_starts: "start_subsystems demo_start cfg run_program \<noteq> None"
  by (simp add: start_subsystems_def start_features_def start_ssl_def demo_start_def run_program_def demo_program_def
      ssl_create_server_context_def releases Let_def)

theorem main_run_releases_witness:
  "\<exists>pr'. main_run demo_start demo_init demo_env (\<lambda>_. []) run_cfg run_program 0 pr' \<and> blank pr'"
proof -
  obtain pr1 where p: "start_subsystems demo_start run_cfg run_program = Some pr1" using run_starts by blast
  have c: "thread_model run_cfg = THREAD_MODEL_PER_CONNECTION" "bind_address run_cfg = ''0.0.0.0''"
    by (simp_all add: run_cfg_def config_set_defaults_def)
  obtain sv0 where i: "proxy_server_init demo_init run_cfg (pr_server pr1) = (0, sv0)"
    and f: "sv_conns sv0 = sv_conns (pr_server run_program)" "sv_threads sv0 = sv_threads (pr_server run_program)"
      "sv_running sv0 = sv_running (pr_server run_program)"
      "sv_proxy sv0 = (pr_proxy pr1)\<lparr>p_net := (p_net (pr_proxy run_program))\<lparr>w_stats := stats_init 0,
        open_fds := 8 # open_fds (p_net (pr_proxy run_program))\<rparr>\<rparr>" by (rule demo_init_run [OF p c])
  obtain sv1 where s: "perconn_step\<^sup>*\<^sup>* sv0 sv1" "sv_running sv1 = 0"
    by (rule demo_serves [of sv0])
      (simp_all add: f run_program_def demo_program_def demo_server_def start_fields(1) [OF p] run_cfg_def config_set_defaults_def)
  have "proxy_server_start (thread_model run_cfg) demo_env (\<lambda>_. []) sv0 0 sv1"
    using s init_listens [OF i] c by (simp add: proxy_server_start_def)
  from main_run_releases [OF run_blank p i _ this] c show ?thesis by auto
qed

end
