(* ===== verification/Spec2Isabelle.thy ===== *)
theory Spec2Isabelle
  imports Cache_LRU Url_Filter Config Auth Load_Balancer Rate_Limit Server Gzip Compression Ssl Program_Run
begin

text \<open>
  ProxyMax is a forward proxy in C (\<^verbatim>\<open>src/proxy-server\<close>): it listens on a port, hands each
  accepted connection to a worker, and the worker serves it by the configured mode (HTTP and
  HTTPS, SOCKS5, TCP tunnel, reverse proxy) with the help of a response cache, a URL and
  address filter, a list of accounts, a log and counters.  A rate limiter, a load balancer,
  TLS and compression are compiled in beside them.  All of its source files are modelled.
  File names below are relative to \<^verbatim>\<open>src/proxy-server\<close>.

  The parts and how they interact.  \<open>main\<close> reads the command line into a configuration,
  starts the logger and the subsystems that the configuration names, starts the server, and
  stops everything again (\<open>Main_Program\<close>).  The server accepts clients and owns them until
  a worker takes over: through the queue of the thread pool, in a thread of its own, or by
  itself in the event loop (\<open>Server\<close>, \<open>Thread_Pool\<close>).  A worker runs
  \<open>connection_handle\<close> and then releases the connection (\<open>Connection\<close>).  The handlers
  (\<open>Http\<close>, \<open>Socks5\<close>, \<open>Tunnel\<close>) call the cache, the filter, the accounts, the
  counters and the logger, which they share in the state \<open>proxy\<close> of theory \<open>Session\<close>,
  and reach the network by the helpers of theory \<open>Network\<close>.

  Theories and sources.
  \<^item> \<open>Prelude\<close>: integers at their width, results of calls that can fail, shared
    lemmas and the collections \<open>inv_intros\<close> and \<open>step_simps\<close>.
  \<^item> \<open>C_String\<close>: the string functions of the C library that the code uses, with fixed
    arrays as lists of characters.
  \<^item> \<open>Proxy_Types\<close>: \<^verbatim>\<open>include/proxy.h\<close>.
  \<^item> \<open>Interfaces\<close>: the contracts between components as locales.  \<open>kv_cache\<close> and its
    extension \<open>lru_cache\<close> (what a handler may rely on from a cache; interpreted in
    \<open>Cache_LRU\<close>), \<open>account_store\<close> (in \<open>Auth\<close>), \<open>lease_pool\<close> (selections and
    releases of a resource; in \<open>Load_Balancer\<close>), \<open>fifo_queue\<close> (in \<open>Thread_Pool\<close>).
  \<^item> \<open>Config\<close>: \<^verbatim>\<open>src/utils/config.c\<close>.
  \<^item> \<open>Cache\<close>, \<open>Cache_LRU\<close>: \<^verbatim>\<open>src/cache/cache.c\<close>.  The first has the code
    with its heap of entries, shared by the buckets of the hash table and by the LRU queue,
    and the invariant; the second the abstract LRU list that it refines.
  \<^item> \<open>Url_Filter\<close>: \<^verbatim>\<open>src/filter/filter.c\<close>.
  \<^item> \<open>Base64\<close>, \<open>Auth\<close>: \<^verbatim>\<open>src/auth/auth.c\<close>.
  \<^item> \<open>Load_Balancer\<close>: \<^verbatim>\<open>src/core/loadbalancer.c\<close>.
  \<^item> \<open>Doubles\<close>, \<open>Rate_Limit\<close>: \<^verbatim>\<open>src/monitor/ratelimit.c\<close>.  A double is a
    rational, rounded after each operation to 53 bits, ties to even; the range of the
    exponents is not modelled.
  \<^item> \<open>Thread_Pool\<close>: \<^verbatim>\<open>src/core/threading.c\<close>, the worker loop split at its lock
    sections, so that \<open>pool_run\<close> has the interleavings of the workers.
  \<^item> \<open>Stats\<close>: \<^verbatim>\<open>src/monitor/stats.c\<close> and \<^verbatim>\<open>src/monitor/logger.c\<close>.
  \<^item> \<open>Network\<close>: \<^verbatim>\<open>src/utils/network.c\<close> over a world of sockets.
  \<^item> \<open>Session\<close>: the state that the handlers share.
  \<^item> \<open>Tunnel\<close>: the relay loop that \<^verbatim>\<open>src/core/connection.c\<close>,
    \<^verbatim>\<open>src/protocols/http.c\<close> and \<^verbatim>\<open>src/protocols/socks5.c\<close> each contain.
  \<^item> \<open>Socks5\<close>: \<^verbatim>\<open>src/protocols/socks5.c\<close>.
  \<^item> \<open>Http\<close>, \<open>Http_Parse\<close>, \<open>Http_Fetch\<close>: \<^verbatim>\<open>src/protocols/http.c\<close>.  The
    first has the definitions, the second the parser's round trip, the third what the handler
    does for a request that passes its gates.
  \<^item> \<open>Connection\<close>: \<^verbatim>\<open>src/core/connection.c\<close> and the worker of
    \<^verbatim>\<open>src/core/server.c\<close>.
  \<^item> \<open>Handling\<close>: what handling a connection leaves alone (configuration, accounts,
    filter, logger, the invariant of the cache).
  \<^item> \<open>Server\<close>: \<^verbatim>\<open>src/core/server.c\<close>.
  \<^item> \<open>Gzip\<close>, \<open>Compression\<close>: \<^verbatim>\<open>src/protocols/compression.c\<close>; \<open>deflate\<close> and
    \<open>inflate\<close> of zlib are arguments.
  \<^item> \<open>Ssl\<close>: \<^verbatim>\<open>src/protocols/ssl.c\<close>; what OpenSSL returns is an argument.
  \<^item> \<open>Main_Program\<close>, \<open>Program_Run\<close>: \<^verbatim>\<open>src/main.c\<close>; the second composes a run from
    the start of the subsystems over the server to the clean-up.

  Functions and fields have the names of the code; a clash gets a prefix or a suffix
  (\<open>p_cache\<close>, \<open>sv_running\<close>).  A function that changes a global takes it as its last
  argument and returns it after its result.  Of the result type of a definition the outermost
  \<^const>\<open>None\<close> is a run that C leaves undefined: a write past an array, a read of memory
  never written, a second \<open>free\<close>.  An inner option is a pointer that may be NULL.

  What the lemmas show.  For each component an invariant of its state (\<open>cache_wf\<close>,
  \<open>lb_wf\<close>, \<open>queue_wf\<close>, \<open>config_wf\<close>, \<open>owned\<close>), kept by every operation; what each
  operation returns on every branch; and the contract it gives its clients:
  \<^item> the cache serves what was stored last, in LRU order, and stays in its capacity for
    new keys; the filter refuses exactly what its patterns denote; an account is accepted
    exactly when the file lists it; the limiter admits a bounded number of requests of an
    address that its node keeps; the balancer finds a healthy backend, is fair, and its
    counters are right; the queue is first in, first out, loses no wake-up and ends after
    the shutdown;
  \<^item> a request is parsed back from its text, a GET is fetched, delivered and stored, a
    tunnel carries initial segments both ways, a response never leaves its buffer;
  \<^item> a connection is served only when the filters and, in the HTTP, HTTPS and SOCKS5
    modes, the accounts admit it, whatever the traffic (\<open>connection_gate\<close>, and
    \<open>only_listed_accounts\<close> below for the whole program from the credential file over any
    run of the server to the handler; the TCP and reverse modes ask for no credentials),
    and after the worker exactly its descriptors are closed; in every interleaving of accepts and workers each connection and each descriptor
    has one owner; the server leaves the settings alone, and the clean-up after any run brings
    everything back to nothing (\<open>main_run_releases\<close>).
  Several lemmas state where the code does not do this: the leak of the hybrid model when
  the pool refuses (\<open>hybrid_leaks_refused\<close>), the growth of the buffer on truncated gzip data
  (\<open>gunzip_truncated_starves\<close>), the overrun of \<open>auth_parse_basic\<close> and of the edit of the
  Content-Length field, the work that \<open>thread_pool_destroy\<close> drops, the addresses of 15
  characters that are not limited (\<open>long_address_unlimited\<close>), the unpadded credentials that
  are decoded on into the next header (\<open>auth_parse_basic_runs_on\<close>), the options after a
  configuration file that are ignored (\<open>command_line_config_last\<close>), the socket that is
  descriptor 0 (\<open>event_server_closes\<close>).

  Bounds and loops.  No definition has fuel.  The loops over sockets take their answers from
  the finite scripts of the world and end because each round consumes one; after that a
  descriptor answers end of file, as a peer does that has closed.  The loop of the
  decompression ends because a \<open>size_t\<close> that is doubled reaches zero after 64 rounds
  (\<open>doublings\<close>).  The eviction loop of the cache ends because each round removes an
  entry; it and the loop that frees the queue are partial functions, so that returning is part
  of what is proved.  \<open>size_t\<close>, \<open>unsigned long\<close> and \<open>unsigned int\<close> are words and wrap,
  \<open>int\<close> is an integer brought back to 32 bits with \<open>wrap32\<close> where the code can leave
  them.

  Not modelled.  What is only written for a reader: banner, usage, the printed configuration,
  the printed statistics, the time stamps of log lines, messages on the standard error.
  The inside of OpenSSL and zlib, and with it the names and dates in a certificate.
  \<open>compression_init\<close> and \<open>compression_cleanup\<close>, which only log.  Each call into a
  component under its mutex is one step, and a run of \<open>handle_connection_worker\<close> is one
  step of the server: the interleaving of calls of two workers inside a run is not modelled,
  nor are the workers of the hybrid model beside the event loop.  \<open>FD_SET\<close> on a descriptor
  of \<open>FD_SETSIZE\<close> or more, which writes past the set, is not a \<^const>\<open>None\<close> of
  the tunnel.  \<open>proxy_server_cleanup\<close> drops the pool in one step; broadcast, joins and the
  release of the queue are in theory \<open>Thread_Pool\<close>.  The connection that a health check
  of the balancer opens is a parameter.

  Plan.  A step relation in which the calls of several workers interleave on the shared
  components, and with it the hybrid model with its workers; the invariant of the cache
  over the event loop, whose environment is one argument for the whole loop here.
\<close>

subsection \<open>Properties of the whole program\<close>

lemma listed_accounts:
  assumes "start_subsystems sa cfg pr = Some pr1" "p_users (pr_proxy pr) = []" "enable_auth cfg \<noteq> 0"
    and "mode cfg \<in> {PROXY_MODE_HTTP, PROXY_MODE_HTTPS, PROXY_MODE_SOCKS5}"
    and "sa_fopen sa (auth_file cfg) = Some (concat (map account_line as))" "list_all listed as" "sa_users sa = (\<lambda>k. Some (m k))"
    and "p_config P = cfg" "p_users P = p_users (pr_proxy pr1)"
    and "connection_handle env sockname conn P = Some (r, conn', P')" "served r P P'"
  shows "\<exists>name pass. presents conn P (name, pass) \<and> (name, pass) \<in> set as"
proof -
  have users: "p_users P = snd (auth_init (\<lambda>k. Some (m k)) (sa_fopen sa) (Some (auth_file cfg)) [])"
    using start_fields(3) [OF assms(1)] assms(2,3,7,9) by simp
  have "logged_in conn P" using handle_gate(2) [OF assms(10,11)] assms(3,4,8) by simp
  then obtain name pass where np: "presents conn P (name, pass)" "c_string name" "c_string pass"
    "auth_verify (p_users P) (Some name) (Some pass) = Some 0" by (auto simp: logged_in_def)
  have v: "auth_verify (p_users P) (Some name) (Some pass) = Some (if (name, pass) \<in> set as then 0 else -1)"
    by (simp only: users auth_file_lists [where fopen = "sa_fopen sa" and name = "auth_file cfg" and m = m and u = name and p = pass,
        OF assms(6,5) np(2,3)])
  have "(name, pass) \<in> set as"
  proof (rule ccontr)
    assume "(name, pass) \<notin> set as"
    with trans [OF v [symmetric] np(4)] show False by simp
  qed
  with np(1) show ?thesis by blast
qed

text \<open>C1: only listed accounts are served.  The program was started with authentication on
  and a credential file, in the HTTP, HTTPS or SOCKS5 mode, and its server has run for any
  time, with any clients, traffic and errors, under any interleaving of the accepting thread
  with the workers.  Then every connection that is served next (its handling succeeds, dials
  a host or changes the cache) has sent a name and a password that the file lists together.
  The TCP and reverse modes relay without credentials, whatever the configuration says.\<close>

theorem only_listed_accounts:
  assumes "start_subsystems sa cfg pr = Some pr1" "p_users (pr_proxy pr) = []" "enable_auth cfg \<noteq> 0"
    and "mode cfg \<in> {PROXY_MODE_HTTP, PROXY_MODE_HTTPS, PROXY_MODE_SOCKS5}"
    and "sa_fopen sa (auth_file cfg) = Some (concat (map account_line as))" "list_all listed as" "sa_users sa = (\<lambda>k. Some (m k))"
    and "proxy_server_init ia cfg (pr_server pr1) = (0, sv0)" "serving sv0 sv"
    and "connection_handle env sockname conn (sv_proxy sv) = Some (r, conn', P')" "served r (sv_proxy sv) P'"
  shows "\<exists>name pass. presents conn (sv_proxy sv) (name, pass) \<and> (name, pass) \<in> set as"
proof -
  have "steady False (pr_proxy pr1) (sv_proxy sv)"
    using steady_trans [OF steadyI [OF init_parts [OF assms(8)]] serving_steady [OF assms(9)]] .
  then have "p_config (sv_proxy sv) = cfg" "p_users (sv_proxy sv) = p_users (pr_proxy pr1)"
    using start_fields(1) [OF assms(1)] by (simp_all add: steady_def)
  from listed_accounts [OF assms(1-7) this assms(10,11)] show ?thesis .
qed

text \<open>A request with credentials, whose host does not answer.\<close>

definition auth_text :: string where
  "auth_text = request_text ''GET'' ''http://h/'' ''HTTP/1.0'' ''h'' None (basic_header (''bob'', ''pwd'') @ CRLF @ CRLF)"

definition auth_cfg :: proxy_config where
  "auth_cfg = config_set_defaults\<lparr>thread_model := THREAD_MODEL_PER_CONNECTION, enable_logging := 0, enable_auth := 1\<rparr>"

definition auth_program :: program where
  "auth_program = on_proxy (\<lambda>P. P\<lparr>p_net := demo_world\<lparr>dial_script := [Socket 5 True False],
     recv_script := (\<lambda>fd. if fd = 4 then [Data (bytes_of auth_text)] else [])\<rparr>\<rparr>) demo_program"

lemma auth_accounts: "list_all listed [(''bob'', ''pwd''), (''eve'', ''x'')]"
  by (simp add: listed_def fits_def c_string_def NAME_SIZE_def)

lemma auth_text_c: "c_text (bytes_of auth_text) = auth_text"
proof (rule c_text_bytes_of)
  show "c_string auth_text" unfolding auth_text_def by code_simp
qed

lemma auth_text_parses: "http_parse_request (c_text (bytes_of auth_text)) = Some (Some get_parsed)"
proof -
  have "writable ''GET'' ''http://h/'' ''HTTP/1.0'' ''h'' None"
    by (simp add: writable_def word_text_def host_field_def METHOD_SIZE_def MAX_PATH_def VERSION_SIZE_def
        MAX_HOSTNAME_def char_eval)
  from parse_request_text [OF this, of "basic_header (''bob'', ''pwd'') @ CRLF @ CRLF"]
  have "http_parse_request auth_text = Some (Some get_parsed)" unfolding auth_text_def get_parsed_def by simp
  then show ?thesis by (simp only: auth_text_c)
qed

lemma auth_text_login:
  "strcasestr auth_text ''Proxy-Authorization:'' = Some (basic_header (''bob'', ''pwd'') @ CRLF @ CRLF)"
  "auth_parse_basic 128 128 (Some (basic_header (''bob'', ''pwd'') @ CRLF @ CRLF)) = Some (Some (''bob'', ''pwd''))"
proof -
  let ?f = "''Proxy-Authorization:''" and ?p = "''GET http://h/ HTTP/1.0'' @ CRLF @ ''Host: h''"
  let ?q = "'' Basic '' @ base64_encode (bytes_of (''bob'' @ CHR '':'' # ''pwd'')) @ CRLF @ CRLF"
  have n: "strcasestr ?p ?f = None" "to_lower CR \<notin> to_lower ` set ?f" "to_lower LF \<notin> to_lower ` set ?f" "?f \<noteq> []"
    by (simp_all add: char_eval)
  have q: "?f @ ?q = basic_header (''bob'', ''pwd'') @ CRLF @ CRLF" by (simp add: basic_header_def)
  have t: "auth_text = ?p @ CRLF @ ?f @ ?q" unfolding q auth_text_def by (simp add: request_text_def host_field_def)
  show "strcasestr auth_text ?f = Some (basic_header (''bob'', ''pwd'') @ CRLF @ CRLF)"
    unfolding q [symmetric] t by (rule strcasestr_after_line [OF n])
  show "auth_parse_basic 128 128 (Some (basic_header (''bob'', ''pwd'') @ CRLF @ CRLF)) = Some (Some (''bob'', ''pwd''))"
    by (subst auth_parse_header) (simp_all add: c_pair_def c_string_def DECODED_SIZE_def)
qed

lemma auth_starts:
  obtains pr1 sv0 where "start_subsystems demo_start auth_cfg auth_program = Some pr1" "p_users (pr_proxy auth_program) = []"
    "proxy_server_init demo_init auth_cfg (pr_server pr1) = (0, sv0)" "p_config (sv_proxy sv0) = auth_cfg"
    "auth_verify (p_users (sv_proxy sv0)) (Some ''bob'') (Some ''pwd'') = Some 0"
    "recv_script (sv_net sv0) 4 = [Data (bytes_of auth_text)]" "dial_script (sv_net sv0) = [Socket 5 True False]"
proof -
  have "start_subsystems demo_start auth_cfg auth_program \<noteq> None"
    by (simp add: start_subsystems_def start_features_def start_ssl_def demo_start_def auth_program_def demo_program_def
      ssl_create_server_context_def releases Let_def)
  then obtain pr1 where p: "start_subsystems demo_start auth_cfg auth_program = Some pr1" by blast
  have e: "p_users (pr_proxy auth_program) = []" by (simp add: auth_program_def demo_program_def)
  have c: "thread_model auth_cfg = THREAD_MODEL_PER_CONNECTION" "bind_address auth_cfg = ''0.0.0.0''"
    by (simp_all add: auth_cfg_def config_set_defaults_def)
  obtain sv0 where i: "proxy_server_init demo_init auth_cfg (pr_server pr1) = (0, sv0)"
    and f: "sv_proxy sv0 = (pr_proxy pr1)\<lparr>p_net := (p_net (pr_proxy auth_program))\<lparr>w_stats := stats_init 0,
        open_fds := 8 # open_fds (p_net (pr_proxy auth_program))\<rparr>\<rparr>" by (rule demo_init_run [OF p c])
  have "p_users (sv_proxy sv0) = snd (auth_init (\<lambda>k. Some \<lparr>username = [], password = []\<rparr>) (sa_fopen demo_start) (Some (auth_file auth_cfg)) [])"
    using start_fields(3) [OF p] e f by (simp add: auth_cfg_def demo_start_def)
  then have u: "auth_verify (p_users (sv_proxy sv0)) (Some ''bob'') (Some ''pwd'') = Some 0"
    using auth_file_lists [where fopen = "sa_fopen demo_start" and m = "\<lambda>k. \<lparr>username = [], password = []\<rparr>" and u = "''bob''"
      and p = "''pwd''" and name = "auth_file auth_cfg", OF auth_accounts]
    by (simp add: demo_start_def c_string_def)
  show thesis
    by (rule that [OF p e i _ u]) (simp_all add: f start_fields(1) [OF p] auth_program_def)
qed

lemma auth_dials:
  assumes "p_config P = auth_cfg" "auth_verify (p_users P) (Some ''bob'') (Some ''pwd'') = Some 0"
    and "recv_script (p_net P) 4 = [Data (bytes_of auth_text)]" "dial_script (p_net P) = [Socket 5 True False]"
  obtains conn' P' where "connection_handle demo_env (\<lambda>_. []) demo_conn P = Some (-1, conn', P')" "dialled (p_net P') \<noteq> dialled (p_net P)"
proof -
  let ?req = "bytes_of auth_text" and ?conn = "demo_conn\<lparr>authenticated := 1\<rparr>"
  have c: "enable_auth auth_cfg \<noteq> 0" "enable_filtering auth_cfg = 0" "enable_caching auth_cfg = 0" "mode auth_cfg = PROXY_MODE_HTTP"
    by (simp_all add: auth_cfg_def config_set_defaults_def)
  have r: "recv_script (p_net P) (client_fd demo_conn) = [Data ?req]" using assms(3) by (simp add: demo_conn_def)
  have l: "?req \<noteq> []" "length ?req < BUFFER_SIZE"
    by (simp_all add: auth_text_def request_text_def host_field_def basic_header_def BUFFER_SIZE_def bytes_of_def code_def)
  have "http_auth (c_text ?req) P = Some True"
    unfolding http_auth_def auth_text_c auth_text_login(1) option.case auth_text_login(2) prod.case by (simp add: assms(2))
  then have p: "passes get_parsed ?req P" using c assms(1) by (simp add: passes_def)
  have host: "rq_host get_parsed = Some ''h''" by (simp add: get_parsed_def)
  obtain Q where h: "http_handle_request demo_env demo_conn P =
      http_serve demo_env get_parsed ?req (if enable_auth (p_config P) \<noteq> 0 then ?conn else demo_conn) Q"
    and Q: "unserved P Q" "dial_script (p_net Q) = dial_script (p_net P)"
    by (rule handle_passes [OF r l auth_text_parses host p, where env = demo_env]) (rule that)
  define Q1 where "Q1 = snd (on_net (connect_to_host ''h'' 80) Q)"
  have dial: "on_net (connect_to_host ''h'' 80) Q = (-1, Q1)" "dialled (p_net Q1) = dialled (p_net Q) @ [(''h'', 80)]"
    using Q(2) assms(4) by (simp_all add: Q1_def on_net_def connect_to_host_def sys_close_def)
  have "\<not> caches get_parsed Q" using Q(1) assms(1) c by (simp add: caches_def unserved_def)
  then have "http_serve demo_env get_parsed ?req ?conn Q = refuse (?conn\<lparr>remote_fd := -1\<rparr>) bad_gateway Q1"
    using dial(1) by (simp add: http_serve_def http_fetch_def http_forward_def get_parsed_def Let_def)
  moreover have "connection_handle demo_env (\<lambda>_. []) demo_conn P = http_handle_request demo_env demo_conn P"
    using c assms(1) by (simp add: connection_handle_def handle_mode_def)
  ultimately have "connection_handle demo_env (\<lambda>_. []) demo_conn P =
      Some (-1, ?conn\<lparr>remote_fd := -1\<rparr>, answer (?conn\<lparr>remote_fd := -1\<rparr>) bad_gateway Q1)" using h c assms(1) by (simp add: refuse_def)
  moreover have "dialled (p_net (answer (?conn\<lparr>remote_fd := -1\<rparr>) bad_gateway Q1)) \<noteq> dialled (p_net P)"
    using answer_frame [of Q1] dial(2) Q(1) by (simp add: same_session_def unserved_def)
  ultimately show thesis by (rule that)
qed

theorem only_listed_accounts_witness:
  "\<exists>pr1 sv0 name pass. start_subsystems demo_start auth_cfg auth_program = Some pr1 \<and>
     proxy_server_init demo_init auth_cfg (pr_server pr1) = (0, sv0) \<and> presents demo_conn (sv_proxy sv0) (name, pass) \<and>
     (name, pass) \<in> {(''bob'', ''pwd''), (''eve'', ''x'')}"
proof -
  obtain pr1 sv0 where s: "start_subsystems demo_start auth_cfg auth_program = Some pr1" "p_users (pr_proxy auth_program) = []"
    and i: "proxy_server_init demo_init auth_cfg (pr_server pr1) = (0, sv0)" "p_config (sv_proxy sv0) = auth_cfg"
      "auth_verify (p_users (sv_proxy sv0)) (Some ''bob'') (Some ''pwd'') = Some 0"
      "recv_script (sv_net sv0) 4 = [Data (bytes_of auth_text)]" "dial_script (sv_net sv0) = [Socket 5 True False]"
    by (rule auth_starts)
  obtain conn' P' where h: "connection_handle demo_env (\<lambda>_. []) demo_conn (sv_proxy sv0) = Some (-1, conn', P')"
    and d: "dialled (p_net P') \<noteq> dialled (sv_net sv0)" by (rule auth_dials [OF i(2-5)])
  have c: "enable_auth auth_cfg \<noteq> 0" "mode auth_cfg \<in> {PROXY_MODE_HTTP, PROXY_MODE_HTTPS, PROXY_MODE_SOCKS5}"
    "sa_fopen demo_start (auth_file auth_cfg) = Some (concat (map account_line [(''bob'', ''pwd''), (''eve'', ''x'')]))"
    "sa_users demo_start = (\<lambda>k. Some \<lparr>username = [], password = []\<rparr>)"
    by (simp_all add: auth_cfg_def config_set_defaults_def demo_start_def)
  have "serving sv0 sv0" "served (-1) (sv_proxy sv0) P'" using d by (simp_all add: serving_def served_def)
  from only_listed_accounts [OF s c(1-3) auth_accounts c(4) i(1) this(1) h this(2)] s(1) i(1) show ?thesis by auto
qed

end
